(* ===== verification/XC_Prelude.thy ===== *)
theory XC_Prelude
  imports Main "HOL-Library.Word" "HOL-Library.AList" "HOL-Library.Multiset"
begin

text \<open>
  Shared vocabulary of the development: the Go types the components use, the
  collections the proofs draw on, generic facts on association lists, slices and
  machine words, and the contract of a state machine with an invariant.

  A Go \<open>uint64\<close> is a \<open>64 word\<close>; \<open>*big.Int\<close> is \<open>int\<close>; \<open>common.Address\<close> (20 bytes) and
  \<open>common.Hash\<close> (32 bytes) are words of that many bits, whose order is the byte-wise
  big-endian order of \<open>bytes.Compare\<close>.  A Go map is an association list with distinct
  keys; its list order stands for the iteration order of a \<open>range\<close> loop, so a statement
  for every list is a statement for every iteration order.  An operation that can panic
  returns an option whose \<open>None\<close> is the panic.
\<close>

type_synonym u64 = "64 word"
type_synonym address = "160 word"
type_synonym hash = "256 word"
type_synonym bytes = "8 word list"
type_synonym 'a go = "'a option"

named_theorems alist_simps \<open>rewriting of Go maps kept as association lists\<close>
named_theorems inv_intros \<open>preservation of component invariants\<close>

section \<open>Go maps\<close>

abbreviation go_ok :: "('k \<times> 'v) list \<Rightarrow> bool" where
  "go_ok m \<equiv> distinct (map fst m)"

lemma go_ok_update [simp, intro]: "go_ok m \<Longrightarrow> go_ok (AList.update k v m)"
  by (rule AList.distinct_update)

lemma go_ok_delete [simp, intro]: "go_ok m \<Longrightarrow> go_ok (AList.delete k m)"
  by (rule AList.distinct_delete)

lemma go_ok_filter [simp, intro]: "go_ok m \<Longrightarrow> go_ok (filter P m)"
  by (induction m) (auto simp: image_iff)

lemma go_ok_lookup: "go_ok m \<Longrightarrow> (k, v) \<in> set m \<longleftrightarrow> map_of m k = Some v"
  by (simp add: map_of_eq_Some_iff)

lemma map_of_delete [alist_simps]: "map_of (AList.delete k m) = (map_of m)(k := None)"
  by (rule AList.delete_conv')

lemma map_of_update [alist_simps]: "map_of (AList.update k v m) = (map_of m)(k \<mapsto> v)"
  by (rule AList.update_conv')

lemma set_delete [alist_simps]: "set (AList.delete k m) = {p \<in> set m. fst p \<noteq> k}"
  by (auto simp: AList.delete_eq)

lemma mset_update_new:
  "map_of m k = None \<Longrightarrow> mset (AList.update k v m) = add_mset (k, v) (mset m)"
  by (induction m) (auto split: if_splits)

lemma mset_delete_present:
  assumes "go_ok m" "map_of m k = Some v"
  shows "mset m = add_mset (k, v) (mset (AList.delete k m))"
  using assms
proof (induction m)
  case Nil
  then show ?case by simp
next
  case (Cons p m)
  show ?case
  proof (cases "fst p = k")
    case True
    with Cons.prems have "k \<notin> fst ` set m" by auto
    then have "AList.delete k m = m" by (simp add: AList.delete_idem)
    with True Cons.prems show ?thesis by (cases p) (auto simp: AList.delete_eq)
  next
    case False
    with Cons.prems have "mset m = add_mset (k, v) (mset (AList.delete k m))"
      by (intro Cons.IH) (auto split: if_splits)
    with False show ?thesis by (cases p) (simp add: AList.delete_eq)
  qed
qed

lemma mset_keys_delete:
  assumes "go_ok m" "map_of m k = Some v"
  shows "mset (map fst m) = add_mset k (mset (map fst (AList.delete k m)))"
  using arg_cong [OF mset_delete_present [OF assms], of "image_mset fst"] by simp

lemma length_delete_present:
  "go_ok m \<Longrightarrow> map_of m k = Some v \<Longrightarrow> length m = Suc (length (AList.delete k m))"
  by (drule (1) mset_delete_present) (metis size_add_mset size_mset)

lemma map_of_filter_snd:
  "go_ok m \<Longrightarrow> map_of (filter (\<lambda>p. P (snd p)) m) k
     = (case map_of m k of None \<Rightarrow> None | Some v \<Rightarrow> if P v then Some v else None)"
  by (induction m) (auto split: option.splits simp: map_of_eq_None_iff rev_image_eqI)

section \<open>Slices\<close>

text \<open>\<open>xs[lo:]\<close> and \<open>xs[:hi]\<close>: out of range is a panic.\<close>

definition slice_from :: "'a list \<Rightarrow> int \<Rightarrow> 'a list go" where
  "slice_from xs lo = (if 0 \<le> lo \<and> lo \<le> int (length xs) then Some (drop (nat lo) xs) else None)"

definition slice_to :: "'a list \<Rightarrow> int \<Rightarrow> 'a list go" where
  "slice_to xs hi = (if 0 \<le> hi \<and> hi \<le> int (length xs) then Some (take (nat hi) xs) else None)"

definition slice_at :: "'a list \<Rightarrow> int \<Rightarrow> 'a go" where
  "slice_at xs i = (if 0 \<le> i \<and> i < int (length xs) then Some (xs ! nat i) else None)"

text \<open>A linear search stops at the first hit.\<close>

lemma takeWhile_hit:
  "x \<in> set xs \<Longrightarrow> length (takeWhile (\<lambda>k. k \<noteq> x) xs) < length xs
     \<and> xs ! length (takeWhile (\<lambda>k. k \<noteq> x) xs) = x"
  by (induction xs) auto

text \<open>Cutting a list at the first bad element: the prefix, the bad, and the good behind.\<close>

lemma mset_prefix_split:
  "mset xs = mset (takeWhile P xs) + mset (filter (\<lambda>x. \<not> P x) xs) + mset (filter P (dropWhile P xs))"
proof (induction xs)
  case (Cons x xs)
  show ?case
  proof (cases "P x")
    case True
    then show ?thesis using Cons by (simp del: mset_filter)
  next
    case False
    then show ?thesis by simp
  qed
qed simp

section \<open>Machines with an invariant\<close>

text \<open>
  The contract shared by every stateful component: a set of initial states and a step
  relation that keep an invariant.  Its consequence, that the invariant holds after any
  number of steps, is proved here once.
\<close>

locale invariant_machine =
  fixes start :: "'s \<Rightarrow> bool"
    and step :: "'s \<Rightarrow> 's \<Rightarrow> bool"
    and inv :: "'s \<Rightarrow> bool"
  assumes inv_start: "start s \<Longrightarrow> inv s"
    and inv_step: "inv s \<Longrightarrow> step s t \<Longrightarrow> inv t"
begin

lemma inv_steps: "step\<^sup>*\<^sup>* s t \<Longrightarrow> inv s \<Longrightarrow> inv t"
  by (induction rule: rtranclp_induct) (auto intro: inv_step)

lemma inv_reachable: "start s \<Longrightarrow> step\<^sup>*\<^sup>* s t \<Longrightarrow> inv t"
  by (blast intro: inv_start inv_steps)

end

end
