(* ===== verification/Chain_Types.thy ===== *)
theory Chain_Types
  imports XC_Prelude
begin

text \<open>
  The values the node receives from \<open>MoacLib\<close>, which is not part of the repository, as
  records of what their accessors return: a transaction as \<open>types.Transaction\<close> answers to
  \<open>Hash\<close>, \<open>Nonce\<close>, \<open>GasPrice\<close>, \<open>Cost\<close> and so on, and \<open>types.Sender\<close> under the pool's
  signer; a header as the fields of \<open>types.Header\<close> with \<open>Hash()\<close> as one more field.
  Nothing relates the fields to each other: the components prove what they need from
  their own checks.
\<close>

record tx =
  tx_hash :: hash
  tx_nonce :: u64
  tx_gasPrice :: int
  tx_gasLimit :: int
  tx_value :: int
  tx_cost :: int
  tx_sender :: "address option"
  tx_size :: u64
  tx_isClassic :: bool
  tx_chainId :: int
  tx_to :: "address option"
  tx_data :: bytes

record header =
  h_hash :: hash
  h_parentHash :: hash
  h_uncleHash :: hash
  h_coinbase :: address
  h_root :: hash
  h_txHash :: hash
  h_receiptHash :: hash
  h_bloom :: nat
  h_difficulty :: int
  h_number :: int
  h_gasLimit :: int
  h_gasUsed :: int
  h_time :: int
  h_extra :: bytes
  h_mixDigest :: hash
  h_nonce :: bytes

text \<open>\<open>(*big.Int).Uint64()\<close> keeps the low 64 bits of the magnitude (zero is its own).\<close>

definition big_Uint64 :: "int \<Rightarrow> u64" where
  "big_Uint64 x = word_of_int \<bar>x\<bar>"

text \<open>\<open>(*big.Int).Int64()\<close> is the low 64 bits read as a signed number, with the sign applied.\<close>

definition big_Int64 :: "int \<Rightarrow> int" where
  "big_Int64 x = sint (word_of_int x :: u64)"

text \<open>\<open>(*big.Int).Div\<close> is Euclidean; for a positive divisor this is \<open>div\<close>.\<close>

lemma big_Uint64_of_nat: "0 \<le> x \<Longrightarrow> x < 2 ^ 64 \<Longrightarrow> uint (big_Uint64 x) = x"
  by (simp add: big_Uint64_def uint_word_of_int take_bit_int_eq_self)

lemma uint_add_big:
  assumes "0 \<le> r" "uint (g :: u64) + r < 2 ^ 64"
  shows "uint (g + big_Uint64 r) = uint g + r"
proof -
  have "r < 2 ^ 64" using assms(2) uint_ge_0 [of g] by linarith
  then have "uint (big_Uint64 r) = r" using assms(1) by (rule big_Uint64_of_nat [rotated])
  then show ?thesis using assms by (simp add: uint_word_ariths)
qed

text \<open>A plain transfer with a given hash, sender, nonce, price and cost, for concrete examples.\<close>

definition sample_tx :: "hash \<Rightarrow> address \<Rightarrow> u64 \<Rightarrow> int \<Rightarrow> int \<Rightarrow> tx" where
  "sample_tx h a n price cost =
     \<lparr>tx_hash = h, tx_nonce = n, tx_gasPrice = price, tx_gasLimit = 21000, tx_value = 0,
      tx_cost = cost, tx_sender = Some a, tx_size = 110, tx_isClassic = True, tx_chainId = 0,
      tx_to = Some 1, tx_data = []\<rparr>"

text \<open>\<open>Address.Bytes()\<close>: twenty bytes, the highest first.\<close>

definition address_bytes :: "address \<Rightarrow> bytes" where
  "address_bytes a = map (\<lambda>i. ucast (drop_bit (8 * (19 - i)) a)) [0..<20]"

lemma address_bytes_inj: "address_bytes a = address_bytes b \<longleftrightarrow> a = b"
proof
  assume eq: "address_bytes a = address_bytes b"
  show "a = b"
  proof (rule bit_word_eqI)
    fix n assume n: "n < LENGTH(160)"
    define i where "i = 19 - n div 8"
    have i: "i < 20" "8 * (19 - i) + n mod 8 = n" using n by (simp_all add: i_def)
    then have "address_bytes a ! i = address_bytes b ! i" using eq by simp
    then have "(ucast (drop_bit (8 * (19 - i)) a) :: 8 word) = ucast (drop_bit (8 * (19 - i)) b)"
      using i(1) by (simp add: address_bytes_def)
    then have "bit (ucast (drop_bit (8 * (19 - i)) a) :: 8 word) (n mod 8) = bit (ucast (drop_bit (8 * (19 - i)) b) :: 8 word) (n mod 8)"
      by simp
    then show "bit a n \<longleftrightarrow> bit b n" using n i by (simp add: bit_ucast_iff bit_drop_bit_eq)
  qed
qed simp

end
