(* ===== verification/State_Transition.thy ===== *)
theory State_Transition
  imports Chain_Types
begin

text \<open>
  \<open>core/gaspool.go\<close> and \<open>core/state_transition.go\<close>: buying gas, running a message and
  returning what is left.  The account state (\<open>vm.StateDB\<close>), the virtual machine
  (\<open>vm.EVM\<close>) and the gas constants (\<open>params\<close>) are \<open>MoacLib\<close>'s; they are arguments, given as
  records of the operations the code calls.  \<open>IsWhiteListCall\<close> of
  \<open>core/contracts/contracts.go\<close> decides one notification.
\<close>

section \<open>The interfaces\<close>

datatype vm_error = ErrOutOfGas | ErrInsufficientBalance | ErrOtherVm nat

datatype core_error =
    ErrNonceTooHigh | ErrNonceTooLow | ErrGasLimitReached | ErrInsufficientBalanceForGas
  | ErrVm vm_error | ErrAsMessage

record 's statedb =
  GetBalance :: "'s \<Rightarrow> address \<Rightarrow> int"
  SubBalance :: "'s \<Rightarrow> address \<Rightarrow> int \<Rightarrow> 's"
  AddBalance :: "'s \<Rightarrow> address \<Rightarrow> int \<Rightarrow> 's"
  GetNonce :: "'s \<Rightarrow> address \<Rightarrow> u64"
  SetNonce :: "'s \<Rightarrow> address \<Rightarrow> u64 \<Rightarrow> 's"
  Exist :: "'s \<Rightarrow> address \<Rightarrow> bool"
  CreateAccount :: "'s \<Rightarrow> address \<Rightarrow> 's"
  GetRefund :: "'s \<Rightarrow> int"

record 's evm =
  evm_pangu :: bool
  evm_coinbase :: address
  evm_hasNr :: bool
  evm_CreateSystemContract :: "'s \<Rightarrow> address \<Rightarrow> bytes \<Rightarrow> hash option \<Rightarrow> bytes \<times> vm_error option \<times> 's"
  evm_Create ::
    "'s \<Rightarrow> address \<Rightarrow> bytes \<Rightarrow> u64 \<Rightarrow> int \<Rightarrow> u64 \<Rightarrow> hash option \<Rightarrow> bytes \<times> address \<times> u64 \<times> vm_error option \<times> 's"
  evm_Call ::
    "'s \<Rightarrow> address \<Rightarrow> address \<Rightarrow> bytes \<Rightarrow> u64 \<Rightarrow> int \<Rightarrow> bool \<Rightarrow> u64 \<Rightarrow> hash option \<Rightarrow> bytes \<times> u64 \<times> vm_error option \<times> 's"

record gas_table =
  TxGas :: u64
  TxGasContractCreation :: u64
  TxDataZeroGas :: u64
  TxDataNonZeroGas :: u64

record message =
  m_from :: address
  m_to :: "address option"
  m_gasPrice :: int
  m_gasLimit :: int
  m_value :: int
  m_nonce :: u64
  m_checkNonce :: bool
  m_data :: bytes
  m_system :: u64
  m_waitBlockNumber :: int
  m_shardFlag :: u64
  m_msgHash :: "hash option"

section \<open>The gas pool\<close>

definition AddGas :: "int \<Rightarrow> int \<Rightarrow> int" where
  "AddGas gp amount = gp + amount"

definition SubGas :: "int \<Rightarrow> int \<Rightarrow> core_error + int" where
  "SubGas gp amount = (if gp < amount then Inl ErrGasLimitReached else Inr (gp - amount))"

section \<open>The state transition\<close>

record 's StateTransition =
  st_gp :: int
  st_msg :: message
  st_gasRemaining :: u64
  st_gasPrice :: int
  st_initialGas :: int
  st_value :: int
  st_data :: bytes
  st_state :: 's
  st_whiteUpdates :: "u64 list"

definition IntrinsicGas :: "gas_table \<Rightarrow> bytes \<Rightarrow> bool \<Rightarrow> bool \<Rightarrow> int" where
  "IntrinsicGas par data contractCreation pangu =
     (let igas = (if contractCreation \<and> pangu then uint (TxGasContractCreation par) else uint (TxGas par))
      in if 0 < length data
         then let nz = int (length (filter (\<lambda>byt. byt \<noteq> 0) data))
              in igas + nz * uint (TxDataNonZeroGas par)
                      + (int (length data) - nz) * uint (TxDataZeroGas par)
         else igas)"

definition NewStateTransition :: "'s \<Rightarrow> message \<Rightarrow> int \<Rightarrow> 's StateTransition" where
  "NewStateTransition s msg gp =
     \<lparr>st_gp = gp, st_msg = msg, st_gasRemaining = 0, st_gasPrice = m_gasPrice msg, st_initialGas = 0,
      st_value = m_value msg, st_data = m_data msg, st_state = s, st_whiteUpdates = []\<rparr>"

text \<open>\<open>from\<close> and \<open>to\<close> create the account they name when it does not exist.\<close>

definition ensure_account :: "'s statedb \<Rightarrow> 's StateTransition \<Rightarrow> address \<Rightarrow> 's StateTransition" where
  "ensure_account db st a =
     (if Exist db (st_state st) a then st else st\<lparr>st_state := CreateAccount db (st_state st) a\<rparr>)"

definition st_from :: "'s statedb \<Rightarrow> 's StateTransition \<Rightarrow> 's StateTransition \<times> address" where
  "st_from db st = (ensure_account db st (m_from (st_msg st)), m_from (st_msg st))"

definition st_to :: "'s statedb \<Rightarrow> 's StateTransition \<Rightarrow> 's StateTransition \<times> address" where
  "st_to db st = (case m_to (st_msg st) of
       None \<Rightarrow> (st, 0)
     | Some to \<Rightarrow> (ensure_account db st to, to))"

definition useGas :: "'s StateTransition \<Rightarrow> u64 \<Rightarrow> core_error + 's StateTransition" where
  "useGas st amount =
     (if st_gasRemaining st < amount then Inl (ErrVm ErrOutOfGas)
      else Inr (st\<lparr>st_gasRemaining := st_gasRemaining st - amount\<rparr>))"

text \<open>\<open>x.BitLen() > 64\<close>.\<close>

definition over_64_bits :: "int \<Rightarrow> bool" where
  "over_64_bits x \<longleftrightarrow> \<bar>x\<bar> \<ge> 2 ^ 64"

definition buyGas :: "'s statedb \<Rightarrow> 's StateTransition \<Rightarrow> 's StateTransition \<times> core_error option" where
  "buyGas db st0 =
     (let mgas = m_gasLimit (st_msg st0) in
      if over_64_bits mgas then (st0, Some (ErrVm ErrOutOfGas))
      else
        let mgval = mgas * st_gasPrice st0;
            (st, sender) = st_from db st0
        in if GetBalance db (st_state st) sender < mgval then (st, Some ErrInsufficientBalanceForGas)
           else case SubGas (st_gp st) mgas of
               Inl err \<Rightarrow> (st, Some err)
             | Inr gp \<Rightarrow>
                 (st\<lparr>st_gp := gp, st_gasRemaining := st_gasRemaining st + big_Uint64 mgas,
                     st_initialGas := mgas, st_state := SubBalance db (st_state st) sender mgval\<rparr>, None))"

definition preCheck :: "'s statedb \<Rightarrow> 's StateTransition \<Rightarrow> 's StateTransition \<times> core_error option" where
  "preCheck db st0 =
     (let (st, sender) = st_from db st0; msg = st_msg st; nonce = GetNonce db (st_state st) sender in
      if m_checkNonce msg \<and> nonce < m_nonce msg then (st, Some ErrNonceTooHigh)
      else if m_checkNonce msg \<and> nonce > m_nonce msg then (st, Some ErrNonceTooLow)
      else buyGas db st)"

definition gasUsed :: "'s StateTransition \<Rightarrow> int" where
  "gasUsed st =
     (if st_initialGas st > uint (st_gasRemaining st)
      then st_initialGas st - uint (st_gasRemaining st) else 0)"

definition refundGas :: "'s statedb \<Rightarrow> 's StateTransition \<Rightarrow> 's StateTransition" where
  "refundGas db st0 =
     (let (st, sender) = st_from db st0;
          remaining = uint (st_gasRemaining st) * st_gasPrice st;
          st = (if st_initialGas st > uint (st_gasRemaining st)
                then st\<lparr>st_state := AddBalance db (st_state st) sender remaining\<rparr> else st);
          refund = min (gasUsed st div 2) (GetRefund db (st_state st));
          st = st\<lparr>st_gasRemaining := st_gasRemaining st + big_Uint64 refund\<rparr>;
          st = st\<lparr>st_state := AddBalance db (st_state st) sender (refund * st_gasPrice st)\<rparr>
      in if st_initialGas st > uint (st_gasRemaining st)
         then st\<lparr>st_gp := AddGas (st_gp st) (uint (st_gasRemaining st))\<rparr> else st)"

definition whiteListContractCallAddr :: address where
  "whiteListContractCallAddr = 0x406f4c2d1ca8be4709b6a3cc66066cf176aa01ca"

definition IsWhiteListCall :: "address \<Rightarrow> bytes \<Rightarrow> bool" where
  "IsWhiteListCall addr data \<longleftrightarrow>
     addr = whiteListContractCallAddr
     \<and> (data = [0xdc, 0xcb, 0xd0, 0x14] \<or> data = [0x21, 0xb0, 0x4c, 0x93]
        \<or> data = [0xe1, 0xfa, 0x8e, 0x84] \<or> data = [0x95, 0xbc, 0x26, 0x73])"

text \<open>The creation or call in the middle of a transition; \<open>hook\<close> is whether the white-list
  notification follows a call (it does in \<open>TransitionDb\<close> only).\<close>

definition run_message ::
  "'s statedb \<Rightarrow> 's evm \<Rightarrow> bool \<Rightarrow> 's StateTransition \<Rightarrow> address \<Rightarrow> 's StateTransition \<times> bytes \<times> vm_error option" where
  "run_message db ev hook st0 sender =
     (let msg = st_msg st0 in
      if m_to msg = None then
        if m_system msg > 0 then
          let (ret, vmerr, s) = evm_CreateSystemContract ev (st_state st0)
                (ucast (ucast (m_system msg) :: 8 word)) (st_data st0) (m_msgHash msg)
          in (st0\<lparr>st_state := s\<rparr>, ret, vmerr)
        else
          let (ret, _, left, vmerr, s) = evm_Create ev (st_state st0) sender (st_data st0)
                (st_gasRemaining st0) (st_value st0) (m_shardFlag msg) (m_msgHash msg)
          in (st0\<lparr>st_state := s, st_gasRemaining := left\<rparr>, ret, vmerr)
      else
        let st1 = st0\<lparr>st_state := SetNonce db (st_state st0) sender (GetNonce db (st_state st0) sender + 1)\<rparr>;
            (st2, to) = st_to db st1;
            data = st_data st2;
            (ret, left, vmerr, s) = evm_Call ev (st_state st2) sender to data (st_gasRemaining st2)
              (st_value st2) (m_waitBlockNumber msg = 0) (m_shardFlag msg) (m_msgHash msg);
            white = (if hook \<and> vmerr = None \<and> evm_hasNr ev \<and> 4 \<le> length data
                        \<and> IsWhiteListCall to (take 4 data)
                     then st_whiteUpdates st2 @ [0] else st_whiteUpdates st2)
        in (st2\<lparr>st_state := s, st_gasRemaining := left, st_whiteUpdates := white\<rparr>, ret, vmerr))"

text \<open>What follows the pre-check, common to both entry points: returned data, required gas, used
  gas and whether the machine failed, or a consensus error.\<close>

definition transition_body ::
  "'s statedb \<Rightarrow> 's evm \<Rightarrow> gas_table \<Rightarrow> bool \<Rightarrow> 's StateTransition
     \<Rightarrow> 's StateTransition \<times> (core_error + bytes \<times> int \<times> int \<times> bool)" where
  "transition_body db ev par hook st0 =
     (let (st, sender) = st_from db st0;
          msg = st_msg st;
          intrinsicGas = IntrinsicGas par (st_data st) (m_to msg = None) (evm_pangu ev)
      in if over_64_bits intrinsicGas then (st, Inl (ErrVm ErrOutOfGas))
         else case (if m_system msg = 0 then useGas st (big_Uint64 intrinsicGas) else Inr st) of
             Inl err \<Rightarrow> (st, Inl err)
           | Inr st \<Rightarrow>
               let (st, ret, vmerr) = run_message db ev hook st sender in
               if vmerr = Some ErrInsufficientBalance then (st, Inl (ErrVm ErrInsufficientBalance))
               else
                 let requiredGas = gasUsed st;
                     st = refundGas db st;
                     st = st\<lparr>st_state :=
                       AddBalance db (st_state st) (evm_coinbase ev) (gasUsed st * st_gasPrice st)\<rparr>
                 in (st, Inr (ret, requiredGas, gasUsed st, vmerr \<noteq> None)))"

definition TransitionDb ::
  "'s statedb \<Rightarrow> 's evm \<Rightarrow> gas_table \<Rightarrow> 's StateTransition
     \<Rightarrow> 's StateTransition \<times> (core_error + bytes \<times> int \<times> int \<times> bool)" where
  "TransitionDb db ev par st =
     (case preCheck db st of
        (st, Some err) \<Rightarrow> (st, Inl err)
      | (st, None) \<Rightarrow> transition_body db ev par True st)"

definition TransitionDbForCalculateGas ::
  "'s statedb \<Rightarrow> 's evm \<Rightarrow> gas_table \<Rightarrow> 's StateTransition
     \<Rightarrow> 's StateTransition \<times> (core_error + bytes \<times> int \<times> int \<times> bool)" where
  "TransitionDbForCalculateGas db ev par st =
     (case buyGas db st of
        (st, Some err) \<Rightarrow> (st, Inl err)
      | (st, None) \<Rightarrow> transition_body db ev par False st)"

text \<open>\<open>ApplyMessage\<close> returns the data, the gas used and the failure flag; the caller keeps the
  gas pool and the state.\<close>

definition ApplyMessage ::
  "'s statedb \<Rightarrow> 's evm \<Rightarrow> gas_table \<Rightarrow> 's \<Rightarrow> message \<Rightarrow> int
     \<Rightarrow> 's StateTransition \<times> (core_error + bytes \<times> int \<times> bool)" where
  "ApplyMessage db ev par s msg gp =
     (case TransitionDb db ev par (NewStateTransition s msg gp) of
        (st, Inl err) \<Rightarrow> (st, Inl err)
      | (st, Inr (ret, _, used, failed)) \<Rightarrow> (st, Inr (ret, used, failed)))"

definition ApplyMessageForCalculateGas ::
  "'s statedb \<Rightarrow> 's evm \<Rightarrow> gas_table \<Rightarrow> 's \<Rightarrow> message \<Rightarrow> int
     \<Rightarrow> 's StateTransition \<times> (core_error + bytes \<times> int \<times> bool)" where
  "ApplyMessageForCalculateGas db ev par s msg gp =
     (case TransitionDbForCalculateGas db ev par (NewStateTransition s msg gp) of
        (st, Inl err) \<Rightarrow> (st, Inl err)
      | (st, Inr (ret, _, used, failed)) \<Rightarrow> (st, Inr (ret, used, failed)))"

section \<open>What the code relies on\<close>

text \<open>The account state answers with the balance and nonce last written; creating an account that
  does not exist leaves every balance and nonce as it was; the refund counter is not negative.\<close>

definition statedb_laws :: "'s statedb \<Rightarrow> bool" where
  "statedb_laws db \<longleftrightarrow>
     (\<forall>s a v b. GetBalance db (AddBalance db s a v) b = GetBalance db s b + (if b = a then v else 0))
   \<and> (\<forall>s a v b. GetBalance db (SubBalance db s a v) b = GetBalance db s b - (if b = a then v else 0))
   \<and> (\<forall>s a n b. GetBalance db (SetNonce db s a n) b = GetBalance db s b)
   \<and> (\<forall>s a n b. GetNonce db (SetNonce db s a n) b = (if b = a then n else GetNonce db s b))
   \<and> (\<forall>s a b. \<not> Exist db s a \<longrightarrow> GetBalance db (CreateAccount db s a) b = GetBalance db s b
                                 \<and> GetNonce db (CreateAccount db s a) b = GetNonce db s b)
   \<and> (\<forall>s. 0 \<le> GetRefund db s)"

text \<open>The sum of all balances.\<close>

definition total :: "'s statedb \<Rightarrow> 's \<Rightarrow> int" where
  "total db s = (\<Sum>a\<in>UNIV. GetBalance db s a)"

text \<open>The virtual machine hands back at most the gas it was given, and moves money without making
  or destroying any.\<close>

definition evm_gas_bounded :: "'s evm \<Rightarrow> bool" where
  "evm_gas_bounded ev \<longleftrightarrow>
     (\<forall>s a d g v f h. fst (snd (snd (evm_Create ev s a d g v f h))) \<le> g)
   \<and> (\<forall>s a t d g v w f h. fst (snd (evm_Call ev s a t d g v w f h)) \<le> g)"

definition evm_conserves :: "'s statedb \<Rightarrow> 's evm \<Rightarrow> bool" where
  "evm_conserves db ev \<longleftrightarrow>
     (\<forall>s a d h. total db (snd (snd (evm_CreateSystemContract ev s a d h))) = total db s)
   \<and> (\<forall>s a d g v f h. total db (snd (snd (snd (snd (evm_Create ev s a d g v f h))))) = total db s)
   \<and> (\<forall>s a t d g v w f h. total db (snd (snd (snd (evm_Call ev s a t d g v w f h)))) = total db s)"

lemma db_simps:
  assumes "statedb_laws db"
  shows "GetBalance db (AddBalance db s a v) b = GetBalance db s b + (if b = a then v else 0)"
    "GetBalance db (SubBalance db s a v) b = GetBalance db s b - (if b = a then v else 0)"
    "GetBalance db (SetNonce db s a n) b = GetBalance db s b"
    "GetNonce db (SetNonce db s a n) b = (if b = a then n else GetNonce db s b)"
    "\<not> Exist db s a \<Longrightarrow> GetBalance db (CreateAccount db s a) b = GetBalance db s b"
    "\<not> Exist db s a \<Longrightarrow> GetNonce db (CreateAccount db s a) b = GetNonce db s b"
    "0 \<le> GetRefund db s"
  using assms by (simp_all add: statedb_laws_def)

lemma total_simps:
  assumes "statedb_laws db"
  shows "total db (AddBalance db s a v) = total db s + v"
    "total db (SubBalance db s a v) = total db s - v"
    "total db (SetNonce db s a n) = total db s"
    "\<not> Exist db s a \<Longrightarrow> total db (CreateAccount db s a) = total db s"
  by (simp_all add: total_def db_simps [OF assms] sum.distrib sum_subtractf)

section \<open>Accounts\<close>

lemma ensure_account_keeps:
  assumes "statedb_laws db"
  shows "GetBalance db (st_state (ensure_account db st a)) b = GetBalance db (st_state st) b"
    "GetNonce db (st_state (ensure_account db st a)) b = GetNonce db (st_state st) b"
    "total db (st_state (ensure_account db st a)) = total db (st_state st)"
  by (simp_all add: ensure_account_def db_simps [OF assms] total_simps [OF assms])

lemma ensure_account_fields [simp]:
  "st_gp (ensure_account db st a) = st_gp st" "st_msg (ensure_account db st a) = st_msg st"
  "st_gasRemaining (ensure_account db st a) = st_gasRemaining st"
  "st_gasPrice (ensure_account db st a) = st_gasPrice st"
  "st_initialGas (ensure_account db st a) = st_initialGas st"
  "st_data (ensure_account db st a) = st_data st" "st_value (ensure_account db st a) = st_value st"
  by (simp_all add: ensure_account_def)

section \<open>Buying and returning gas\<close>

text \<open>After a purchase the remaining gas is the limit, the pool and the sender have paid.\<close>

lemma buyGas_ok:
  assumes "statedb_laws db" "buyGas db st = (st', None)" "st_gasRemaining st = 0"
    "0 \<le> m_gasLimit (st_msg st)"
  shows "uint (st_gasRemaining st') = m_gasLimit (st_msg st)"
    "st_initialGas st' = m_gasLimit (st_msg st)" "st_msg st' = st_msg st"
    "st_gasPrice st' = st_gasPrice st" "st_data st' = st_data st"
    "st_gp st' = st_gp st - m_gasLimit (st_msg st)" "m_gasLimit (st_msg st) \<le> st_gp st"
    "total db (st_state st') = total db (st_state st) - m_gasLimit (st_msg st) * st_gasPrice st"
    "m_gasLimit (st_msg st) < 2 ^ 64"
  using assms
  by (auto simp: buyGas_def st_from_def Let_def over_64_bits_def SubGas_def big_Uint64_of_nat
      total_simps ensure_account_keeps split: if_splits)

lemma buyGas_error:
  assumes "statedb_laws db" "buyGas db st = (st', Some err)"
  shows "st_gp st' = st_gp st \<and> GetBalance db (st_state st') = GetBalance db (st_state st)
    \<and> GetNonce db (st_state st') = GetNonce db (st_state st)"
  using assms
  by (auto simp: buyGas_def st_from_def Let_def SubGas_def ensure_account_keeps fun_eq_iff split: if_splits)

text \<open>A refund never reaches the gas used, so the remaining gas does not wrap and stays below the
  limit when it was below.\<close>

lemma refundGas_ok:
  fixes st :: "'s StateTransition"
  assumes db: "statedb_laws db" and I: "st_initialGas st < 2 ^ 64" "uint (st_gasRemaining st) < st_initialGas st"
  defines "st' \<equiv> refundGas db st"
  shows "uint (st_gasRemaining st) \<le> uint (st_gasRemaining st')
    \<and> uint (st_gasRemaining st') < st_initialGas st
    \<and> 2 * (st_initialGas st - uint (st_gasRemaining st')) \<ge> st_initialGas st - uint (st_gasRemaining st)
    \<and> st_initialGas st' = st_initialGas st \<and> st_gasPrice st' = st_gasPrice st
    \<and> st_gp st' = st_gp st + uint (st_gasRemaining st')
    \<and> total db (st_state st') = total db (st_state st) + uint (st_gasRemaining st') * st_gasPrice st"
proof -
  let ?g = "st_gasRemaining st" and ?I = "st_initialGas st" and ?a = "m_from (st_msg st)"
  let ?s = "AddBalance db (st_state (ensure_account db st ?a)) ?a (uint ?g * st_gasPrice st)"
  define r where "r = min ((?I - uint ?g) div 2) (GetRefund db ?s)"
  have r: "0 \<le> r" "2 * r \<le> ?I - uint ?g" "r < ?I - uint ?g"
    using I(2) db_simps(7) [OF db, of ?s] by (auto simp: r_def)
  have u: "uint (?g + big_Uint64 r) = uint ?g + r"
    using r I by (intro uint_add_big) auto
  have "refundGas db st = (ensure_account db st ?a)
      \<lparr>st_gasRemaining := ?g + big_Uint64 r, st_state := AddBalance db ?s ?a (r * st_gasPrice st),
       st_gp := st_gp st + (uint ?g + r)\<rparr>"
    using r(3) I(2) u by (simp add: refundGas_def st_from_def gasUsed_def Let_def AddGas_def flip: r_def)
  then show ?thesis unfolding st'_def using r u
    by (simp add: total_simps [OF db] ensure_account_keeps [OF db] distrib_right)
qed

text \<open>With nothing used, nothing is returned either.\<close>

lemma refundGas_unused:
  assumes "statedb_laws db" "st_initialGas st = uint (st_gasRemaining st)"
  shows "st_gasRemaining (refundGas db st) = st_gasRemaining st \<and> st_gp (refundGas db st) = st_gp st
    \<and> st_initialGas (refundGas db st) = st_initialGas st \<and> st_gasPrice (refundGas db st) = st_gasPrice st
    \<and> GetBalance db (st_state (refundGas db st)) = GetBalance db (st_state st)"
proof -
  have "min (0 div 2) (GetRefund db s) = 0" for s using db_simps(7) [OF assms(1), of s] by simp
  then show ?thesis using assms(2)
    by (simp add: refundGas_def st_from_def gasUsed_def Let_def big_Uint64_def fun_eq_iff
        db_simps [OF assms(1)] ensure_account_keeps [OF assms(1)])
qed

text \<open>Running a message, by the three ways it can go.\<close>

lemma run_message_cases:
  assumes "run_message db ev hook st sender = (st', ret, vmerr)"
  obtains (system) s where "m_to (st_msg st) = None" "0 < m_system (st_msg st)"
      "evm_CreateSystemContract ev (st_state st) (ucast (ucast (m_system (st_msg st)) :: 8 word))
         (st_data st) (m_msgHash (st_msg st)) = (ret, vmerr, s)"
      "st' = st\<lparr>st_state := s\<rparr>"
  | (create) a left s where "m_to (st_msg st) = None" "m_system (st_msg st) = 0"
      "evm_Create ev (st_state st) sender (st_data st) (st_gasRemaining st) (st_value st)
         (m_shardFlag (st_msg st)) (m_msgHash (st_msg st)) = (ret, a, left, vmerr, s)"
      "st' = st\<lparr>st_state := s, st_gasRemaining := left\<rparr>"
  | (call) st2 to left s wu where "m_to (st_msg st) = Some to"
      "st2 = ensure_account db (st\<lparr>st_state := SetNonce db (st_state st) sender
         (GetNonce db (st_state st) sender + 1)\<rparr>) to"
      "evm_Call ev (st_state st2) sender to (st_data st) (st_gasRemaining st) (st_value st)
         (m_waitBlockNumber (st_msg st) = 0) (m_shardFlag (st_msg st)) (m_msgHash (st_msg st))
         = (ret, left, vmerr, s)"
      "st' = st2\<lparr>st_state := s, st_gasRemaining := left, st_whiteUpdates := wu\<rparr>"
proof (cases "m_to (st_msg st)")
  case None
  then show ?thesis using assms system create
    by (cases "m_system (st_msg st) = 0") (auto simp: run_message_def Let_def word_neq_0_conv split: prod.splits)
next
  case (Some to)
  define st2 where "st2 = ensure_account db (st\<lparr>st_state := SetNonce db (st_state st) sender
    (GetNonce db (st_state st) sender + 1)\<rparr>) to"
  obtain r left v s where e: "evm_Call ev (st_state st2) sender to (st_data st) (st_gasRemaining st)
      (st_value st) (m_waitBlockNumber (st_msg st) = 0) (m_shardFlag (st_msg st))
      (m_msgHash (st_msg st)) = (r, left, v, s)"
    by (metis prod_cases4)
  have "\<exists>wu. st' = st2\<lparr>st_state := s, st_gasRemaining := left, st_whiteUpdates := wu\<rparr> \<and> ret = r \<and> vmerr = v"
    using assms Some e by (auto simp: run_message_def st_to_def Let_def st2_def)
  then show ?thesis using call [OF Some st2_def] e by blast
qed

lemma run_message_fields:
  assumes "run_message db ev hook st sender = (st', ret, vmerr)"
  shows "st_initialGas st' = st_initialGas st" "st_gasPrice st' = st_gasPrice st"
    "st_gp st' = st_gp st" "st_msg st' = st_msg st"
  by (rule run_message_cases [OF assms]; simp)+

lemma run_message_gas:
  assumes "evm_gas_bounded ev" "run_message db ev hook st sender = (st', ret, vmerr)"
  shows "st_gasRemaining st' \<le> st_gasRemaining st"
proof -
  have le: "evm_Create ev s a d g v f h = (r, a', l, e, s1) \<Longrightarrow> l \<le> g"
    "evm_Call ev s a t d g v w f h = (r, l, e, s1) \<Longrightarrow> l \<le> g" for s a t d g v w f h r e s1 a' l
    using assms(1) by (metis evm_gas_bounded_def fst_conv snd_conv)+
  from assms(2) show ?thesis
  proof (cases rule: run_message_cases)
    case (create a left s)
    then show ?thesis using le(1) [OF create(3)] by simp
  next
    case (call st2 to left s wu)
    then show ?thesis using le(2) [OF call(3)] by simp
  qed simp
qed

lemma run_message_total:
  assumes "statedb_laws db" "evm_conserves db ev" "run_message db ev hook st sender = (st', ret, vmerr)"
  shows "total db (st_state st') = total db (st_state st)"
proof -
  have eq: "evm_CreateSystemContract ev s a d h = (r, e, s1) \<Longrightarrow> total db s1 = total db s"
    "evm_Create ev s a d g v f h = (r, a', l, e, s1) \<Longrightarrow> total db s1 = total db s"
    "evm_Call ev s a t d g v w f h = (r, l, e, s1) \<Longrightarrow> total db s1 = total db s"
    for s a t d g v w f h r e s1 a' l
    using assms(2) by (metis evm_conserves_def snd_conv)+
  from assms(3) show ?thesis
  proof (cases rule: run_message_cases)
    case (call st2 to left s wu)
    then show ?thesis using eq(3) [OF call(3)]
      by (simp add: ensure_account_keeps [OF assms(1)] total_simps [OF assms(1)])
  qed (auto dest: eq)
qed

section \<open>The whole transition\<close>

text \<open>A transition that returns went through the intrinsic gas, the machine and the refund.\<close>

lemma transition_body_cases:
  assumes "transition_body db ev par hook st = (st', Inr (ret, req, used, failed))"
  obtains st1 st2 vmerr where
    "run_message db ev hook st1 (m_from (st_msg st)) = (st2, ret, vmerr)"
    "m_system (st_msg st) = 0 \<Longrightarrow> useGas (ensure_account db st (m_from (st_msg st)))
        (big_Uint64 (IntrinsicGas par (st_data st) (m_to (st_msg st) = None) (evm_pangu ev))) = Inr st1"
    "m_system (st_msg st) \<noteq> 0 \<Longrightarrow> st1 = ensure_account db st (m_from (st_msg st))"
    "\<not> over_64_bits (IntrinsicGas par (st_data st) (m_to (st_msg st) = None) (evm_pangu ev))"
    "vmerr \<noteq> Some ErrInsufficientBalance" "failed = (vmerr \<noteq> None)"
    "req = gasUsed st2" "used = gasUsed st'"
    "st' = (refundGas db st2)\<lparr>st_state := AddBalance db (st_state (refundGas db st2)) (evm_coinbase ev)
        (gasUsed (refundGas db st2) * st_gasPrice (refundGas db st2))\<rparr>"
proof -
  let ?st = "ensure_account db st (m_from (st_msg st))"
  let ?g = "IntrinsicGas par (st_data st) (m_to (st_msg st) = None) (evm_pangu ev)"
  have over: "\<not> over_64_bits ?g"
    using assms by (auto simp: transition_body_def st_from_def Let_def split: if_splits)
  obtain st1 where u: "(if m_system (st_msg st) = 0 then useGas ?st (big_Uint64 ?g) else Inr ?st) = Inr st1"
    using assms over by (auto simp: transition_body_def st_from_def Let_def split: sum.splits if_splits)
  obtain st2 r vmerr where run: "run_message db ev hook st1 (m_from (st_msg st)) = (st2, r, vmerr)"
    by (metis prod_cases3)
  have "transition_body db ev par hook st = (if vmerr = Some ErrInsufficientBalance
      then (st2, Inl (ErrVm ErrInsufficientBalance))
      else let st3 = refundGas db st2;
               st4 = st3\<lparr>st_state := AddBalance db (st_state st3) (evm_coinbase ev) (gasUsed st3 * st_gasPrice st3)\<rparr>
           in (st4, Inr (r, gasUsed st2, gasUsed st4, vmerr \<noteq> None)))"
    using over u run
    by (cases "m_system (st_msg st) = 0") (auto simp: transition_body_def st_from_def Let_def)
  with assms have e: "vmerr \<noteq> Some ErrInsufficientBalance" "failed = (vmerr \<noteq> None)" "r = ret"
    "req = gasUsed st2" "used = gasUsed st'"
    "st' = (refundGas db st2)\<lparr>st_state := AddBalance db (st_state (refundGas db st2)) (evm_coinbase ev)
        (gasUsed (refundGas db st2) * st_gasPrice (refundGas db st2))\<rparr>"
    by (auto simp: Let_def split: if_splits)
  show ?thesis
    by (rule that [OF run [unfolded e(3)] _ _ over e(1,2,4,5,6)]) (use u in simp_all)
qed

lemma useGas_ok:
  assumes "useGas st amount = Inr st'"
  shows "st' = st\<lparr>st_gasRemaining := st_gasRemaining st - amount\<rparr>" "amount \<le> st_gasRemaining st"
  using assms by (auto simp: useGas_def not_less split: if_splits)

lemma gasUsed_state [simp]: "gasUsed (st\<lparr>st_state := s\<rparr>) = gasUsed st"
  by (simp add: gasUsed_def)

lemma IntrinsicGas_nonneg: "0 \<le> IntrinsicGas par data create pangu"
proof -
  have "length (filter (\<lambda>b. b \<noteq> 0) data) \<le> length data" by (rule length_filter_le)
  then show ?thesis by (simp add: IntrinsicGas_def Let_def)
qed

lemma IntrinsicGas_ge:
  "(if create \<and> pangu then uint (TxGasContractCreation par) else uint (TxGas par))
     \<le> IntrinsicGas par data create pangu"
proof -
  have "length (filter (\<lambda>b. b \<noteq> 0) data) \<le> length data" by (rule length_filter_le)
  then show ?thesis by (simp add: IntrinsicGas_def Let_def)
qed

text \<open>Gas: what is charged lies between the intrinsic gas, halved at most by refunds, and the
  limit, and the pool gets back the rest.  Money: the fee paid to the coinbase is what the sender
  does not get back.\<close>

lemma transition_body_gas:
  assumes db: "statedb_laws db" and ev: "evm_gas_bounded ev"
    and init: "uint (st_gasRemaining st) = st_initialGas st" "m_system (st_msg st) = 0"
    and pos: "0 < IntrinsicGas par (st_data st) (m_to (st_msg st) = None) (evm_pangu ev)"
    and run: "transition_body db ev par hook st = (st', Inr (ret, req, used, failed))"
  shows "0 < used \<and> used \<le> st_initialGas st
    \<and> IntrinsicGas par (st_data st) (m_to (st_msg st) = None) (evm_pangu ev) \<le> req
    \<and> used \<le> req \<and> req \<le> 2 * used \<and> req \<le> st_initialGas st
    \<and> st_gp st' = st_gp st + (st_initialGas st - used)
    \<and> (evm_conserves db ev \<longrightarrow>
        total db (st_state st') = total db (st_state st) + st_initialGas st * st_gasPrice st)"
proof -
  let ?g = "IntrinsicGas par (st_data st) (m_to (st_msg st) = None) (evm_pangu ev)"
  let ?I = "st_initialGas st"
  obtain st1 st2 vmerr where r: "run_message db ev hook st1 (m_from (st_msg st)) = (st2, ret, vmerr)"
    "useGas (ensure_account db st (m_from (st_msg st))) (big_Uint64 ?g) = Inr st1" "\<not> over_64_bits ?g"
    "req = gasUsed st2" "used = gasUsed st'"
    "st' = (refundGas db st2)\<lparr>st_state := AddBalance db (st_state (refundGas db st2)) (evm_coinbase ev)
        (gasUsed (refundGas db st2) * st_gasPrice (refundGas db st2))\<rparr>"
    using transition_body_cases [OF run] init(2) by metis
  have g: "uint (big_Uint64 ?g) = ?g" using r(3) pos by (simp add: over_64_bits_def big_Uint64_of_nat)
  note u = useGas_ok [OF r(2)]
  have u1: "uint (st_gasRemaining st1) = ?I - ?g" "st_initialGas st1 = ?I"
    using u g init(1) by (simp_all add: uint_sub_if' word_le_def)
  note f = run_message_fields [OF r(1)] and l = run_message_gas [OF ev r(1)]
  have l2: "uint (st_gasRemaining st2) \<le> ?I - ?g" using l u1(1) by (simp add: word_le_def)
  have I: "?I < 2 ^ 64" using init(1) uint_bounded [of "st_gasRemaining st"] by simp
  have st2: "st_initialGas st2 = ?I" "st_gasPrice st2 = st_gasPrice st" "st_gp st2 = st_gp st"
    using f u(1) u1(2) by simp_all
  have lt: "uint (st_gasRemaining st2) < st_initialGas st2" using l2 pos st2(1) by simp
  let ?st3 = "refundGas db st2"
  have rf: "uint (st_gasRemaining st2) \<le> uint (st_gasRemaining ?st3)"
    "uint (st_gasRemaining ?st3) < ?I" "2 * (?I - uint (st_gasRemaining ?st3)) \<ge> ?I - uint (st_gasRemaining st2)"
    "st_initialGas ?st3 = ?I" "st_gasPrice ?st3 = st_gasPrice st"
    "st_gp ?st3 = st_gp st + uint (st_gasRemaining ?st3)"
    "total db (st_state ?st3) = total db (st_state st2) + uint (st_gasRemaining ?st3) * st_gasPrice st"
    using refundGas_ok [OF db _ lt] I st2 by simp_all
  have req: "req = ?I - uint (st_gasRemaining st2)" using r(4) lt st2(1) by (simp add: gasUsed_def)
  have used: "used = ?I - uint (st_gasRemaining ?st3)" using r(5,6) rf(2,4) by (simp add: gasUsed_def)
  have "total db (st_state st') = total db (st_state st) + ?I * st_gasPrice st" if "evm_conserves db ev"
  proof -
    have "total db (st_state st2) = total db (st_state st)"
      using run_message_total [OF db that r(1)] u(1) by (simp add: ensure_account_keeps [OF db])
    moreover have "gasUsed ?st3 = used" using r(5,6) by simp
    moreover have "?I * st_gasPrice st = uint (st_gasRemaining ?st3) * st_gasPrice st + used * st_gasPrice st"
      using used by (simp add: left_diff_distrib)
    ultimately show ?thesis using r(6) rf(5,7) by (simp add: total_simps [OF db])
  qed
  moreover have "st_gp st' = st_gp st + (?I - used)" using r(6) rf(6) used by simp
  ultimately show ?thesis using req used rf(1,2,3) l2 pos uint_ge_0 [of "st_gasRemaining st2"]
      uint_ge_0 [of "st_gasRemaining ?st3"] by auto
qed

lemma NewStateTransition_fields [simp]:
  "st_msg (NewStateTransition s msg gp) = msg" "st_gasRemaining (NewStateTransition s msg gp) = 0"
  "st_gasPrice (NewStateTransition s msg gp) = m_gasPrice msg"
  "st_data (NewStateTransition s msg gp) = m_data msg" "st_gp (NewStateTransition s msg gp) = gp"
  "st_state (NewStateTransition s msg gp) = s"
  by (simp_all add: NewStateTransition_def)

text \<open>Entering a transition: the nonce check and the purchase.\<close>

lemma preCheck_ok:
  assumes "statedb_laws db" "preCheck db (NewStateTransition s msg gp) = (st, None)" "0 \<le> m_gasLimit msg"
  shows "uint (st_gasRemaining st) = m_gasLimit msg" "st_initialGas st = m_gasLimit msg"
    "st_msg st = msg" "st_gasPrice st = m_gasPrice msg" "st_data st = m_data msg"
    "st_gp st = gp - m_gasLimit msg" "m_gasLimit msg \<le> gp"
    "total db (st_state st) = total db s - m_gasLimit msg * m_gasPrice msg"
    "m_checkNonce msg \<longrightarrow> GetNonce db s (m_from msg) = m_nonce msg"
proof -
  let ?st0 = "ensure_account db (NewStateTransition s msg gp) (m_from msg)"
  have b: "buyGas db ?st0 = (st, None)"
    and n: "m_checkNonce msg \<longrightarrow> GetNonce db s (m_from msg) = m_nonce msg"
    using assms(2) ensure_account_keeps(2) [OF assms(1), of "NewStateTransition s msg gp" "m_from msg"]
    by (auto simp: preCheck_def st_from_def Let_def split: if_splits)
  have t: "total db (st_state ?st0) = total db s" by (simp add: ensure_account_keeps(3) [OF assms(1)])
  show "uint (st_gasRemaining st) = m_gasLimit msg" "st_initialGas st = m_gasLimit msg"
    "st_msg st = msg" "st_gasPrice st = m_gasPrice msg" "st_data st = m_data msg"
    "st_gp st = gp - m_gasLimit msg" "m_gasLimit msg \<le> gp"
    "total db (st_state st) = total db s - m_gasLimit msg * m_gasPrice msg"
    using buyGas_ok [OF assms(1) b] assms(3) by (simp_all add: t)
  show "m_checkNonce msg \<longrightarrow> GetNonce db s (m_from msg) = m_nonce msg" by (rule n)
qed

lemma preCheck_error:
  assumes "statedb_laws db" "preCheck db st = (st', Some err)"
  shows "st_gp st' = st_gp st \<and> GetBalance db (st_state st') = GetBalance db (st_state st)
    \<and> GetNonce db (st_state st') = GetNonce db (st_state st)"
proof -
  let ?st = "ensure_account db st (m_from (st_msg st))"
  consider "st' = ?st" | "buyGas db ?st = (st', Some err)"
    using assms(2) by (auto simp: preCheck_def st_from_def Let_def split: if_splits)
  then show ?thesis using buyGas_error [OF assms(1)]
    by cases (auto simp: ensure_account_keeps [OF assms(1)] fun_eq_iff)
qed

text \<open>A concrete account state, a finite map of balances with one nonce, and a machine that moves
  the value of a call and uses no gas.\<close>

definition ledger :: "((address \<times> int) list \<times> (address \<times> u64) list) statedb" where
  "ledger = \<lparr>
     GetBalance = (\<lambda>s a. case map_of (fst s) a of None \<Rightarrow> 0 | Some v \<Rightarrow> v),
     SubBalance = (\<lambda>s a v. (AList.update a ((case map_of (fst s) a of None \<Rightarrow> 0 | Some v \<Rightarrow> v) - v) (fst s), snd s)),
     AddBalance = (\<lambda>s a v. (AList.update a ((case map_of (fst s) a of None \<Rightarrow> 0 | Some v \<Rightarrow> v) + v) (fst s), snd s)),
     GetNonce = (\<lambda>s a. case map_of (snd s) a of None \<Rightarrow> 0 | Some v \<Rightarrow> v),
     SetNonce = (\<lambda>s a n. (fst s, AList.update a n (snd s))),
     Exist = (\<lambda>s a. True), CreateAccount = (\<lambda>s a. s), GetRefund = (\<lambda>s. 0)\<rparr>"

definition transfer_evm :: "((address \<times> int) list \<times> (address \<times> u64) list) evm" where
  "transfer_evm = \<lparr>evm_pangu = True, evm_coinbase = 0xc0, evm_hasNr = False,
     evm_CreateSystemContract = (\<lambda>s a d h. ([], None, s)),
     evm_Create = (\<lambda>s a d g v f h. ([], 0, g, None, s)),
     evm_Call = (\<lambda>s a t d g v w f h.
       ([], g, None, AddBalance ledger (SubBalance ledger s a v) t v))\<rparr>"

definition sample_gas :: gas_table where
  "sample_gas = \<lparr>TxGas = 1000, TxGasContractCreation = 1000, TxDataZeroGas = 4, TxDataNonZeroGas = 68\<rparr>"

definition sample_msg :: "u64 \<Rightarrow> message" where
  "sample_msg sys = \<lparr>m_from = 1, m_to = Some 2, m_gasPrice = 3, m_gasLimit = 5000, m_value = 7, m_nonce = 0,
     m_checkNonce = True, m_data = [1, 0], m_system = sys, m_waitBlockNumber = 0, m_shardFlag = 0, m_msgHash = None\<rparr>"

lemma ledger_laws: "statedb_laws ledger"
  by (simp add: statedb_laws_def ledger_def alist_simps)

lemma transfer_evm_laws: "evm_gas_bounded transfer_evm" "evm_conserves ledger transfer_evm"
  by (simp_all add: evm_gas_bounded_def evm_conserves_def transfer_evm_def total_simps [OF ledger_laws])

lemma TransitionDb_Inr:
  assumes "TransitionDb db ev par st0 = (st', Inr r)"
  obtains st where "preCheck db st0 = (st, None)" "transition_body db ev par True st = (st', Inr r)"
  using assms by (auto simp: TransitionDb_def split: prod.splits option.splits)

text \<open>The gas facts of a whole transition, for its clients.\<close>

lemma transition_gas_facts:
  assumes "statedb_laws db" "evm_gas_bounded ev" "m_system msg = 0" "0 \<le> m_gasLimit msg"
    "0 < TxGas par" "0 < TxGasContractCreation par"
    "TransitionDb db ev par (NewStateTransition s msg gp) = (st', Inr (ret, req, used, failed))"
  shows "0 < used \<and> used \<le> req \<and> req \<le> 2 * used \<and> req \<le> m_gasLimit msg
    \<and> IntrinsicGas par (m_data msg) (m_to msg = None) (evm_pangu ev) \<le> req
    \<and> st_gp st' = gp - used \<and> used \<le> gp
    \<and> (evm_conserves db ev \<longrightarrow> total db (st_state st') = total db s)"
proof -
  obtain st where st: "preCheck db (NewStateTransition s msg gp) = (st, None)"
    "transition_body db ev par True st = (st', Inr (ret, req, used, failed))"
    using TransitionDb_Inr [OF assms(7)] by blast
  note p = preCheck_ok [OF assms(1) st(1) assms(4)]
  have "0 < IntrinsicGas par (m_data msg) (m_to msg = None) (evm_pangu ev)"
    using IntrinsicGas_ge [of "m_to msg = None" "evm_pangu ev" par "m_data msg"] assms(5,6)
    by (auto simp: word_less_def split: if_splits)
  then show ?thesis using transition_body_gas [OF assms(1,2) _ _ _ st(2)] assms(3) p by simp
qed

section \<open>What a transition guarantees\<close>

text \<open>(C3) An applied message that is not a system message uses at least its intrinsic gas before
  refunds and never more than its limit; refunds give back at most half; the block's gas pool
  goes down by exactly the gas used.\<close>

theorem transition_gas_accounting:
  assumes "statedb_laws db" "evm_gas_bounded ev" "m_system msg = 0" "0 \<le> m_gasLimit msg"
    "0 < TxGas par" "0 < TxGasContractCreation par"
    "TransitionDb db ev par (NewStateTransition s msg gp) = (st', Inr (ret, req, used, failed))"
  shows "0 < used \<and> used \<le> req \<and> req \<le> 2 * used \<and> req \<le> m_gasLimit msg
    \<and> IntrinsicGas par (m_data msg) (m_to msg = None) (evm_pangu ev) \<le> req
    \<and> st_gp st' = gp - used \<and> used \<le> gp"
  using transition_gas_facts [OF assms] by blast

definition sample_run where
  "sample_run sys = TransitionDb ledger transfer_evm sample_gas
     (NewStateTransition ([(1, 100000)], []) (sample_msg sys) 9000)"

lemma sample_run_result: "sample_run 0 = (fst (sample_run 0), Inr ([], 1072, 1072, False))"
  "sample_run 1 = (fst (sample_run 1), Inr ([], 0, 0, False))"
proof -
  have "snd (sample_run 0) = Inr ([], 1072, 1072, False)" "snd (sample_run 1) = Inr ([], 0, 0, False)"
    by code_simp+
  then show "sample_run 0 = (fst (sample_run 0), Inr ([], 1072, 1072, False))"
    "sample_run 1 = (fst (sample_run 1), Inr ([], 0, 0, False))"
    by (metis prod.collapse)+
qed

lemmas sample_TransitionDb = sample_run_result [unfolded sample_run_def]

theorem transition_gas_accounting_witness: "st_gp (fst (sample_run 0)) = 9000 - 1072"
  using transition_gas_accounting [OF ledger_laws transfer_evm_laws(1) _ _ _ _ sample_TransitionDb(1)]
  by (simp add: sample_msg_def sample_gas_def sample_run_def)

text \<open>(C10) An applied message that is not a system message leaves the sum of all balances as it
  was: what the sender pays for gas and does not get back goes to the coinbase.\<close>

theorem transition_conserves_total:
  assumes "statedb_laws db" "evm_gas_bounded ev" "evm_conserves db ev" "m_system msg = 0"
    "0 \<le> m_gasLimit msg" "0 < TxGas par" "0 < TxGasContractCreation par"
    "TransitionDb db ev par (NewStateTransition s msg gp) = (st', Inr (ret, req, used, failed))"
  shows "total db (st_state st') = total db s"
  using transition_gas_facts [OF assms(1,2,4-8)] assms(3) by blast

theorem transition_conserves_total_witness:
  "total ledger (st_state (fst (sample_run 0))) = total ledger ([(1, 100000)], [])"
  using transition_conserves_total [OF ledger_laws transfer_evm_laws _ _ _ _ sample_TransitionDb(1)]
  by (simp add: sample_msg_def sample_gas_def sample_run_def)



text \<open>(C34) A system message that uses no gas is charged its whole limit all the same: the purchase
  is taken from the sender and from the block's gas pool, nothing is returned, and the coinbase
  gets nothing, so the money is gone.\<close>

theorem unused_gas_is_lost:
  assumes "statedb_laws db" "evm_gas_bounded ev" "evm_conserves db ev" "m_system msg \<noteq> 0"
    "0 \<le> m_gasLimit msg"
    "TransitionDb db ev par (NewStateTransition s msg gp) = (st', Inr (ret, req, 0, failed))"
  shows "total db (st_state st') = total db s - m_gasLimit msg * m_gasPrice msg
    \<and> st_gp st' = gp - m_gasLimit msg"
proof -
  obtain st where st: "preCheck db (NewStateTransition s msg gp) = (st, None)"
    "transition_body db ev par True st = (st', Inr (ret, req, 0, failed))"
    using TransitionDb_Inr [OF assms(6)] by blast
  note p = preCheck_ok [OF assms(1) st(1) assms(5)]
  obtain st1 st2 vmerr where r: "run_message db ev True st1 (m_from msg) = (st2, ret, vmerr)"
    "st1 = ensure_account db st (m_from msg)" "0 = gasUsed st'"
    "st' = (refundGas db st2)\<lparr>st_state := AddBalance db (st_state (refundGas db st2)) (evm_coinbase ev)
        (gasUsed (refundGas db st2) * st_gasPrice (refundGas db st2))\<rparr>"
    using transition_body_cases [OF st(2)] assms(4) p(3) by metis
  note f = run_message_fields [OF r(1)] and l = run_message_gas [OF assms(2) r(1)]
  have I: "st_initialGas st2 = m_gasLimit msg" "uint (st_gasRemaining st2) \<le> m_gasLimit msg"
    "m_gasLimit msg < 2 ^ 64"
    using f(1) l r(2) p(1,2) uint_bounded [of "st_gasRemaining st"] by (simp_all add: word_le_def)
  have z: "gasUsed (refundGas db st2) = 0" using r(3,4) by simp
  have "\<not> uint (st_gasRemaining st2) < st_initialGas st2"
  proof
    assume "uint (st_gasRemaining st2) < st_initialGas st2"
    from refundGas_ok [OF assms(1) _ this] I(1,3) z show False by (simp add: gasUsed_def)
  qed
  then have "st_initialGas st2 = uint (st_gasRemaining st2)" using I by simp
  note u = refundGas_unused [OF assms(1) this]
  have "total db (st_state (refundGas db st2)) = total db (st_state st2)"
    using u by (simp add: total_def)
  then show ?thesis
    using r(4) z u f(3) p(6,8) r(2) run_message_total [OF assms(1,3) r(1)]
    by (simp add: total_simps [OF assms(1)] ensure_account_keeps [OF assms(1)])
qed

theorem unused_gas_is_lost_witness:
  "total ledger (st_state (fst (sample_run 1))) = total ledger ([(1, 100000)], []) - 15000"
  using unused_gas_is_lost [OF ledger_laws transfer_evm_laws _ _ sample_TransitionDb(2)]
  by (simp add: sample_msg_def sample_run_def)

end
