(* ===== verification/State_Processor.thy ===== *)
theory State_Processor
  imports State_Transition
begin

text \<open>
  \<open>core/state_processor.go\<close> and \<open>core/block_validator.go\<close>: running the transactions of a
  block against one gas pool, checking a block's body and the state it leads to, and the
  miner's choice of the next gas limit.  What these take from \<open>MoacLib\<close> (turning a
  transaction into a message, hashing lists, receipts' blooms, the state's flags and logs) is
  the record \<open>proc_env\<close>; the consensus engine's \<open>Finalize\<close> and \<open>VerifyUncles\<close> are arguments.
\<close>

section \<open>Blocks and receipts\<close>

record block =
  b_header :: header
  b_txs :: "tx list"
  b_uncles :: "header list"

record 'l receipt =
  r_failed :: bool
  r_cumulativeGasUsed :: int
  r_txHash :: hash
  r_gasUsed :: int
  r_contractAddress :: address
  r_logs :: "'l list"
  r_bloom :: nat

record ('s, 'l) proc_env =
  AsMessage :: "tx \<Rightarrow> message \<times> bool"
  GetFlag :: "'s \<Rightarrow> address \<Rightarrow> u64"
  SetFlag :: "'s \<Rightarrow> address \<Rightarrow> u64 \<Rightarrow> 's"
  Prepare :: "'s \<Rightarrow> hash \<Rightarrow> hash \<Rightarrow> nat \<Rightarrow> 's"
  Finalise :: "'s \<Rightarrow> bool \<Rightarrow> 's"
  GetLogs :: "'s \<Rightarrow> hash \<Rightarrow> 'l list"
  CreateBloom :: "'l receipt list \<Rightarrow> nat"
  CreateAddress :: "address \<Rightarrow> u64 \<Rightarrow> address"
  NewEVM :: "message \<Rightarrow> header \<Rightarrow> 's evm"

section \<open>Applying transactions\<close>

text \<open>The message carries the sharding flag of the account it calls, or zero for a creation.\<close>

definition flagged_message :: "('s, 'l) proc_env \<Rightarrow> 's \<Rightarrow> message \<Rightarrow> message" where
  "flagged_message env s msg = (case m_to msg of
       Some to \<Rightarrow> msg\<lparr>m_shardFlag := GetFlag env s to\<rparr>
     | None \<Rightarrow> msg\<lparr>m_shardFlag := 0\<rparr>)"

text \<open>What follows the message's execution: finalise the state, add up the gas, build the receipt.
  \<open>NewReceipt\<close> stores a copy of the gas used so far.\<close>

definition make_receipt ::
  "('s, 'l) proc_env \<Rightarrow> tx \<Rightarrow> message \<Rightarrow> 's \<Rightarrow> bool \<Rightarrow> int \<Rightarrow> int \<Rightarrow> 'l receipt \<times> 's" where
  "make_receipt env t msg s failed gas usedGas =
     (let s = Finalise env s True;
          (addr, s) = (case m_to msg of
               None \<Rightarrow> (let a = CreateAddress env (m_from msg) (tx_nonce t) in (a, SetFlag env s a 0))
             | Some to \<Rightarrow> (to, s));
          receipt = \<lparr>r_failed = failed, r_cumulativeGasUsed = usedGas, r_txHash = tx_hash t,
                     r_gasUsed = gas, r_contractAddress = addr, r_logs = GetLogs env s (tx_hash t),
                     r_bloom = 0\<rparr>
      in (receipt\<lparr>r_bloom := CreateBloom env [receipt]\<rparr>, s))"

definition ApplyTransaction ::
  "'s statedb \<Rightarrow> gas_table \<Rightarrow> ('s, 'l) proc_env \<Rightarrow> header \<Rightarrow> int \<Rightarrow> 's \<Rightarrow> tx \<Rightarrow> int
     \<Rightarrow> core_error + 'l receipt \<times> int \<times> int \<times> int \<times> 's" where
  "ApplyTransaction db par env header gp s t usedGas =
     (let (msg0, err) = AsMessage env t; msg = flagged_message env s msg0 in
      if err then Inl ErrAsMessage
      else case ApplyMessage db (NewEVM env msg header) par s msg gp of
          (st, Inl e) \<Rightarrow> Inl e
        | (st, Inr (_, gas, failed)) \<Rightarrow>
            let (receipt, s') = make_receipt env t msg (st_state st) failed gas (usedGas + gas)
            in Inr (receipt, gas, usedGas + gas, st_gp st, s'))"

definition ApplyTransactionForCalculateGas ::
  "'s statedb \<Rightarrow> gas_table \<Rightarrow> ('s, 'l) proc_env \<Rightarrow> header \<Rightarrow> int \<Rightarrow> 's \<Rightarrow> tx \<Rightarrow> int
     \<Rightarrow> core_error + 'l receipt \<times> int \<times> int \<times> int \<times> 's" where
  "ApplyTransactionForCalculateGas db par env header gp s t usedGas =
     (let (msg0, err) = AsMessage env t; msg = flagged_message env s msg0 in
      if err then Inl ErrAsMessage
      else case ApplyMessageForCalculateGas db (NewEVM env msg header) par s msg gp of
          (st, Inl e) \<Rightarrow> Inl e
        | (st, Inr (_, gas, failed)) \<Rightarrow>
            let (receipt, s') = make_receipt env t msg (st_state st) failed gas (usedGas + gas)
            in Inr (receipt, gas, usedGas + gas, st_gp st, s'))"

text \<open>The loop of \<open>Process\<close>, with the position of the next transaction.\<close>

fun process_loop ::
  "'s statedb \<Rightarrow> gas_table \<Rightarrow> ('s, 'l) proc_env \<Rightarrow> header \<Rightarrow> nat \<Rightarrow> tx list \<Rightarrow> int \<Rightarrow> 's \<Rightarrow> int \<Rightarrow> 'l receipt list
     \<Rightarrow> core_error + 'l receipt list \<times> int \<times> int \<times> 's" where
  "process_loop db par env header i [] gp s usedGas receipts = Inr (receipts, usedGas, gp, s)"
| "process_loop db par env header i (t # ts) gp s usedGas receipts =
     (case ApplyTransaction db par env header gp (Prepare env s (tx_hash t) (h_hash header) i) t usedGas of
        Inl e \<Rightarrow> Inl e
      | Inr (receipt, _, usedGas', gp', s') \<Rightarrow>
          process_loop db par env header (Suc i) ts gp' s' usedGas' (receipts @ [receipt]))"

definition Process ::
  "'s statedb \<Rightarrow> gas_table \<Rightarrow> ('s, 'l) proc_env \<Rightarrow> (header \<Rightarrow> 's \<Rightarrow> tx list \<Rightarrow> header list \<Rightarrow> 'l receipt list \<Rightarrow> 's)
     \<Rightarrow> block \<Rightarrow> 's \<Rightarrow> core_error + 'l receipt list \<times> 'l list \<times> int \<times> 's" where
  "Process db par env finalize block s =
     (case process_loop db par env (b_header block) 0 (b_txs block) (AddGas 0 (h_gasLimit (b_header block))) s 0 [] of
        Inl e \<Rightarrow> Inl e
      | Inr (receipts, totalUsedGas, gp, s') \<Rightarrow>
          Inr (receipts, concat (map r_logs receipts), totalUsedGas,
               finalize (b_header block) s' (b_txs block) (b_uncles block) receipts))"

section \<open>Validation\<close>

datatype 'e block_error =
    ErrKnownBlock | ErrUnknownAncestorBody | ErrUncles 'e
  | ErrUncleHash hash hash | ErrTxHash hash hash
  | ErrGasUsed int int | ErrBloom nat nat | ErrReceiptHash hash hash | ErrMerkleRoot hash hash

definition ValidateBody ::
  "(hash \<Rightarrow> bool) \<Rightarrow> (block \<Rightarrow> 'e option) \<Rightarrow> (header list \<Rightarrow> hash) \<Rightarrow> (tx list \<Rightarrow> hash) \<Rightarrow> block \<Rightarrow> 'e block_error option" where
  "ValidateBody HasBlockAndState VerifyUncles CalcUncleHash DeriveSha block =
     (let header = b_header block in
      if HasBlockAndState (h_hash header) then Some ErrKnownBlock
      else if \<not> HasBlockAndState (h_parentHash header) then Some ErrUnknownAncestorBody
      else case VerifyUncles block of
          Some err \<Rightarrow> Some (ErrUncles err)
        | None \<Rightarrow>
            if CalcUncleHash (b_uncles block) \<noteq> h_uncleHash header
            then Some (ErrUncleHash (CalcUncleHash (b_uncles block)) (h_uncleHash header))
            else if DeriveSha (b_txs block) \<noteq> h_txHash header
            then Some (ErrTxHash (DeriveSha (b_txs block)) (h_txHash header))
            else None)"

definition ValidateState ::
  "('l receipt list \<Rightarrow> nat) \<Rightarrow> ('l receipt list \<Rightarrow> hash) \<Rightarrow> ('s \<Rightarrow> hash) \<Rightarrow> block \<Rightarrow> 's \<Rightarrow> 'l receipt list \<Rightarrow> int
     \<Rightarrow> 'e block_error option" where
  "ValidateState createBloom deriveSha intermediateRoot block s receipts usedGas =
     (let header = b_header block in
      if h_gasUsed header \<noteq> usedGas then Some (ErrGasUsed (h_gasUsed header) usedGas)
      else if createBloom receipts \<noteq> h_bloom header then Some (ErrBloom (h_bloom header) (createBloom receipts))
      else if deriveSha receipts \<noteq> h_receiptHash header
      then Some (ErrReceiptHash (h_receiptHash header) (deriveSha receipts))
      else if h_root header \<noteq> intermediateRoot s then Some (ErrMerkleRoot (h_root header) (intermediateRoot s))
      else None)"

section \<open>The gas limit of the next block\<close>

record gas_limits =
  GasLimitBoundDivisor :: int
  MinGasLimit :: int
  TargetGasLimit :: int

definition CalcGasLimit :: "gas_limits \<Rightarrow> header \<Rightarrow> int" where
  "CalcGasLimit par parent =
     (let contrib = h_gasUsed parent * 3 div 2 div GasLimitBoundDivisor par;
          decay = h_gasLimit parent div GasLimitBoundDivisor par - 1;
          gl = max (h_gasLimit parent - decay + contrib) (MinGasLimit par)
      in if gl < TargetGasLimit par
         then min (h_gasLimit parent + decay) (TargetGasLimit par)
         else gl)"

text \<open>The miner's choice stays within the step a header may take from its parent: strictly less
  than a divisor-th of the parent's limit, and not below the minimum.\<close>

lemma div_three_halves:
  assumes "(0 :: int) < D" "0 \<le> u" "u \<le> P" "5 \<le> P div D"
  shows "u * 3 div 2 div D \<le> 2 * (P div D) - 2"
proof -
  let ?q = "P div D"
  have "P = D * ?q + P mod D" by simp
  moreover have "P mod D < D" using assms(1) by simp
  ultimately have "P < D * (?q + 1)" unfolding distrib_left by linarith
  then have "u * 3 < 3 * (D * (?q + 1))" using assms(3) by simp
  also have "\<dots> \<le> 2 * (D * (2 * ?q - 1))"
    using mult_left_mono [of 5 ?q D] assms(1,4) by (simp add: algebra_simps)
  finally have lt: "u * 3 div 2 < D * (2 * ?q - 1)" by simp
  have "D * (u * 3 div 2 div D) \<le> u * 3 div 2"
    using assms(1) by (metis div_mult_mod_eq le_add_same_cancel1 mult.commute pos_mod_sign)
  with lt have "D * (u * 3 div 2 div D) < D * (2 * ?q - 1)" by linarith
  then show ?thesis using assms(1) by (simp add: mult_less_cancel_left)
qed

lemma CalcGasLimit_bounds:
  assumes "0 < GasLimitBoundDivisor par" "MinGasLimit par \<le> h_gasLimit parent"
    "0 \<le> h_gasUsed parent" "h_gasUsed parent \<le> h_gasLimit parent"
    "5 \<le> h_gasLimit parent div GasLimitBoundDivisor par"
  shows "\<bar>h_gasLimit parent - CalcGasLimit par parent\<bar> < h_gasLimit parent div GasLimitBoundDivisor par
    \<and> MinGasLimit par \<le> CalcGasLimit par parent"
proof -
  define q where "q = h_gasLimit parent div GasLimitBoundDivisor par"
  define c where "c = h_gasUsed parent * 3 div 2 div GasLimitBoundDivisor par"
  have "c \<le> 2 * q - 2" unfolding c_def q_def using assms by (intro div_three_halves)
  moreover have "0 \<le> c" unfolding c_def using assms(1,3) by (simp add: pos_imp_zdiv_nonneg_iff)
  ultimately show ?thesis using assms(2,5)
    by (auto simp: CalcGasLimit_def Let_def max_def min_def simp flip: q_def c_def)
qed

section \<open>Gas of a block\<close>

lemma flagged_message_fields [simp]:
  "m_system (flagged_message env s msg) = m_system msg"
  "m_gasLimit (flagged_message env s msg) = m_gasLimit msg"
  "m_gasPrice (flagged_message env s msg) = m_gasPrice msg"
  by (simp_all add: flagged_message_def split: option.splits)

lemma make_receipt_gas:
  assumes "make_receipt env t msg s failed gas used = (r, s')"
  shows "r_gasUsed r = gas \<and> r_cumulativeGasUsed r = used \<and> r_txHash r = tx_hash t \<and> r_failed r = failed"
  using assms by (auto simp: make_receipt_def Let_def split: prod.splits)

text \<open>What a block's transactions must satisfy: they are not system messages and carry a
  non-negative gas limit.\<close>

definition plain_txs :: "('s, 'l) proc_env \<Rightarrow> tx list \<Rightarrow> bool" where
  "plain_txs env ts \<longleftrightarrow> (\<forall>t\<in>set ts. m_system (fst (AsMessage env t)) = 0 \<and> 0 \<le> m_gasLimit (fst (AsMessage env t)))"

lemma ApplyTransaction_gas:
  assumes "statedb_laws db" "\<And>msg. evm_gas_bounded (NewEVM env msg header)" "0 < TxGas par"
    "0 < TxGasContractCreation par" "plain_txs env [t]"
    "ApplyTransaction db par env header gp s t used = Inr (r, gas, used', gp', s')"
  shows "0 < gas \<and> gas \<le> gp \<and> gp' = gp - gas \<and> used' = used + gas \<and> r_gasUsed r = gas
    \<and> r_cumulativeGasUsed r = used' \<and> r_txHash r = tx_hash t"
proof -
  obtain msg0 where m0: "AsMessage env t = (msg0, False)"
    using assms(6) by (auto simp: ApplyTransaction_def Let_def split: prod.splits if_splits)
  define msg where "msg = flagged_message env s msg0"
  define ev where "ev = NewEVM env msg header"
  obtain st ret req failed where a: "TransitionDb db ev par (NewStateTransition s msg gp)
      = (st, Inr (ret, req, gas, failed))"
    and m: "make_receipt env t msg (st_state st) failed gas (used + gas) = (r, s')"
    and eq: "used' = used + gas" "gp' = st_gp st"
    using assms(6) m0
    by (auto simp: ApplyTransaction_def ApplyMessage_def Let_def msg_def ev_def
        split: prod.splits sum.splits)
  have "m_system msg = 0" "0 \<le> m_gasLimit msg" using assms(5) m0 by (simp_all add: msg_def plain_txs_def)
  from transition_gas_facts [OF assms(1) _ this assms(3,4) a] assms(2) make_receipt_gas [OF m] eq
  show ?thesis by (auto simp: ev_def)
qed

text \<open>The loop keeps the gas it charged and the gas left in the pool in balance, and every receipt
  records a larger sum than the one before.\<close>

lemma process_loop_gas:
  assumes "statedb_laws db" "\<And>msg. evm_gas_bounded (NewEVM env msg header)" "0 < TxGas par"
    "0 < TxGasContractCreation par" "plain_txs env ts"
    "process_loop db par env header i ts gp s used rs = Inr (rs', used', gp', s')"
    "used = sum_list (map r_gasUsed rs)" "sorted_wrt (<) (map r_cumulativeGasUsed rs)"
    "\<forall>r\<in>set rs. r_cumulativeGasUsed r \<le> used" "0 \<le> gp"
  shows "used' = sum_list (map r_gasUsed rs') \<and> used' + gp' = used + gp \<and> 0 \<le> gp'
    \<and> sorted_wrt (<) (map r_cumulativeGasUsed rs') \<and> (\<forall>r\<in>set rs'. r_cumulativeGasUsed r \<le> used')
    \<and> map r_txHash rs' = map r_txHash rs @ map tx_hash ts"
  using assms
proof (induction ts arbitrary: i gp s used rs)
  case (Cons t ts)
  obtain r gas u1 gp1 s1 where a: "ApplyTransaction db par env header gp
      (Prepare env s (tx_hash t) (h_hash header) i) t used = Inr (r, gas, u1, gp1, s1)"
    and l: "process_loop db par env header (Suc i) ts gp1 s1 u1 (rs @ [r]) = Inr (rs', used', gp', s')"
    using Cons.prems(6) by (auto split: sum.splits)
  have pl: "plain_txs env [t]" "plain_txs env ts" using Cons.prems(5) by (simp_all add: plain_txs_def)
  note g = ApplyTransaction_gas [OF assms(1) Cons.prems(2,3,4) pl(1) a]
  have "sorted_wrt (<) (map r_cumulativeGasUsed (rs @ [r]))"
    using Cons.prems(8,9) g by (auto simp: sorted_wrt_append)
  moreover have "\<forall>x\<in>set (rs @ [r]). r_cumulativeGasUsed x \<le> u1" using Cons.prems(9) g by auto
  moreover have "u1 = sum_list (map r_gasUsed (rs @ [r]))" "0 \<le> gp1" using Cons.prems(7) g by simp_all
  ultimately show ?case using Cons.IH [OF assms(1) Cons.prems(2,3,4) pl(2) l] g by auto
qed simp


text \<open>A block of two transfers.\<close>

definition sample_env :: "((address \<times> int) list \<times> (address \<times> u64) list, nat) proc_env" where
  "sample_env = \<lparr>
     AsMessage = (\<lambda>t. (\<lparr>m_from = 1, m_to = Some 2, m_gasPrice = tx_gasPrice t, m_gasLimit = tx_gasLimit t,
        m_value = tx_value t, m_nonce = tx_nonce t, m_checkNonce = True, m_data = [], m_system = 0,
        m_waitBlockNumber = 0, m_shardFlag = 0, m_msgHash = None\<rparr>, False)),
     GetFlag = (\<lambda>s a. 0), SetFlag = (\<lambda>s a f. s), Prepare = (\<lambda>s h b i. s), Finalise = (\<lambda>s d. s),
     GetLogs = (\<lambda>s h. []), CreateBloom = (\<lambda>rs. 0), CreateAddress = (\<lambda>a n. 0),
     NewEVM = (\<lambda>m h. transfer_evm)\<rparr>"

definition sample_header :: header where
  "sample_header = \<lparr>h_hash = 11, h_parentHash = 10, h_uncleHash = 0, h_coinbase = 0xc0, h_root = 0,
     h_txHash = 0, h_receiptHash = 0, h_bloom = 0, h_difficulty = 1, h_number = 5, h_gasLimit = 60000,
     h_gasUsed = 2000, h_time = 100, h_extra = [], h_mixDigest = 0, h_nonce = []\<rparr>"

definition sample_block :: block where
  "sample_block = \<lparr>b_header = sample_header, b_txs = [sample_tx 1 1 0 1 0, sample_tx 2 1 1 1 0], b_uncles = []\<rparr>"


text \<open>A block's body is accepted exactly when the block is new, its parent is known, the
  engine accepts its uncles, and both lists hash to what the header says; its state exactly when
  gas, bloom, receipt root and state root agree.\<close>

theorem block_validation_exact:
  "(ValidateBody has uncles uncleHash sha block = None \<longleftrightarrow>
      \<not> has (h_hash (b_header block)) \<and> has (h_parentHash (b_header block)) \<and> uncles block = None
      \<and> uncleHash (b_uncles block) = h_uncleHash (b_header block)
      \<and> sha (b_txs block) = h_txHash (b_header block))
   \<and> (ValidateState bloom rsha root block s receipts used = None \<longleftrightarrow>
      used = h_gasUsed (b_header block) \<and> bloom receipts = h_bloom (b_header block)
      \<and> rsha receipts = h_receiptHash (b_header block) \<and> root s = h_root (b_header block))"
  by (auto simp: ValidateBody_def ValidateState_def Let_def split: option.splits)

end
