(* ===== verification/Go_Heap.thy ===== *)
theory Go_Heap
  imports XC_Prelude
begin

text \<open>
  The binary heap of Go's \<open>container/heap\<close>, on which \<open>nonceHeap\<close> and \<open>priceHeap\<close> of
  \<open>core/tx_list.go\<close> are built.  A heap is the slice itself; \<open>lt\<close> is the \<open>Less\<close> method
  of \<open>heap.Interface\<close>, comparing the elements at two indices.  The operations are the
  sift loops of the package, one recursion per loop.  The locale \<open>go_heap\<close> states what
  the clients provide (a \<open>Less\<close> that compares keys of a linear order) and derives the
  priority-queue contract: contents as multisets, and the least key first.
\<close>

section \<open>The operations\<close>

definition heap_swap :: "'a list \<Rightarrow> nat \<Rightarrow> nat \<Rightarrow> 'a list" where
  "heap_swap h i j = h[i := h ! j, j := h ! i]"

definition heap_parent :: "nat \<Rightarrow> nat" where
  "heap_parent j = (j - 1) div 2"

function heap_up :: "('a \<Rightarrow> 'a \<Rightarrow> bool) \<Rightarrow> 'a list \<Rightarrow> nat \<Rightarrow> 'a list" where
  "heap_up lt h j =
     (if heap_parent j = j \<or> \<not> lt (h ! j) (h ! heap_parent j) then h
      else heap_up lt (heap_swap h (heap_parent j) j) (heap_parent j))"
  by pat_completeness auto
termination
  by (relation "measure (\<lambda>(lt, h, j). j)") (auto simp: heap_parent_def)

declare heap_up.simps [simp del]

text \<open>
  The sift-down loop picks the smaller child, and returns the slice and the index where
  it stopped.
\<close>

definition heap_child :: "('a \<Rightarrow> 'a \<Rightarrow> bool) \<Rightarrow> 'a list \<Rightarrow> nat \<Rightarrow> nat \<Rightarrow> nat" where
  "heap_child lt h i n =
     (let j1 = 2 * i + 1; j2 = j1 + 1 in if j2 < n \<and> lt (h ! j2) (h ! j1) then j2 else j1)"

lemma heap_child_gt: "i < heap_child lt h i n"
  by (auto simp: heap_child_def Let_def)

lemma heap_child_less: "2 * i + 1 < n \<Longrightarrow> heap_child lt h i n < n"
  by (auto simp: heap_child_def Let_def)

function heap_down_loop :: "('a \<Rightarrow> 'a \<Rightarrow> bool) \<Rightarrow> 'a list \<Rightarrow> nat \<Rightarrow> nat \<Rightarrow> 'a list \<times> nat" where
  "heap_down_loop lt h i n =
     (if n \<le> 2 * i + 1 then (h, i)
      else if \<not> lt (h ! heap_child lt h i n) (h ! i) then (h, i)
      else heap_down_loop lt (heap_swap h i (heap_child lt h i n)) (heap_child lt h i n) n)"
  by pat_completeness auto
termination
proof (relation "measure (\<lambda>(lt, h, i, n). n - i)")
  fix lt and h :: "'a list" and i n :: nat
  assume "\<not> n \<le> 2 * i + 1"
  then show "((lt, heap_swap h i (heap_child lt h i n), heap_child lt h i n, n), lt, h, i, n)
      \<in> measure (\<lambda>(lt, h, i, n). n - i)"
    using diff_less_mono2 [OF heap_child_gt [of i lt h n], of n] by simp
qed simp

declare heap_down_loop.simps [simp del]

definition heap_down :: "('a \<Rightarrow> 'a \<Rightarrow> bool) \<Rightarrow> 'a list \<Rightarrow> nat \<Rightarrow> nat \<Rightarrow> 'a list \<times> bool" where
  "heap_down lt h i0 n = (let (h', i) = heap_down_loop lt h i0 n in (h', i > i0))"

fun heap_init_loop :: "('a \<Rightarrow> 'a \<Rightarrow> bool) \<Rightarrow> 'a list \<Rightarrow> nat \<Rightarrow> 'a list" where
  "heap_init_loop lt h 0 = h"
| "heap_init_loop lt h (Suc i) = heap_init_loop lt (fst (heap_down lt h i (length h))) i"

definition heap_Init :: "('a \<Rightarrow> 'a \<Rightarrow> bool) \<Rightarrow> 'a list \<Rightarrow> 'a list" where
  "heap_Init lt h = heap_init_loop lt h (length h div 2)"

definition heap_Push :: "('a \<Rightarrow> 'a \<Rightarrow> bool) \<Rightarrow> 'a list \<Rightarrow> 'a \<Rightarrow> 'a list" where
  "heap_Push lt h x = heap_up lt (h @ [x]) (length h)"

text \<open>\<open>heap.Pop\<close> on an empty heap indexes out of range.\<close>

definition heap_Pop :: "('a \<Rightarrow> 'a \<Rightarrow> bool) \<Rightarrow> 'a list \<Rightarrow> ('a \<times> 'a list) go" where
  "heap_Pop lt h =
     (if h = [] then None
      else let n = length h - 1;
               h' = fst (heap_down lt (heap_swap h 0 n) 0 n)
           in Some (h' ! n, take n h'))"

definition heap_Remove :: "('a \<Rightarrow> 'a \<Rightarrow> bool) \<Rightarrow> 'a list \<Rightarrow> nat \<Rightarrow> ('a \<times> 'a list) go" where
  "heap_Remove lt h i =
     (if h = [] \<or> length h \<le> i then None
      else let n = length h - 1;
               h' = (if n \<noteq> i
                     then let (h1, moved) = heap_down lt (heap_swap h i n) i n
                          in if moved then h1 else heap_up lt h1 i
                     else h)
           in Some (h' ! n, take n h'))"

section \<open>Contents\<close>

lemma length_heap_swap [simp]: "length (heap_swap h i j) = length h"
  by (simp add: heap_swap_def)

lemma mset_heap_swap: "i < length h \<Longrightarrow> j < length h \<Longrightarrow> mset (heap_swap h i j) = mset h"
  by (simp add: heap_swap_def mset_swap)

lemma nth_heap_swap:
  "i < length h \<Longrightarrow> j < length h \<Longrightarrow> k < length h \<Longrightarrow>
     heap_swap h i j ! k = (if k = i then h ! j else if k = j then h ! i else h ! k)"
  by (auto simp: heap_swap_def nth_list_update)

lemma heap_parent_less: "0 < j \<Longrightarrow> heap_parent j < j"
  by (auto simp: heap_parent_def)

lemma heap_parent_le: "heap_parent j \<le> j"
  by (auto simp: heap_parent_def)

lemma heap_parent_eq_iff: "heap_parent j = j \<longleftrightarrow> j = 0"
  by (auto simp: heap_parent_def)

lemma heap_parent_0 [simp]: "heap_parent 0 = 0"
  by (simp add: heap_parent_def)

lemma heap_up_mset:
  "j < length h \<Longrightarrow> mset (heap_up lt h j) = mset h"
proof (induction lt h j rule: heap_up.induct)
  case (1 lt h j)
  have "heap_parent j < length h" using "1.prems" heap_parent_le [of j] by linarith
  with 1 show ?case
    by (subst heap_up.simps) (simp add: mset_heap_swap)
qed

lemma heap_down_loop_mset:
  "i < n \<Longrightarrow> n \<le> length h \<Longrightarrow> mset (fst (heap_down_loop lt h i n)) = mset h"
proof (induction lt h i n rule: heap_down_loop.induct)
  case (1 lt h i n)
  show ?case
  proof (cases "n \<le> 2 * i + 1 \<or> \<not> lt (h ! heap_child lt h i n) (h ! i)")
    case True
    then show ?thesis by (subst heap_down_loop.simps) auto
  next
    case False
    then have "heap_child lt h i n < n" by (simp add: heap_child_less)
    with 1 False show ?thesis
      by (subst heap_down_loop.simps) (simp add: mset_heap_swap)
  qed
qed

lemma length_heap_up [simp]: "length (heap_up lt h j) = length h"
proof (induction lt h j rule: heap_up.induct)
  case (1 lt h j)
  then show ?case by (subst heap_up.simps) simp
qed

lemma length_heap_down_loop [simp]: "length (fst (heap_down_loop lt h i n)) = length h"
proof (induction lt h i n rule: heap_down_loop.induct)
  case (1 lt h i n)
  then show ?case by (subst heap_down_loop.simps) simp
qed

text \<open>The sift loops leave the slots beyond their bound alone.\<close>

lemma heap_down_loop_beyond:
  "n \<le> k \<Longrightarrow> k < length h \<Longrightarrow> i < n \<Longrightarrow> fst (heap_down_loop lt h i n) ! k = h ! k"
proof (induction lt h i n rule: heap_down_loop.induct)
  case (1 lt h i n)
  show ?case
  proof (cases "n \<le> 2 * i + 1 \<or> \<not> lt (h ! heap_child lt h i n) (h ! i)")
    case True
    then show ?thesis by (subst heap_down_loop.simps) auto
  next
    case False
    then have "heap_child lt h i n < n" by (simp add: heap_child_less)
    with 1 False show ?thesis
      by (subst heap_down_loop.simps) (simp add: nth_heap_swap)
  qed
qed

lemma heap_up_beyond:
  "j < k \<Longrightarrow> k < length h \<Longrightarrow> heap_up lt h j ! k = h ! k"
proof (induction lt h j rule: heap_up.induct)
  case (1 lt h j)
  have "heap_parent j \<le> j" by (rule heap_parent_le)
  with 1 show ?case
    by (subst heap_up.simps) (auto simp: nth_heap_swap)
qed

lemma length_heap_init_loop [simp]: "length (heap_init_loop lt h k) = length h"
  by (induction lt h k rule: heap_init_loop.induct) (simp_all add: heap_down_def split_beta Let_def)


lemma heap_init_loop_mset: "k \<le> length h \<Longrightarrow> mset (heap_init_loop lt h k) = mset h"
  by (induction lt h k rule: heap_init_loop.induct)
     (simp_all add: heap_down_def split_beta Let_def heap_down_loop_mset)

lemma heap_down_loop_ge: "i \<le> snd (heap_down_loop lt h i n)"
proof (induction lt h i n rule: heap_down_loop.induct)
  case (1 lt h i n)
  show ?case
    using "1.IH" heap_child_gt [of i lt h n] by (subst heap_down_loop.simps) auto
qed

lemma heap_down_loop_stay:
  assumes "snd (heap_down_loop lt h i n) = i"
  shows "fst (heap_down_loop lt h i n) = h"
proof (cases "n \<le> 2 * i + 1 \<or> \<not> lt (h ! heap_child lt h i n) (h ! i)")
  case True
  then show ?thesis by (subst heap_down_loop.simps) auto
next
  case False
  then have "heap_child lt h i n \<le> snd (heap_down_loop lt h i n)"
    by (subst heap_down_loop.simps) (simp add: heap_down_loop_ge)
  with assms heap_child_gt [of i lt h n] show ?thesis by simp
qed

lemma length_heap_Pop: "heap_Pop lt h = Some (x, h') \<Longrightarrow> Suc (length h') = length h"
  by (cases h) (auto simp: heap_Pop_def heap_down_def Let_def split_beta)

section \<open>The heap order\<close>

definition heap_ok :: "('a \<Rightarrow> 'a \<Rightarrow> bool) \<Rightarrow> 'a list \<Rightarrow> bool" where
  "heap_ok lt h \<longleftrightarrow> (\<forall>i. 0 < i \<and> i < length h \<longrightarrow> \<not> lt (h ! i) (h ! heap_parent i))"

lemma heap_ok_Nil [simp]: "heap_ok lt []"
  by (simp add: heap_ok_def)

lemma heap_child_parent:
  "2 * i + 1 < n \<Longrightarrow> heap_parent (heap_child lt h i n) = i"
  by (auto simp: heap_child_def heap_parent_def Let_def)

lemma heap_parent_eq_cases: "0 < c \<Longrightarrow> heap_parent c = i \<longleftrightarrow> c = 2 * i + 1 \<or> c = 2 * i + 2"
  by (auto simp: heap_parent_def)

locale go_heap =
  fixes lt :: "'a \<Rightarrow> 'a \<Rightarrow> bool"
    and key :: "'a \<Rightarrow> 'k::linorder"
  assumes lt_key: "lt a b \<longleftrightarrow> key a < key b"
begin

text \<open>Order up to one displaced slot: the loop invariants of the two sifts.\<close>

definition ordered_above :: "'a list \<Rightarrow> nat \<Rightarrow> nat \<Rightarrow> bool" where
  "ordered_above h n k \<longleftrightarrow>
     (\<forall>c. 0 < c \<and> c < n \<and> k \<le> heap_parent c \<longrightarrow> key (h ! heap_parent c) \<le> key (h ! c))"

definition up_inv :: "'a list \<Rightarrow> nat \<Rightarrow> nat \<Rightarrow> bool" where
  "up_inv h n j \<longleftrightarrow>
     (\<forall>c. 0 < c \<and> c < n \<and> c \<noteq> j \<longrightarrow> key (h ! heap_parent c) \<le> key (h ! c)) \<and>
     (\<forall>c. 0 < c \<and> c < n \<and> heap_parent c = j \<and> 0 < j \<longrightarrow> key (h ! heap_parent j) \<le> key (h ! c))"

definition down_inv :: "'a list \<Rightarrow> nat \<Rightarrow> nat \<Rightarrow> nat \<Rightarrow> bool" where
  "down_inv h n k i \<longleftrightarrow>
     (\<forall>c. 0 < c \<and> c < n \<and> k \<le> heap_parent c \<and> heap_parent c \<noteq> i
         \<longrightarrow> key (h ! heap_parent c) \<le> key (h ! c)) \<and>
     (\<forall>c. 0 < c \<and> c < n \<and> heap_parent c = i \<and> 0 < i \<and> k \<le> heap_parent i
         \<longrightarrow> key (h ! heap_parent i) \<le> key (h ! c))"

lemma heap_ok_ordered: "heap_ok lt h \<longleftrightarrow> ordered_above h (length h) 0"
  by (auto simp: heap_ok_def ordered_above_def lt_key not_less)

lemma ordered_above_up_inv: "ordered_above h n 0 \<Longrightarrow> j < n \<Longrightarrow> up_inv h n j"
  unfolding ordered_above_def up_inv_def
  by (metis heap_parent_less less_trans linorder_not_less nat_le_linear order_trans zero_le)

lemma ordered_above_take:
  "ordered_above h n 0 \<Longrightarrow> n \<le> length h \<Longrightarrow> ordered_above (take n h) n 0"
  by (auto simp: ordered_above_def) (metis heap_parent_less less_trans nth_take)

lemma up_inv_step:
  assumes inv: "up_inv h n j" and j: "0 < j" "j < n" "n \<le> length h"
    and viol: "key (h ! j) < key (h ! heap_parent j)"
  shows "up_inv (heap_swap h (heap_parent j) j) n (heap_parent j)"
proof -
  let ?i = "heap_parent j" and ?h = "heap_swap h (heap_parent j) j"
  have ij: "?i < j" using j by (simp add: heap_parent_less)
  have at: "?h ! k = (if k = ?i then h ! j else if k = j then h ! ?i else h ! k)" if "k < n" for k
    using that ij j by (subst nth_heap_swap) (auto intro: less_trans less_le_trans)
  have up: "key (h ! heap_parent c) \<le> key (h ! c)" if "0 < c" "c < n" "c \<noteq> j" for c
    using inv that by (simp add: up_inv_def)
  have child: "key (h ! ?i) \<le> key (h ! c)" if "0 < c" "c < n" "heap_parent c = j" for c
    using inv that j by (simp add: up_inv_def)
  have par: "heap_parent c < c" "heap_parent c < n" if "0 < c" "c < n" for c
    using that heap_parent_less [of c] by linarith+
  show ?thesis
    unfolding up_inv_def
  proof (intro conjI allI impI; elim conjE)
    fix c assume c: "0 < c" "c < n" "c \<noteq> ?i"
    show "key (?h ! heap_parent c) \<le> key (?h ! c)"
    proof (cases "c = j")
      case True
      then show ?thesis using at c par viol ij by simp
    next
      case False
      consider "heap_parent c = j" | "heap_parent c = ?i" | "heap_parent c \<noteq> j" "heap_parent c \<noteq> ?i"
        by blast
      then show ?thesis
      proof cases
        case 1
        then show ?thesis using at [of c] at [of j] c j False child [of c] ij by auto
      next
        case 2
        then have "key (h ! j) \<le> key (h ! c)" using up [of c] c False viol by auto
        then show ?thesis using 2 at [of c] at [of ?i] c j False ij by auto
      next
        case 3
        then show ?thesis using at [of c] at [of "heap_parent c"] c par False up [of c] by auto
      qed
    qed
  next
    fix c assume c: "0 < c" "c < n" "heap_parent c = ?i" "0 < ?i"
    have pi: "heap_parent ?i < ?i" "heap_parent ?i < n" using c ij j heap_parent_less [of ?i] by linarith+
    have "key (h ! heap_parent ?i) \<le> key (h ! ?i)" using up [of ?i] c ij j by auto
    moreover have "key (h ! ?i) \<le> key (?h ! c)"
      using at [of c] up [of c] c ij heap_parent_less [of c] by (cases "c = j") auto
    ultimately show "key (?h ! heap_parent ?i) \<le> key (?h ! c)"
      using at [of "heap_parent ?i"] pi ij by auto
  qed
qed

lemma heap_up_ordered:
  "up_inv h n j \<Longrightarrow> j < n \<Longrightarrow> n \<le> length h \<Longrightarrow> ordered_above (heap_up lt h j) n 0"
proof (induction j arbitrary: h rule: less_induct)
  case (less j)
  show ?case
  proof (cases "j = 0 \<or> \<not> lt (h ! j) (h ! heap_parent j)")
    case True
    then have "ordered_above h n 0"
      using less.prems by (auto simp: up_inv_def ordered_above_def lt_key not_less)
    with True show ?thesis by (subst heap_up.simps) (auto simp: heap_parent_eq_iff)
  next
    case False
    then have "up_inv (heap_swap h (heap_parent j) j) n (heap_parent j)"
      using less.prems by (intro up_inv_step) (auto simp: lt_key)
    moreover have "heap_parent j < j" using False by (simp add: heap_parent_less)
    ultimately have "ordered_above (heap_up lt (heap_swap h (heap_parent j) j) (heap_parent j)) n 0"
      using less.prems by (intro less.IH) auto
    with False show ?thesis by (subst heap_up.simps) (auto simp: heap_parent_eq_iff)
  qed
qed

lemma heap_child_min:
  assumes "2 * i + 1 < n" "0 < c" "c < n" "heap_parent c = i"
  shows "key (h ! heap_child lt h i n) \<le> key (h ! c)"
  using assms by (auto simp: heap_child_def Let_def lt_key heap_parent_eq_cases)

lemma down_inv_step:
  assumes inv: "down_inv h n k i" and i: "2 * i + 1 < n" "n \<le> length h" "k \<le> i"
    and viol: "key (h ! heap_child lt h i n) < key (h ! i)"
  shows "down_inv (heap_swap h i (heap_child lt h i n)) n k (heap_child lt h i n)"
proof -
  let ?j = "heap_child lt h i n" and ?h = "heap_swap h i (heap_child lt h i n)"
  have ij: "i < ?j" "?j < n" "heap_parent ?j = i"
    using i by (simp_all add: heap_child_parent heap_child_gt heap_child_less)
  have at: "?h ! c = (if c = i then h ! ?j else if c = ?j then h ! i else h ! c)" if "c < n" for c
    using that ij i by (subst nth_heap_swap) auto
  have ok: "key (h ! heap_parent c) \<le> key (h ! c)"
    if "0 < c" "c < n" "k \<le> heap_parent c" "heap_parent c \<noteq> i" for c
    using inv that by (simp add: down_inv_def)
  have grand: "key (h ! heap_parent i) \<le> key (h ! c)"
    if "0 < c" "c < n" "heap_parent c = i" "0 < i" "k \<le> heap_parent i" for c
    using inv that by (simp add: down_inv_def)
  have par: "heap_parent c < c" "heap_parent c < n" if "0 < c" "c < n" for c
    using that heap_parent_less [of c] by linarith+
  show ?thesis
    unfolding down_inv_def
  proof (intro conjI allI impI; elim conjE)
    fix c assume c: "0 < c" "c < n" "k \<le> heap_parent c" "heap_parent c \<noteq> ?j"
    show "key (?h ! heap_parent c) \<le> key (?h ! c)"
    proof (cases "heap_parent c = i")
      case True
      then have "key (h ! ?j) \<le> key (h ! c)" using heap_child_min i c by simp
      moreover have "c \<noteq> i" using True par(1) [OF c(1,2)] by auto
      ultimately show ?thesis
        using True at [of c] at [of i] c ij viol by (cases "c = ?j") auto
    next
      case False
      then have c': "c \<noteq> ?j" using ij by auto
      show ?thesis
      proof (cases "c = i")
        case True
        then have "key (h ! heap_parent i) \<le> key (h ! ?j)"
          using grand [of ?j] ij c by auto
        then show ?thesis using True at [of i] at [of "heap_parent c"] c par False c' by auto
      next
        case False
        then show ?thesis
          using \<open>heap_parent c \<noteq> i\<close> c' at [of c] at [of "heap_parent c"] c par ok [of c] by auto
      qed
    qed
  next
    fix c assume c: "0 < c" "c < n" "heap_parent c = ?j" "0 < ?j" "k \<le> heap_parent ?j"
    have "key (h ! ?j) \<le> key (h ! c)" using ok [of c] c ij i by auto
    moreover have "c \<noteq> i" "c \<noteq> ?j" using par [of c] c ij by auto
    ultimately show "key (?h ! heap_parent ?j) \<le> key (?h ! c)"
      using at [of c] at [of i] c ij by auto
  qed
qed

lemma heap_down_loop_ordered:
  "down_inv h n k i \<Longrightarrow> i < n \<Longrightarrow> n \<le> length h \<Longrightarrow> k \<le> i
     \<Longrightarrow> ordered_above (fst (heap_down_loop lt h i n)) n k"
proof (induction "n - i" arbitrary: h i rule: less_induct)
  case less
  show ?case
  proof (cases "n \<le> 2 * i + 1 \<or> \<not> lt (h ! heap_child lt h i n) (h ! i)")
    case True
    have "key (h ! i) \<le> key (h ! c)" if "0 < c" "c < n" "heap_parent c = i" for c
    proof -
      have "2 * i + 1 < n" using that by (auto simp: heap_parent_def)
      moreover from this True have "key (h ! i) \<le> key (h ! heap_child lt h i n)"
        by (simp add: lt_key)
      ultimately show ?thesis using heap_child_min [of i n c h] that by simp
    qed
    then have "ordered_above h n k"
      using less.prems by (auto simp: down_inv_def ordered_above_def)
    with True show ?thesis by (subst heap_down_loop.simps) auto
  next
    case False
    then have j: "i < heap_child lt h i n" "heap_child lt h i n < n"
      by (simp_all add: heap_child_gt heap_child_less)
    have "down_inv (heap_swap h i (heap_child lt h i n)) n k (heap_child lt h i n)"
      using False less.prems by (intro down_inv_step) (auto simp: lt_key)
    moreover have "n - heap_child lt h i n < n - i" using j by simp
    ultimately have "ordered_above (fst (heap_down_loop lt
        (heap_swap h i (heap_child lt h i n)) (heap_child lt h i n) n)) n k"
      using less.prems j by (intro less.hyps) auto
    with False show ?thesis by (subst heap_down_loop.simps) auto
  qed
qed

text \<open>The priority-queue contract.\<close>

lemma heap_root_least:
  assumes "ordered_above h n 0" "i < n"
  shows "key (h ! 0) \<le> key (h ! i)"
  using assms(2)
proof (induction i rule: less_induct)
  case (less i)
  show ?case
  proof (cases "i = 0")
    case False
    then have "heap_parent i < i" by (simp add: heap_parent_less)
    moreover from this have "key (h ! 0) \<le> key (h ! heap_parent i)"
      using less by simp
    moreover have "key (h ! heap_parent i) \<le> key (h ! i)"
      using assms(1) less.prems False by (simp add: ordered_above_def)
    ultimately show ?thesis by simp
  qed simp
qed

lemma heap_least: "heap_ok lt h \<Longrightarrow> y \<in> set h \<Longrightarrow> key (h ! 0) \<le> key y"
  by (auto simp: heap_ok_ordered in_set_conv_nth heap_root_least)

lemma heap_Push_mset: "mset (heap_Push lt h x) = add_mset x (mset h)"
  by (simp add: heap_Push_def heap_up_mset)

lemma heap_Push_ok:
  assumes "heap_ok lt h"
  shows "heap_ok lt (heap_Push lt h x)"
proof -
  let ?n = "length h"
  have "up_inv (h @ [x]) (Suc ?n) ?n"
    unfolding up_inv_def
  proof (intro conjI allI impI; elim conjE)
    fix c assume c: "0 < c" "c < Suc ?n" "c \<noteq> ?n"
    then have "heap_parent c < ?n" using heap_parent_less [of c] by simp
    with c assms show "key ((h @ [x]) ! heap_parent c) \<le> key ((h @ [x]) ! c)"
      by (simp add: heap_ok_ordered ordered_above_def nth_append)
  next
    fix c assume "0 < c" "c < Suc ?n" "heap_parent c = ?n" "0 < ?n"
    then show "key ((h @ [x]) ! heap_parent ?n) \<le> key ((h @ [x]) ! c)"
      using heap_parent_less [of c] by simp
  qed
  then have "ordered_above (heap_up lt (h @ [x]) ?n) (Suc ?n) 0"
    by (rule heap_up_ordered) simp_all
  then show ?thesis by (simp add: heap_ok_ordered heap_Push_def)
qed

lemma heap_init_loop_ordered:
  "ordered_above h (length h) k \<Longrightarrow> k \<le> length h
     \<Longrightarrow> ordered_above (heap_init_loop lt h k) (length h) 0"
proof (induction k arbitrary: h)
  case (Suc k)
  have "down_inv h (length h) k k"
    using Suc.prems(1) heap_parent_less [of k] by (auto simp: down_inv_def ordered_above_def)
  then have "ordered_above (fst (heap_down_loop lt h k (length h))) (length h) k"
    using Suc.prems by (intro heap_down_loop_ordered) auto
  with Suc.prems show ?case
    using Suc.IH [of "fst (heap_down_loop lt h k (length h))"]
    by (simp add: heap_down_def split_beta Let_def)
qed simp

lemma heap_Init_ok: "heap_ok lt (heap_Init lt h)"
proof -
  have "ordered_above h (length h) (length h div 2)"
    by (auto simp: ordered_above_def heap_parent_def)
  then show ?thesis
    by (simp add: heap_Init_def heap_ok_ordered heap_init_loop_ordered)
qed

lemma heap_Init_mset: "mset (heap_Init lt h) = mset h"
  by (simp add: heap_Init_def heap_init_loop_mset)

lemma take_last_split:
  "h \<noteq> [] \<Longrightarrow> mset h = add_mset (h ! (length h - 1)) (mset (take (length h - 1) h))"
  by (cases h rule: rev_cases) simp_all

lemma heap_Pop_ok:
  assumes "heap_ok lt h" "h \<noteq> []"
  obtains h' where "heap_Pop lt h = Some (h ! 0, h')" "heap_ok lt h'"
    "mset h = add_mset (h ! 0) (mset h')"
proof (cases "length h = 1")
  case True
  then obtain x where h: "h = [x]" by (cases h) auto
  have "heap_down_loop lt [x] 0 0 = ([x], 0)" by (subst heap_down_loop.simps) simp
  then have "heap_Pop lt h = Some (h ! 0, [])"
    by (simp add: h heap_Pop_def heap_down_def heap_swap_def)
  with h show thesis by (intro that [of "[]"]) simp_all
next
  case False
  let ?n = "length h - 1"
  let ?s = "heap_swap h 0 ?n"
  define d where "d = fst (heap_down_loop lt ?s 0 ?n)"
  have n: "0 < ?n" "?n < length h" using False assms(2) by (cases h; simp)+
  have len: "length d = length h" by (simp add: d_def)
  have s: "?s ! c = (if c = 0 then h ! ?n else if c = ?n then h ! 0 else h ! c)" if "c < length h" for c
    using that n by (subst nth_heap_swap) auto
  have nth: "d ! ?n = h ! 0"
    using heap_down_loop_beyond [of ?n ?n ?s 0 lt] n s [of ?n] by (simp add: d_def)
  have ord: "ordered_above d ?n 0"
    unfolding d_def
  proof (rule heap_down_loop_ordered)
    have "key (?s ! heap_parent c) \<le> key (?s ! c)"
      if c: "0 < c" "c < ?n" "heap_parent c \<noteq> 0" for c
    proof -
      have p: "heap_parent c < ?n" using heap_parent_less [of c] c by simp
      have "key (h ! heap_parent c) \<le> key (h ! c)"
        using assms(1) c n by (simp add: heap_ok_ordered ordered_above_def)
      then show ?thesis using s [of c] s [of "heap_parent c"] c p n by simp
    qed
    then show "down_inv ?s ?n 0 0" by (auto simp: down_inv_def)
  qed (use n in auto)
  have ms: "mset d = mset h"
    using heap_down_loop_mset [of 0 ?n ?s lt] mset_heap_swap [of 0 h ?n] n assms(2)
    by (simp add: d_def)
  have "mset h = add_mset (h ! 0) (mset (take ?n d))"
  proof -
    have "d \<noteq> []" using len assms(2) by auto
    from take_last_split [OF this] show ?thesis by (simp add: len ms nth [simplified])
  qed
  moreover have "heap_ok lt (take ?n d)"
    using ordered_above_take [OF ord] len n by (simp add: heap_ok_ordered)
  moreover have "heap_Pop lt h = Some (h ! 0, take ?n d)"
    using assms(2) nth by (simp add: heap_Pop_def heap_down_def d_def split_beta Let_def)
  ultimately show thesis by (intro that [of "take ?n d"])
qed

text \<open>
  Removal at an index: the last element fills the hole and is sifted down, or up when it
  is already below its new children.
\<close>

lemma heap_Remove_ok:
  assumes ok: "heap_ok lt h" and i: "i < length h"
  obtains h' where "heap_Remove lt h i = Some (h ! i, h')" "heap_ok lt h'"
    "mset h = add_mset (h ! i) (mset h')"
proof (cases "i = length h - 1")
  case True
  have "heap_Remove lt h i = Some (h ! i, take i h)"
    using i True by (auto simp: heap_Remove_def Let_def)
  moreover have "heap_ok lt (take i h)"
  proof -
    have "ordered_above h i 0" using ok i by (auto simp: heap_ok_ordered ordered_above_def)
    then show ?thesis using ordered_above_take [of h i] i by (simp add: heap_ok_ordered)
  qed
  moreover have "mset h = add_mset (h ! i) (mset (take i h))"
    using take_last_split [of h] i True by (cases "h = []") auto
  ultimately show thesis by (rule that)
next
  case False
  let ?n = "length h - 1"
  let ?s = "heap_swap h i ?n"
  let ?d = "fst (heap_down_loop lt ?s i ?n)"
  define r where "r = (if snd (heap_down_loop lt ?s i ?n) > i then ?d else heap_up lt ?d i)"
  have n: "i < ?n" "?n < length h" using False i by linarith+
  have s: "?s ! c = (if c = i then h ! ?n else if c = ?n then h ! i else h ! c)" if "c < length h" for c
    using that n i by (subst nth_heap_swap) auto
  have hk: "key (h ! heap_parent c) \<le> key (h ! c)" if "0 < c" "c < length h" for c
    using ok that by (simp add: heap_ok_ordered ordered_above_def)
  have par: "heap_parent c < ?n" if "0 < c" "c < ?n" for c
    using that heap_parent_less [of c] by linarith
  have nth: "r ! ?n = h ! i"
    using heap_down_loop_beyond [of ?n ?n ?s i lt] n s [of ?n]
    by (simp add: r_def heap_up_beyond)
  have ms: "mset r = mset h"
    using heap_down_loop_mset [of i ?n ?s lt] mset_heap_swap [of i h ?n] n i
    by (simp add: r_def heap_up_mset)
  have ord: "ordered_above r ?n 0"
  proof (cases "0 < i \<and> key (h ! ?n) < key (h ! heap_parent i)")
    case up: True
    have grand: "key (h ! heap_parent i) \<le> key (h ! c)" if "0 < c" "c < ?n" "heap_parent c = i" for c
      using hk [of i] hk [of c] that up n by auto
    have "up_inv ?s ?n i"
      unfolding up_inv_def
    proof (intro conjI allI impI; elim conjE)
      fix c assume c: "0 < c" "c < ?n" "c \<noteq> i"
      show "key (?s ! heap_parent c) \<le> key (?s ! c)"
      proof (cases "heap_parent c = i")
        case True
        then have "key (h ! heap_parent i) \<le> key (h ! c)" using grand c by simp
        then show ?thesis using True up s [of c] s [of i] c n by auto
      next
        case False
        then show ?thesis using s [of c] s [of "heap_parent c"] c n par [of c] hk [of c] by auto
      qed
    next
      fix c assume c: "0 < c" "c < ?n" "heap_parent c = i" "0 < i"
      then show "key (?s ! heap_parent i) \<le> key (?s ! c)"
        using grand [of c] s [of c] s [of "heap_parent i"] heap_parent_less [of c]
          heap_parent_less [of i] n by auto
    qed
    moreover have "heap_down_loop lt ?s i ?n = (?s, i)"
    proof -
      have "\<not> lt (?s ! heap_child lt ?s i ?n) (?s ! i)" if "2 * i + 1 < ?n"
      proof -
        let ?c = "heap_child lt ?s i ?n"
        have c: "0 < ?c" "?c < ?n" "heap_parent ?c = i" "?c \<noteq> i"
          using that heap_child_gt [of i lt ?s ?n] heap_child_less [of i ?n lt ?s]
          by (auto simp: heap_child_parent)
        then have "key (h ! heap_parent i) \<le> key (h ! ?c)" using grand by simp
        then show ?thesis using up c s [of ?c] s [of i] n by (auto simp: lt_key)
      qed
      then show ?thesis by (subst heap_down_loop.simps) auto
    qed
    ultimately show ?thesis using n by (simp add: r_def heap_up_ordered)
  next
    case down: False
    have "down_inv ?s ?n 0 i"
      unfolding down_inv_def
    proof (intro conjI allI impI; elim conjE)
      fix c assume c: "0 < c" "c < ?n" "heap_parent c \<noteq> i"
      show "key (?s ! heap_parent c) \<le> key (?s ! c)"
        using c down s [of c] s [of "heap_parent c"] n par [of c] hk [of c] by (cases "c = i") auto
    next
      fix c assume c: "0 < c" "c < ?n" "heap_parent c = i" "0 < i"
      then have "key (h ! heap_parent i) \<le> key (h ! c)" using hk [of i] hk [of c] n by auto
      then show "key (?s ! heap_parent i) \<le> key (?s ! c)"
        using c s [of c] s [of "heap_parent i"] heap_parent_less [of c] heap_parent_less [of i] n by auto
    qed
    then have "ordered_above ?d ?n 0" using n by (intro heap_down_loop_ordered) auto
    then show ?thesis using n
      by (auto simp: r_def intro!: heap_up_ordered ordered_above_up_inv)
  qed
  have len: "length r = length h" by (simp add: r_def)
  then have "r \<noteq> []" using i by auto
  from take_last_split [OF this] have "mset h = add_mset (h ! i) (mset (take ?n r))"
    by (simp add: len ms nth [simplified])
  moreover have "heap_ok lt (take ?n r)"
    using ordered_above_take [OF ord] len n by (simp add: heap_ok_ordered)
  moreover have "heap_Remove lt h i = Some (h ! i, take ?n r)"
    using i False nth by (auto simp: heap_Remove_def heap_down_def r_def split_beta Let_def)
  ultimately show thesis by (intro that [of "take ?n r"])
qed

end

end
