(* ===== verification/Tx_Sorted_Map.thy ===== *)
theory Tx_Sorted_Map
  imports Chain_Types Go_Heap "HOL-Library.Monad_Syntax"
begin

text \<open>
  \<open>core/tx_list.go\<close>, first part: \<open>nonceHeap\<close> and \<open>txSortedMap\<close>, the nonce-indexed
  transactions of one account.  A \<open>*types.Transaction\<close> read from the item map is an option
  (nil is \<open>None\<close>); an operation that indexes or slices a Go slice returns \<open>None\<close> where Go
  panics.  The file-level mutex makes every method of \<open>txSortedMap\<close> atomic, so each is one
  step.
\<close>

section \<open>Operations\<close>

definition nonce_less :: "u64 \<Rightarrow> u64 \<Rightarrow> bool" where
  "nonce_less a b \<longleftrightarrow> a < b"

record txSortedMap =
  sm_items :: "(u64 \<times> tx) list"
  sm_index :: "u64 list"
  sm_cache :: "tx list option"

definition newTxSortedMap :: txSortedMap where
  "newTxSortedMap = \<lparr>sm_items = [], sm_index = [], sm_cache = None\<rparr>"

definition sm_Get :: "txSortedMap \<Rightarrow> u64 \<Rightarrow> tx option" where
  "sm_Get m nonce = map_of (sm_items m) nonce"

definition sm_Put :: "txSortedMap \<Rightarrow> tx \<Rightarrow> txSortedMap" where
  "sm_Put m tx =
     (let nonce = tx_nonce tx;
          index = (if map_of (sm_items m) nonce = None
                   then heap_Push nonce_less (sm_index m) nonce else sm_index m)
      in m\<lparr>sm_items := AList.update nonce tx (sm_items m), sm_index := index, sm_cache := None\<rparr>)"

function sm_forward_loop ::
  "u64 \<Rightarrow> (u64 \<times> tx) list \<Rightarrow> u64 list \<Rightarrow> tx option list
     \<Rightarrow> ((u64 \<times> tx) list \<times> u64 list \<times> tx option list) go" where
  "sm_forward_loop threshold items index removed =
     (if index \<noteq> [] \<and> index ! 0 < threshold
      then (case heap_Pop nonce_less index of
              None \<Rightarrow> None
            | Some (nonce, index') \<Rightarrow>
                sm_forward_loop threshold (AList.delete nonce items) index'
                  (removed @ [map_of items nonce]))
      else Some (items, index, removed))"
  by pat_completeness auto
termination
  by (relation "measure (\<lambda>(threshold, items, index, removed). length index)")
     (auto dest!: length_heap_Pop)

declare sm_forward_loop.simps [simp del]

definition sm_Forward :: "txSortedMap \<Rightarrow> u64 \<Rightarrow> (txSortedMap \<times> tx option list) go" where
  "sm_Forward m threshold = do {
     (items, index, removed) \<leftarrow> sm_forward_loop threshold (sm_items m) (sm_index m) [];
     cache \<leftarrow> (case sm_cache m of
                 None \<Rightarrow> Some None
               | Some c \<Rightarrow> map_option Some (slice_from c (int (length removed))));
     Some (m\<lparr>sm_items := items, sm_index := index, sm_cache := cache\<rparr>, removed)
   }"

definition sm_Filter :: "txSortedMap \<Rightarrow> (tx \<Rightarrow> bool) \<Rightarrow> txSortedMap \<times> tx list" where
  "sm_Filter m f =
     (let removed = map snd (filter (\<lambda>p. f (snd p)) (sm_items m));
          items = filter (\<lambda>p. \<not> f (snd p)) (sm_items m)
      in if removed \<noteq> []
         then (m\<lparr>sm_items := items, sm_index := heap_Init nonce_less (map fst items),
                 sm_cache := None\<rparr>, removed)
         else (m, []))"

text \<open>The drop loop counts down from \<open>len(items)\<close>; at zero the next index would be \<open>-1\<close>.\<close>

fun sm_cap_loop ::
  "int \<Rightarrow> nat \<Rightarrow> u64 list \<Rightarrow> (u64 \<times> tx) list \<Rightarrow> tx option list
     \<Rightarrow> ((u64 \<times> tx) list \<times> tx option list) go" where
  "sm_cap_loop threshold 0 index items drops =
     (if 0 > threshold then None else Some (items, drops))"
| "sm_cap_loop threshold (Suc sz) index items drops =
     (if int (Suc sz) > threshold
      then (case slice_at index (int sz) of
              None \<Rightarrow> None
            | Some nonce \<Rightarrow> sm_cap_loop threshold sz index (AList.delete nonce items)
                (drops @ [map_of items nonce]))
      else Some (items, drops))"

definition sm_Cap :: "txSortedMap \<Rightarrow> int \<Rightarrow> (txSortedMap \<times> tx option list) go" where
  "sm_Cap m threshold =
     (if int (length (sm_items m)) \<le> threshold then Some (m, [])
      else do {
        let index = sort (sm_index m);
        (items, drops) \<leftarrow> sm_cap_loop threshold (length (sm_items m)) index (sm_items m) [];
        index' \<leftarrow> slice_to index threshold;
        cache \<leftarrow> (case sm_cache m of
                    None \<Rightarrow> Some None
                  | Some c \<Rightarrow> map_option Some (slice_to c (int (length c) - int (length drops))));
        Some (m\<lparr>sm_items := items, sm_index := heap_Init nonce_less index', sm_cache := cache\<rparr>,
              drops)
      })"

definition sm_Remove :: "txSortedMap \<Rightarrow> u64 \<Rightarrow> (txSortedMap \<times> bool) go" where
  "sm_Remove m nonce =
     (if map_of (sm_items m) nonce = None then Some (m, False)
      else do {
        let i = length (takeWhile (\<lambda>n. n \<noteq> nonce) (sm_index m));
        index \<leftarrow> (if i < length (sm_index m)
                   then map_option snd (heap_Remove nonce_less (sm_index m) i)
                   else Some (sm_index m));
        Some (m\<lparr>sm_items := AList.delete nonce (sm_items m), sm_index := index, sm_cache := None\<rparr>,
              True)
      })"

function sm_ready_loop ::
  "u64 \<Rightarrow> (u64 \<times> tx) list \<Rightarrow> u64 list \<Rightarrow> tx option list
     \<Rightarrow> ((u64 \<times> tx) list \<times> u64 list \<times> tx option list) go" where
  "sm_ready_loop nxt items index ready =
     (if index \<noteq> [] \<and> index ! 0 = nxt
      then (case heap_Pop nonce_less index of
              None \<Rightarrow> None
            | Some (_, index') \<Rightarrow>
                sm_ready_loop (nxt + 1) (AList.delete nxt items) index'
                  (ready @ [map_of items nxt]))
      else Some (items, index, ready))"
  by pat_completeness auto
termination
  by (relation "measure (\<lambda>(nxt, items, index, ready). length index)")
     (auto dest!: length_heap_Pop)

declare sm_ready_loop.simps [simp del]

definition sm_Ready :: "txSortedMap \<Rightarrow> u64 \<Rightarrow> (txSortedMap \<times> tx option list) go" where
  "sm_Ready m start =
     (if sm_index m = [] \<or> sm_index m ! 0 > start then Some (m, [])
      else do {
        (items, index, ready) \<leftarrow> sm_ready_loop (sm_index m ! 0) (sm_items m) (sm_index m) [];
        Some (m\<lparr>sm_items := items, sm_index := index, sm_cache := None\<rparr>, ready)
      })"

definition sm_Len :: "txSortedMap \<Rightarrow> nat" where
  "sm_Len m = length (sm_items m)"

definition sm_Flatten :: "txSortedMap \<Rightarrow> txSortedMap \<times> tx list" where
  "sm_Flatten m =
     (let c = (case sm_cache m of None \<Rightarrow> sort_key tx_nonce (map snd (sm_items m)) | Some c \<Rightarrow> c)
      in (m\<lparr>sm_cache := Some c\<rparr>, c))"

section \<open>The nonce heap\<close>

interpretation nonce_heap: go_heap nonce_less "\<lambda>n. n"
  by unfold_locales (simp add: nonce_less_def)

section \<open>The sorted map and its abstraction\<close>

text \<open>
  The abstract value of a sorted map is the list of its transactions in nonce order.
  Every operation of \<open>txSortedMap\<close> refines a plain list operation on it.
\<close>

definition it_ok :: "(u64 \<times> tx) list \<Rightarrow> bool" where
  "it_ok items \<longleftrightarrow> go_ok items \<and> (\<forall>p\<in>set items. tx_nonce (snd p) = fst p)"

definition srt :: "(u64 \<times> tx) list \<Rightarrow> tx list" where
  "srt items = sort_key tx_nonce (map snd items)"

definition sm_abs :: "txSortedMap \<Rightarrow> tx list" where
  "sm_abs m = srt (sm_items m)"

definition sm_inv :: "txSortedMap \<Rightarrow> bool" where
  "sm_inv m \<longleftrightarrow> it_ok (sm_items m) \<and> heap_ok nonce_less (sm_index m)
     \<and> mset (sm_index m) = mset (map fst (sm_items m))
     \<and> (\<forall>c. sm_cache m = Some c \<longrightarrow> c = sm_abs m)"

text \<open>The run of consecutive nonces at the front of a list, which \<open>Ready\<close> hands out.\<close>

fun consecutive :: "u64 \<Rightarrow> tx list \<Rightarrow> nat" where
  "consecutive n [] = 0"
| "consecutive n (t # ts) = (if tx_nonce t = n then Suc (consecutive (n + 1) ts) else 0)"

lemma it_ok_Nil [simp]: "it_ok []"
  by (simp add: it_ok_def)

lemma it_ok_delete [simp, intro]: "it_ok items \<Longrightarrow> it_ok (AList.delete n items)"
  by (auto simp: it_ok_def alist_simps)

lemma it_ok_filter [simp, intro]: "it_ok items \<Longrightarrow> it_ok (filter P items)"
  by (auto simp: it_ok_def)

lemma it_ok_update [simp, intro]: "it_ok items \<Longrightarrow> it_ok (AList.update (tx_nonce t) t items)"
  by (auto simp: it_ok_def go_ok_lookup [of "AList.update (tx_nonce t) t items"] alist_simps
      map_of_eq_Some_iff split: if_splits)

lemma it_ok_keys: "it_ok items \<Longrightarrow> map tx_nonce (map snd items) = map fst items"
  by (auto simp: it_ok_def)

lemma srt_Nil [simp]: "srt [] = []"
  by (simp add: srt_def)

lemma length_srt [simp]: "length (srt items) = length items"
  by (simp add: srt_def)

lemma set_srt: "set (srt items) = snd ` set items"
  by (simp add: srt_def)

lemma sorted_srt: "sorted (map tx_nonce (srt items))"
  by (simp add: srt_def)

lemma nonces_srt: "it_ok items \<Longrightarrow> mset (map tx_nonce (srt items)) = mset (map fst items)"
  by (simp only: it_ok_keys [symmetric]) (simp add: srt_def multiset.map_comp)

lemma distinct_srt: "it_ok items \<Longrightarrow> distinct (map tx_nonce (srt items))"
  using mset_eq_imp_distinct_iff [OF nonces_srt] by (auto simp: it_ok_def)

lemma srt_filter: "srt (filter (\<lambda>p. P (snd p)) items) = filter P (srt items)"
  by (simp add: srt_def filter_sort filter_map o_def)

lemma srt_delete:
  assumes "it_ok items"
  shows "srt (AList.delete n items) = filter (\<lambda>t. tx_nonce t \<noteq> n) (srt items)"
proof -
  have "AList.delete n items = filter (\<lambda>p. tx_nonce (snd p) \<noteq> n) items"
    using assms by (auto simp: AList.delete_eq it_ok_def intro!: filter_cong)
  then show ?thesis by (simp only: srt_filter [of "\<lambda>t. tx_nonce t \<noteq> n"])
qed

lemma in_srt: "it_ok items \<Longrightarrow> t \<in> set (srt items) \<longleftrightarrow> map_of items (tx_nonce t) = Some t"
  by (auto simp: set_srt it_ok_def image_iff) (metis go_ok_lookup snd_conv)

lemma lookup_srt:
  assumes "it_ok items" "map_of items n = Some t"
  shows "t \<in> set (srt items)" "tx_nonce t = n"
  using assms map_of_SomeD [OF assms(2)] by (force simp: set_srt it_ok_def)+

lemma srt_unique:
  assumes "it_ok items" "sorted (map tx_nonce xs)" "distinct (map tx_nonce xs)"
    "set xs = set (srt items)"
  shows "xs = srt items"
proof (rule map_sorted_distinct_set_unique [of tx_nonce])
  show "inj_on tx_nonce (set xs \<union> set (srt items))"
    using assms(3,4) by (simp add: distinct_map)
qed (use assms sorted_srt distinct_srt in auto)

lemma srt_Cons_delete:
  assumes "it_ok items" "srt items = t # ts"
  shows "map_of items (tx_nonce t) = Some t" "srt (AList.delete (tx_nonce t) items) = ts"
proof -
  show "map_of items (tx_nonce t) = Some t"
    using in_srt [OF assms(1), of t] assms(2) by simp
  have "tx_nonce t \<notin> tx_nonce ` set ts"
    using distinct_srt [OF assms(1)] assms(2) by simp
  then show "srt (AList.delete (tx_nonce t) items) = ts"
    using assms by (auto simp: srt_delete image_iff intro!: filter_True)
qed

text \<open>The root of the nonce heap is the first transaction of the abstract list.\<close>

lemma index_head:
  assumes "it_ok items" "heap_ok nonce_less index" "mset index = mset (map fst items)" "index \<noteq> []"
  obtains t ts where "srt items = t # ts" "index ! 0 = tx_nonce t"
proof -
  have "length index = length items" using assms(3) by (metis mset_eq_length length_map)
  then obtain t ts where t: "srt items = t # ts"
    using assms(4) by (metis length_0_conv length_srt list.exhaust)
  have nonces: "set index = tx_nonce ` set (srt items)"
    using assms(1,3) nonces_srt by (metis list.set_map set_mset_mset)
  have "index ! 0 \<in> set index" using assms(4) by simp
  then have "tx_nonce t \<le> index ! 0"
    using nonces t sorted_srt [of items] by auto
  moreover have "index ! 0 \<le> tx_nonce t"
    using nonce_heap.heap_least [OF assms(2)] nonces t by simp
  ultimately show thesis using that t by simp
qed

lemma index_pop:
  assumes "it_ok items" "heap_ok nonce_less index" "mset index = mset (map fst items)" "index \<noteq> []"
  obtains t ts index' where "srt items = t # ts" "index ! 0 = tx_nonce t"
    "heap_Pop nonce_less index = Some (tx_nonce t, index')" "heap_ok nonce_less index'"
    "mset index' = mset (map fst (AList.delete (tx_nonce t) items))"
proof -
  obtain t ts where t: "srt items = t # ts" "index ! 0 = tx_nonce t"
    using index_head [OF assms] by blast
  obtain index' where p: "heap_Pop nonce_less index = Some (tx_nonce t, index')"
    "heap_ok nonce_less index'" "mset index = add_mset (tx_nonce t) (mset index')"
    using nonce_heap.heap_Pop_ok [OF assms(2,4)] t(2) by metis
  have "map_of items (tx_nonce t) = Some t" using srt_Cons_delete [OF assms(1) t(1)] by simp
  then have "mset (map fst items) = add_mset (tx_nonce t) (mset (map fst (AList.delete (tx_nonce t) items)))"
    using assms(1) by (intro mset_keys_delete) (auto simp: it_ok_def)
  with p(3) assms(3) have "mset index' = mset (map fst (AList.delete (tx_nonce t) items))" by simp
  with that t p show thesis by blast
qed

lemma sm_forward_loop_correct:
  assumes "it_ok items" "heap_ok nonce_less index" "mset index = mset (map fst items)"
  shows "\<exists>items' index'. sm_forward_loop th items index removed
       = Some (items', index', removed @ map Some (takeWhile (\<lambda>t. tx_nonce t < th) (srt items)))
     \<and> it_ok items' \<and> heap_ok nonce_less index' \<and> mset index' = mset (map fst items')
     \<and> srt items' = dropWhile (\<lambda>t. tx_nonce t < th) (srt items)"
  using assms
proof (induction "length index" arbitrary: items index removed rule: less_induct)
  case less
  show ?case
  proof (cases "index = []")
    case True
    with less.prems(3) have "items = []" by simp
    with True less.prems show ?thesis by (simp add: sm_forward_loop.simps)
  next
    case False
    obtain t ts index' where t: "srt items = t # ts" "index ! 0 = tx_nonce t"
      "heap_Pop nonce_less index = Some (tx_nonce t, index')" "heap_ok nonce_less index'"
      "mset index' = mset (map fst (AList.delete (tx_nonce t) items))"
      using index_pop [OF less.prems False] by blast
    note del = srt_Cons_delete [OF less.prems(1) t(1)]
    show ?thesis
    proof (cases "tx_nonce t < th")
      case True
      have "length index' < length index" using length_heap_Pop [OF t(3)] by simp
      from less.hyps [OF this _ t(4,5), of "removed @ [Some t]"] less.prems(1) del t True False
      show ?thesis by (simp add: sm_forward_loop.simps [of th items index])
    next
      case False
      then show ?thesis using less.prems t by (simp add: sm_forward_loop.simps [of th items index])
    qed
  qed
qed

lemma sm_ready_loop_correct:
  assumes "it_ok items" "heap_ok nonce_less index" "mset index = mset (map fst items)"
  shows "\<exists>items' index'. sm_ready_loop nxt items index ready
       = Some (items', index', ready @ map Some (take (consecutive nxt (srt items)) (srt items)))
     \<and> it_ok items' \<and> heap_ok nonce_less index' \<and> mset index' = mset (map fst items')
     \<and> srt items' = drop (consecutive nxt (srt items)) (srt items)"
  using assms
proof (induction "length index" arbitrary: nxt items index ready rule: less_induct)
  case less
  show ?case
  proof (cases "index = []")
    case True
    with less.prems(3) have "items = []" by simp
    with True less.prems show ?thesis by (simp add: sm_ready_loop.simps)
  next
    case False
    obtain t ts index' where t: "srt items = t # ts" "index ! 0 = tx_nonce t"
      "heap_Pop nonce_less index = Some (tx_nonce t, index')" "heap_ok nonce_less index'"
      "mset index' = mset (map fst (AList.delete (tx_nonce t) items))"
      using index_pop [OF less.prems False] by blast
    note del = srt_Cons_delete [OF less.prems(1) t(1)]
    show ?thesis
    proof (cases "tx_nonce t = nxt")
      case True
      have "length index' < length index" using length_heap_Pop [OF t(3)] by simp
      from less.hyps [OF this _ t(4,5), of "nxt + 1" "ready @ [Some t]"] less.prems(1) del t True False
      show ?thesis by (simp add: sm_ready_loop.simps [of nxt items index])
    next
      case False
      then show ?thesis using less.prems t by (simp add: sm_ready_loop.simps [of nxt items index])
    qed
  qed
qed

text \<open>Each operation against the abstract list.\<close>

lemma sm_invD:
  assumes "sm_inv m"
  shows "it_ok (sm_items m)" "heap_ok nonce_less (sm_index m)"
    "mset (sm_index m) = mset (map fst (sm_items m))"
    "sm_cache m = Some c \<Longrightarrow> c = sm_abs m"
  using assms by (auto simp: sm_inv_def)

lemma sm_invI [intro]:
  "it_ok items \<Longrightarrow> heap_ok nonce_less index \<Longrightarrow> mset index = mset (map fst items)
     \<Longrightarrow> (\<And>c. cache = Some c \<Longrightarrow> c = srt items)
     \<Longrightarrow> sm_inv (m\<lparr>sm_items := items, sm_index := index, sm_cache := cache\<rparr>)"
  by (auto simp: sm_inv_def sm_abs_def)

lemma sm_new_inv: "sm_inv newTxSortedMap" "sm_abs newTxSortedMap = []"
  by (simp_all add: sm_inv_def newTxSortedMap_def sm_abs_def)

lemma sm_abs_strict:
  "sm_inv m \<Longrightarrow> sorted (map tx_nonce (sm_abs m)) \<and> distinct (map tx_nonce (sm_abs m))"
  by (simp add: sm_abs_def sorted_srt distinct_srt sm_invD)

lemma sm_Get_abs: "sm_inv m \<Longrightarrow> sm_Get m n = Some t \<longleftrightarrow> t \<in> set (sm_abs m) \<and> tx_nonce t = n"
  using lookup_srt [of "sm_items m" n t] in_srt [of "sm_items m" t]
  by (auto simp: sm_Get_def sm_abs_def sm_invD)

lemma in_sm_abs: "sm_inv m \<Longrightarrow> t \<in> set (sm_abs m) \<longleftrightarrow> sm_Get m (tx_nonce t) = Some t"
  by (simp add: sm_Get_abs)

lemma sm_Get_None: "sm_inv m \<Longrightarrow> sm_Get m n = None \<longleftrightarrow> n \<notin> tx_nonce ` set (sm_abs m)"
  using sm_Get_abs [of m n] by (metis (no_types, lifting) imageE image_eqI not_None_eq)

lemma sm_Len_abs: "sm_Len m = length (sm_abs m)"
  by (simp add: sm_Len_def sm_abs_def)

lemma sm_Put_inv:
  assumes "sm_inv m"
  shows "sm_inv (sm_Put m t)"
proof -
  let ?n = "tx_nonce t" and ?items = "AList.update (tx_nonce t) t (sm_items m)"
  note inv = sm_invD [OF assms]
  have "heap_ok nonce_less (sm_index (sm_Put m t))"
    by (simp add: sm_Put_def Let_def inv nonce_heap.heap_Push_ok)
  moreover have "mset (sm_index (sm_Put m t)) = mset (map fst ?items)"
  proof (cases "map_of (sm_items m) ?n")
    case None
    then show ?thesis
      using arg_cong [OF mset_update_new [OF None, of t], of "image_mset fst"]
      by (simp add: sm_Put_def Let_def inv nonce_heap.heap_Push_mset)
  next
    case (Some t')
    then have "?n \<in> fst ` set (sm_items m)" by (metis domI dom_map_of_conv_image_fst)
    then show ?thesis using Some by (simp add: sm_Put_def Let_def inv AList.update_keys)
  qed
  moreover have "it_ok ?items" using inv by blast
  ultimately show ?thesis by (simp add: sm_inv_def sm_Put_def Let_def)
qed

lemma sm_Put_Get: "sm_Get (sm_Put m t) n = (if n = tx_nonce t then Some t else sm_Get m n)"
  by (simp add: sm_Get_def sm_Put_def Let_def alist_simps)

lemma sm_Put_set:
  assumes "sm_inv m"
  shows "set (sm_abs (sm_Put m t)) = insert t {x \<in> set (sm_abs m). tx_nonce x \<noteq> tx_nonce t}"
  by (auto simp: in_sm_abs [OF sm_Put_inv [OF assms, of t]] in_sm_abs [OF assms] sm_Put_Get
      split: if_splits)

lemma sm_Put_abs:
  assumes "sm_inv m"
  shows "sm_abs (sm_Put m t) = insort_key tx_nonce t (filter (\<lambda>x. tx_nonce x \<noteq> tx_nonce t) (sm_abs m))"
proof -
  note d = sm_abs_strict [OF assms]
  have "insort_key tx_nonce t (filter (\<lambda>x. tx_nonce x \<noteq> tx_nonce t) (sm_abs m))
      = srt (sm_items (sm_Put m t))"
  proof (rule srt_unique)
    show "it_ok (sm_items (sm_Put m t))" using sm_invD(1) [OF sm_Put_inv [OF assms]] .
    show "sorted (map tx_nonce (insort_key tx_nonce t (filter (\<lambda>x. tx_nonce x \<noteq> tx_nonce t) (sm_abs m))))"
      using d by (simp add: sorted_insort_key sorted_filter)
    have "distinct (tx_nonce t # map tx_nonce (filter (\<lambda>x. tx_nonce x \<noteq> tx_nonce t) (sm_abs m)))"
      using d by (auto simp: distinct_map_filter)
    moreover have "mset (map tx_nonce (insort_key tx_nonce t (filter (\<lambda>x. tx_nonce x \<noteq> tx_nonce t) (sm_abs m))))
      = mset (tx_nonce t # map tx_nonce (filter (\<lambda>x. tx_nonce x \<noteq> tx_nonce t) (sm_abs m)))"
      by simp
    ultimately show "distinct (map tx_nonce
        (insort_key tx_nonce t (filter (\<lambda>x. tx_nonce x \<noteq> tx_nonce t) (sm_abs m))))"
      using mset_eq_imp_distinct_iff by blast
    show "set (insort_key tx_nonce t (filter (\<lambda>x. tx_nonce x \<noteq> tx_nonce t) (sm_abs m)))
        = set (srt (sm_items (sm_Put m t)))"
      using sm_Put_set [OF assms, of t] by (simp add: sm_abs_def set_insort_key)
  qed
  then show ?thesis by (simp add: sm_abs_def)
qed

lemma sm_Forward_correct:
  assumes "sm_inv m"
  shows "\<exists>m'. sm_Forward m th = Some (m', map Some (takeWhile (\<lambda>t. tx_nonce t < th) (sm_abs m)))
     \<and> sm_inv m' \<and> sm_abs m' = dropWhile (\<lambda>t. tx_nonce t < th) (sm_abs m)"
proof -
  let ?P = "\<lambda>t. tx_nonce t < th"
  note inv = sm_invD [OF assms]
  obtain items index where l: "sm_forward_loop th (sm_items m) (sm_index m) []
      = Some (items, index, map Some (takeWhile ?P (sm_abs m)))"
    "it_ok items" "heap_ok nonce_less index" "mset index = mset (map fst items)"
    "srt items = dropWhile ?P (sm_abs m)"
    using sm_forward_loop_correct [OF inv(1,2,3), of th "[]"] by (auto simp: sm_abs_def)
  have drop: "drop (length (takeWhile ?P xs)) xs = dropWhile ?P xs" for xs
    by (metis dropWhile_eq_drop)
  have len: "length (takeWhile ?P xs) \<le> length xs" for xs by (rule length_takeWhile_le)
  show ?thesis
  proof (cases "sm_cache m")
    case None
    then show ?thesis using l by (auto simp: sm_Forward_def sm_abs_def intro!: sm_invI)
  next
    case (Some c)
    then have "c = sm_abs m" using inv by simp
    then show ?thesis using l Some drop [of "sm_abs m"] len [of "sm_abs m"]
      by (auto simp: sm_Forward_def slice_from_def intro!: sm_invI) (simp add: sm_abs_def)
  qed
qed

lemma sm_Filter_correct:
  assumes "sm_inv m"
  shows "sm_inv (fst (sm_Filter m f)) \<and> sm_abs (fst (sm_Filter m f)) = filter (\<lambda>t. \<not> f t) (sm_abs m)
     \<and> mset (snd (sm_Filter m f)) = mset (filter f (sm_abs m))"
proof -
  let ?keep = "filter (\<lambda>p. \<not> f (snd p)) (sm_items m)"
  note inv = sm_invD [OF assms]
  have rem: "map snd (filter (\<lambda>p. f (snd p)) (sm_items m)) = filter f (map snd (sm_items m))"
    by (simp add: filter_map o_def)
  have keep: "srt ?keep = filter (\<lambda>t. \<not> f t) (sm_abs m)"
    by (simp add: sm_abs_def srt_filter [of "\<lambda>t. \<not> f t"])
  have ms: "mset (filter f (map snd (sm_items m))) = mset (filter f (sm_abs m))"
    by (simp add: sm_abs_def srt_def)
  show ?thesis
  proof (cases "filter f (map snd (sm_items m)) = []")
    case True
    then have "filter f (sm_abs m) = []" "filter (\<lambda>t. \<not> f t) (sm_abs m) = sm_abs m"
      by (auto simp: filter_empty_conv sm_abs_def set_srt filter_id_conv)
    with True assms rem show ?thesis by (simp add: sm_Filter_def)
  next
    case False
    have "sm_inv (m\<lparr>sm_items := ?keep, sm_index := heap_Init nonce_less (map fst ?keep), sm_cache := None\<rparr>)"
      using inv by (intro sm_invI) (auto simp: nonce_heap.heap_Init_ok nonce_heap.heap_Init_mset)
    with False rem keep ms show ?thesis by (simp add: sm_Filter_def sm_abs_def Let_def)
  qed
qed

lemma sm_cap_loop_correct:
  assumes "it_ok items" "srt items = take k xs" "k \<le> length xs" "0 \<le> th"
    "distinct (map tx_nonce xs)"
  shows "\<exists>items'. sm_cap_loop th k (map tx_nonce xs) items drops
       = Some (items', drops @ map Some (rev (drop (nat th) (take k xs))))
     \<and> it_ok items' \<and> srt items' = take (min k (nat th)) xs"
  using assms
proof (induction k arbitrary: items drops)
  case 0
  then show ?case by simp
next
  case (Suc k)
  show ?case
  proof (cases "int (Suc k) > th")
    case False
    then have "Suc k \<le> nat th" by linarith
    then show ?thesis using Suc.prems False by (simp add: min_def)
  next
    case True
    let ?t = "xs ! k"
    have k: "k < length xs" using Suc.prems(3) by simp
    then have snoc: "take (Suc k) xs = take k xs @ [?t]" by (rule take_Suc_conv_app_nth)
    have lk: "map_of items (tx_nonce ?t) = Some ?t"
      using in_srt [OF Suc.prems(1), of ?t] Suc.prems(2) snoc by simp
    have fresh: "tx_nonce ?t \<notin> tx_nonce ` set (take k xs)"
      using Suc.prems(5) k distinct_take [of "map tx_nonce xs" "Suc k"]
      by (simp add: take_map take_Suc_conv_app_nth)
    have "srt (AList.delete (tx_nonce ?t) items) = take k xs"
      using Suc.prems(1,2) snoc fresh by (auto simp: srt_delete image_iff intro!: filter_True)
    from Suc.IH [OF _ this _ Suc.prems(4,5), of "drops @ [Some ?t]"] obtain items' where
      "sm_cap_loop th k (map tx_nonce xs) (AList.delete (tx_nonce ?t) items) (drops @ [Some ?t])
         = Some (items', (drops @ [Some ?t]) @ map Some (rev (drop (nat th) (take k xs))))"
      "it_ok items'" "srt items' = take (min k (nat th)) xs"
      using Suc.prems(1) k by auto
    moreover have "nat th \<le> k" using True by linarith
    ultimately show ?thesis using True k lk snoc
      by (auto simp: slice_at_def min_def)
  qed
qed

lemma index_sorted:
  assumes "sm_inv m"
  shows "sort (sm_index m) = map tx_nonce (sm_abs m)"
proof (rule properties_for_sort)
  show "mset (map tx_nonce (sm_abs m)) = mset (sm_index m)"
    using nonces_srt sm_invD [OF assms] by (metis sm_abs_def)
qed (simp add: sm_abs_def sorted_srt)

lemma cap_cache:
  assumes "\<And>c. cache = Some c \<Longrightarrow> c = xs" "k \<le> length xs"
  shows "\<exists>cache'. (case cache of None \<Rightarrow> Some None
        | Some c \<Rightarrow> map_option Some (slice_to c (int (length c) - int (length xs - k)))) = Some cache'
     \<and> (\<forall>c. cache' = Some c \<longrightarrow> c = take k xs)"
  using assms by (cases cache) (auto simp: slice_to_def of_nat_diff)

lemma sm_Cap_correct:
  assumes "sm_inv m" "0 \<le> th"
  shows "\<exists>m'. sm_Cap m th = Some (m', map Some (rev (drop (nat th) (sm_abs m))))
     \<and> sm_inv m' \<and> sm_abs m' = take (nat th) (sm_abs m)"
proof (cases "int (length (sm_items m)) \<le> th")
  case True
  then have "length (sm_abs m) \<le> nat th" by (simp add: sm_abs_def)
  then show ?thesis using True assms(1) by (simp add: sm_Cap_def)
next
  case False
  note inv = sm_invD [OF assms(1)]
  define xs where "xs = sm_abs m"
  have n: "length (sm_items m) = length xs" by (simp add: sm_abs_def xs_def)
  have lt: "nat th < length xs" using False n assms(2) by linarith
  have "srt (sm_items m) = take (length xs) xs" "distinct (map tx_nonce xs)"
    using sm_abs_strict [OF assms(1)] by (simp_all add: xs_def sm_abs_def)
  then obtain items where l: "sm_cap_loop th (length xs) (map tx_nonce xs) (sm_items m) []
      = Some (items, map Some (rev (drop (nat th) xs)))" "it_ok items" "srt items = take (nat th) xs"
    using sm_cap_loop_correct [OF inv(1), of "length xs" xs th "[]"] assms(2) lt
    by (auto simp: min_def)
  have idx: "slice_to (map tx_nonce xs) th = Some (map tx_nonce (take (nat th) xs))"
    using assms(2) lt by (simp add: slice_to_def take_map)
  have ms: "mset (heap_Init nonce_less (map tx_nonce (take (nat th) xs))) = mset (map fst items)"
    using nonces_srt [OF l(2)] l(3) by (simp add: nonce_heap.heap_Init_mset)
  have "\<And>c. sm_cache m = Some c \<Longrightarrow> c = xs" using inv(4) by (simp add: xs_def)
  then obtain cache where c: "(case sm_cache m of None \<Rightarrow> Some None
        | Some c \<Rightarrow> map_option Some (slice_to c (int (length c) - int (length xs - nat th)))) = Some cache"
    "\<And>c. cache = Some c \<Longrightarrow> c = take (nat th) xs"
    using cap_cache [of "sm_cache m" xs "nat th"] lt by auto
  let ?m = "m\<lparr>sm_items := items, sm_index := heap_Init nonce_less (map tx_nonce (take (nat th) xs)),
    sm_cache := cache\<rparr>"
  have "sm_Cap m th = Some (?m, map Some (rev (drop (nat th) xs)))"
    using False l(1) idx c(1)
    by (simp add: sm_Cap_def index_sorted [OF assms(1)] n cong: option.case_cong flip: xs_def)
  moreover have "sm_inv ?m" using l ms c(2) nonce_heap.heap_Init_ok by (intro sm_invI) auto
  moreover have "sm_abs ?m = take (nat th) xs" using l(3) by (simp add: sm_abs_def)
  ultimately show ?thesis unfolding xs_def by blast
qed

lemma sm_cap_loop_negative: "th < 0 \<Longrightarrow> sm_cap_loop th k index items drops = None"
  by (induction th k index items drops rule: sm_cap_loop.induct) (auto split: option.splits)

lemma sm_Cap_negative: "th < 0 \<Longrightarrow> sm_Cap m th = None"
  by (simp add: sm_Cap_def sm_cap_loop_negative)

lemma sm_Remove_correct:
  assumes "sm_inv m"
  shows "\<exists>m'. sm_Remove m n = Some (m', sm_Get m n \<noteq> None)
     \<and> sm_inv m' \<and> sm_abs m' = filter (\<lambda>t. tx_nonce t \<noteq> n) (sm_abs m)"
proof (cases "map_of (sm_items m) n")
  case None
  then have "filter (\<lambda>t. tx_nonce t \<noteq> n) (sm_abs m) = sm_abs m"
    using sm_Get_None [OF assms, of n] by (auto simp: sm_Get_def filter_id_conv)
  with None assms show ?thesis by (simp add: sm_Remove_def sm_Get_def)
next
  case (Some t)
  note inv = sm_invD [OF assms]
  let ?i = "length (takeWhile (\<lambda>k. k \<noteq> n) (sm_index m))"
  have "n \<in> fst ` set (sm_items m)" using Some by (metis domI dom_map_of_conv_image_fst)
  then have "n \<in> set (sm_index m)" using inv(3) by (metis list.set_map set_mset_mset)
  then have i: "?i < length (sm_index m)" "sm_index m ! ?i = n"
    using takeWhile_hit [of n "sm_index m"] by simp_all
  obtain index where p: "heap_Remove nonce_less (sm_index m) ?i = Some (n, index)"
    "heap_ok nonce_less index" "mset (sm_index m) = add_mset n (mset index)"
    using nonce_heap.heap_Remove_ok [OF inv(2) i(1)] i(2) by metis
  have "mset (map fst (sm_items m)) = add_mset n (mset (map fst (AList.delete n (sm_items m))))"
    using inv(1) Some by (intro mset_keys_delete) (auto simp: it_ok_def)
  with p(3) inv(3) have "mset index = mset (map fst (AList.delete n (sm_items m)))" by simp
  then show ?thesis using Some i p inv
    by (auto simp: sm_Remove_def sm_Get_def sm_abs_def srt_delete intro!: sm_invI)
qed

text \<open>How many transactions \<open>Ready\<close> hands out.\<close>

definition ready_count :: "u64 \<Rightarrow> tx list \<Rightarrow> nat" where
  "ready_count start xs =
     (case xs of [] \<Rightarrow> 0 | t # _ \<Rightarrow> if tx_nonce t > start then 0 else consecutive (tx_nonce t) xs)"

lemma sm_Ready_correct:
  assumes "sm_inv m"
  shows "\<exists>m'. sm_Ready m start = Some (m', map Some (take (ready_count start (sm_abs m)) (sm_abs m)))
     \<and> sm_inv m' \<and> sm_abs m' = drop (ready_count start (sm_abs m)) (sm_abs m)"
proof (cases "sm_index m = []")
  case True
  with sm_invD(3) [OF assms] have "sm_abs m = []" by (simp add: sm_abs_def)
  then show ?thesis using True assms by (simp add: sm_Ready_def ready_count_def)
next
  case False
  note inv = sm_invD [OF assms]
  obtain t ts where t: "sm_abs m = t # ts" "sm_index m ! 0 = tx_nonce t"
    using index_head [OF inv(1,2,3) False] by (metis sm_abs_def)
  show ?thesis
  proof (cases "tx_nonce t > start")
    case True
    then show ?thesis using False t assms by (simp add: sm_Ready_def ready_count_def)
  next
    case le: False
    obtain items index where
      "sm_ready_loop (tx_nonce t) (sm_items m) (sm_index m) []
         = Some (items, index, map Some (take (consecutive (tx_nonce t) (sm_abs m)) (sm_abs m)))"
      "it_ok items" "heap_ok nonce_less index" "mset index = mset (map fst items)"
      "srt items = drop (consecutive (tx_nonce t) (sm_abs m)) (sm_abs m)"
      using sm_ready_loop_correct [OF inv(1,2,3), of "tx_nonce t" "[]"] by (auto simp: sm_abs_def)
    moreover have "ready_count start (sm_abs m) = consecutive (tx_nonce t) (sm_abs m)"
      using le t by (simp add: ready_count_def)
    ultimately show ?thesis using False le t(2)
      by (auto simp: sm_Ready_def sm_abs_def intro!: sm_invI)
  qed
qed

lemma sm_Flatten_correct:
  assumes "sm_inv m"
  shows "snd (sm_Flatten m) = sm_abs m \<and> sm_inv (fst (sm_Flatten m))
     \<and> sm_abs (fst (sm_Flatten m)) = sm_abs m"
  using assms by (auto simp: sm_Flatten_def sm_inv_def sm_abs_def srt_def Let_def split: option.splits)

lemmas sm_specs = sm_Put_inv sm_Forward_correct sm_Filter_correct sm_Cap_correct sm_Remove_correct
  sm_Ready_correct sm_Flatten_correct

end
