(* ===== verification/Tx_List.thy ===== *)
theory Tx_List
  imports Tx_Sorted_Map
begin

text \<open>
  \<open>core/tx_list.go\<close>, second part: \<open>txList\<close>, the sorted map with its cost and gas caps and
  its strict mode, in which the pool keeps the executable transactions of an account.
\<close>

section \<open>Operations\<close>

record txList =
  tl_strict :: bool
  tl_txs :: txSortedMap
  tl_costcap :: int
  tl_gascap :: int

definition newTxList :: "bool \<Rightarrow> txList" where
  "newTxList strict = \<lparr>tl_strict = strict, tl_txs = newTxSortedMap, tl_costcap = 0, tl_gascap = 0\<rparr>"

definition tl_Overlaps :: "txList \<Rightarrow> tx \<Rightarrow> bool" where
  "tl_Overlaps l tx \<longleftrightarrow> sm_Get (tl_txs l) (tx_nonce tx) \<noteq> None"

text \<open>\<open>100+int64(priceBump)\<close> is a 64-bit signed sum.\<close>

definition bump_threshold :: "tx \<Rightarrow> u64 \<Rightarrow> int" where
  "bump_threshold old priceBump = tx_gasPrice old * sint (100 + priceBump) div 100"

definition tl_Add :: "txList \<Rightarrow> tx \<Rightarrow> u64 \<Rightarrow> txList \<times> bool \<times> tx option" where
  "tl_Add l tx priceBump =
     (let old = sm_Get (tl_txs l) (tx_nonce tx) in
      if (case old of None \<Rightarrow> False | Some t \<Rightarrow> bump_threshold t priceBump \<ge> tx_gasPrice tx)
      then (l, False, None)
      else (l\<lparr>tl_txs := sm_Put (tl_txs l) tx,
              tl_costcap := (if tl_costcap l < tx_cost tx then tx_cost tx else tl_costcap l),
              tl_gascap := (if tl_gascap l < tx_gasLimit tx then tx_gasLimit tx else tl_gascap l)\<rparr>,
            True, old))"

definition tl_Forward :: "txList \<Rightarrow> u64 \<Rightarrow> (txList \<times> tx option list) go" where
  "tl_Forward l threshold = do {
     (m, removed) \<leftarrow> sm_Forward (tl_txs l) threshold;
     Some (l\<lparr>tl_txs := m\<rparr>, removed)
   }"

text \<open>The scan for the lowest removed nonce starts from \<open>math.MaxUint64\<close>.\<close>

definition lowest_nonce :: "tx list \<Rightarrow> u64" where
  "lowest_nonce removed =
     fold (\<lambda>tx lowest. if lowest > tx_nonce tx then tx_nonce tx else lowest) removed (- 1)"

definition tl_Filter :: "txList \<Rightarrow> int \<Rightarrow> int \<Rightarrow> txList \<times> tx list \<times> tx list" where
  "tl_Filter l costLimit gasLimit =
     (if tl_costcap l \<le> costLimit \<and> tl_gascap l \<le> gasLimit then (l, [], [])
      else
        let (m, removed) = sm_Filter (tl_txs l)
              (\<lambda>tx. tx_cost tx > costLimit \<or> tx_gasLimit tx > gasLimit);
            (m', invalids) =
              (if tl_strict l \<and> removed \<noteq> []
               then sm_Filter m (\<lambda>tx. tx_nonce tx > lowest_nonce removed)
               else (m, []))
        in (l\<lparr>tl_txs := m', tl_costcap := costLimit, tl_gascap := gasLimit\<rparr>, removed, invalids))"

definition tl_Cap :: "txList \<Rightarrow> int \<Rightarrow> (txList \<times> tx option list) go" where
  "tl_Cap l threshold = do {
     (m, drops) \<leftarrow> sm_Cap (tl_txs l) threshold;
     Some (l\<lparr>tl_txs := m\<rparr>, drops)
   }"

definition tl_Remove :: "txList \<Rightarrow> tx \<Rightarrow> (txList \<times> bool \<times> tx list) go" where
  "tl_Remove l tx = do {
     (m, removed) \<leftarrow> sm_Remove (tl_txs l) (tx_nonce tx);
     if \<not> removed then Some (l\<lparr>tl_txs := m\<rparr>, False, [])
     else if tl_strict l
     then (let (m', invalids) = sm_Filter m (\<lambda>t. tx_nonce t > tx_nonce tx)
           in Some (l\<lparr>tl_txs := m'\<rparr>, True, invalids))
     else Some (l\<lparr>tl_txs := m\<rparr>, True, [])
   }"

definition tl_Ready :: "txList \<Rightarrow> u64 \<Rightarrow> (txList \<times> tx option list) go" where
  "tl_Ready l start = do {
     (m, ready) \<leftarrow> sm_Ready (tl_txs l) start;
     Some (l\<lparr>tl_txs := m\<rparr>, ready)
   }"

definition tl_Len :: "txList \<Rightarrow> nat" where
  "tl_Len l = sm_Len (tl_txs l)"

definition tl_Empty :: "txList \<Rightarrow> bool" where
  "tl_Empty l \<longleftrightarrow> tl_Len l = 0"

definition tl_Flatten :: "txList \<Rightarrow> txList \<times> tx list" where
  "tl_Flatten l = (let (m, txs) = sm_Flatten (tl_txs l) in (l\<lparr>tl_txs := m\<rparr>, txs))"

section \<open>The capped list\<close>

text \<open>
  \<open>costcap\<close> and \<open>gascap\<close> bound every stored transaction, which is what lets \<open>Filter\<close>
  return at once when both caps are within the limits.
\<close>

definition tl_abs :: "txList \<Rightarrow> tx list" where
  "tl_abs l = sm_abs (tl_txs l)"

definition tl_inv :: "txList \<Rightarrow> bool" where
  "tl_inv l \<longleftrightarrow> sm_inv (tl_txs l)
     \<and> (\<forall>t\<in>set (tl_abs l). tx_cost t \<le> tl_costcap l \<and> tx_gasLimit t \<le> tl_gascap l)"

definition affordable :: "int \<Rightarrow> int \<Rightarrow> tx \<Rightarrow> bool" where
  "affordable costLimit gasLimit t \<longleftrightarrow> tx_cost t \<le> costLimit \<and> tx_gasLimit t \<le> gasLimit"

lemma tl_new_inv: "tl_inv (newTxList strict)" "tl_abs (newTxList strict) = []"
  by (simp_all add: tl_inv_def newTxList_def tl_abs_def sm_new_inv)

lemma tl_invD: "tl_inv l \<Longrightarrow> sm_inv (tl_txs l)"
  by (simp add: tl_inv_def)

lemma tl_inv_subset:
  "tl_inv l \<Longrightarrow> sm_inv m \<Longrightarrow> set (sm_abs m) \<subseteq> set (tl_abs l) \<Longrightarrow> tl_inv (l\<lparr>tl_txs := m\<rparr>)"
  by (auto simp: tl_inv_def tl_abs_def)

text \<open>In a nonce-sorted list, dropping the bad and everything above the lowest bad nonce
  leaves the longest good prefix.\<close>

lemma lowest_nonce_Min: "lowest_nonce ts = Min (insert (- 1) (tx_nonce ` set ts))"
proof -
  have "lowest_nonce ts = fold min (map tx_nonce ts) (- 1)"
    by (simp add: lowest_nonce_def fold_map o_def)
       (intro fold_cong, auto simp: min_def fun_eq_iff not_le)
  also have "\<dots> = Min (set (- 1 # map tx_nonce ts))" by (rule Min.set_eq_fold [symmetric])
  finally show ?thesis by simp
qed

lemma lowest_nonce_le: "t \<in> set ts \<Longrightarrow> lowest_nonce ts \<le> tx_nonce t"
  by (simp add: lowest_nonce_Min)

lemma lowest_nonce_in:
  assumes "ts \<noteq> []"
  shows "lowest_nonce ts \<in> tx_nonce ` set ts"
proof -
  obtain t where t: "t \<in> set ts" using assms by (meson hd_in_set)
  have "lowest_nonce ts \<in> insert (- 1) (tx_nonce ` set ts)"
    unfolding lowest_nonce_Min by (rule Min_in) simp_all
  moreover have "tx_nonce t = - 1" if "lowest_nonce ts = - 1"
    using lowest_nonce_le [OF t] that word_order.extremum_unique [of "tx_nonce t"] by simp
  ultimately show ?thesis using t by (metis image_eqI insert_iff)
qed

lemma sorted_prefix_cut:
  assumes "sorted (map tx_nonce xs)" "distinct (map tx_nonce xs)"
    "b \<in> set xs" "\<not> P b" "\<And>t. t \<in> set xs \<Longrightarrow> \<not> P t \<Longrightarrow> tx_nonce b \<le> tx_nonce t"
  shows "filter (\<lambda>t. \<not> tx_nonce t > tx_nonce b) (filter P xs) = takeWhile P xs
    \<and> filter (\<lambda>t. tx_nonce t > tx_nonce b) (filter P xs) = filter P (dropWhile P xs)"
  using assms
proof (induction xs)
  case (Cons x xs)
  have above: "tx_nonce x < tx_nonce t" if "t \<in> set xs" for t
    using Cons.prems(1,2) that by (force simp: order_less_le)
  show ?case
  proof (cases "P x")
    case True
    then have b: "b \<in> set xs" using Cons.prems(3,4) by auto
    then have "\<not> tx_nonce b < tx_nonce x" using above [OF b] by simp
    with True Cons.IH Cons.prems b show ?thesis by simp
  next
    case False
    then have "tx_nonce b \<le> tx_nonce x" using Cons.prems(5) [of x] by simp
    then have bx: "tx_nonce b < tx_nonce t" if "t \<in> set xs" for t using above [OF that] by simp
    have "filter (\<lambda>t. \<not> tx_nonce t > tx_nonce b) (filter P xs) = []"
      by (rule filter_False) (simp add: bx)
    moreover have "filter (\<lambda>t. tx_nonce t > tx_nonce b) (filter P xs) = filter P xs"
      by (rule filter_True) (simp add: bx)
    ultimately show ?thesis using False by simp
  qed
qed simp

lemma affordable_not: "(tx_cost t > C \<or> tx_gasLimit t > G) \<longleftrightarrow> \<not> affordable C G t"
  by (auto simp: affordable_def)

lemma tl_Filter_short:
  assumes "tl_inv l" "tl_costcap l \<le> C" "tl_gascap l \<le> G" "t \<in> set (tl_abs l)"
  shows "affordable C G t"
  using assms by (auto simp: tl_inv_def affordable_def intro: order_trans)

lemma all_good:
  assumes "\<forall>t\<in>set xs. P t"
  shows "takeWhile P xs = xs" "dropWhile P xs = []" "filter P xs = xs" "filter (\<lambda>t. \<not> P t) xs = []"
  using assms by (simp_all add: takeWhile_eq_all_conv)

lemma lowest_bad:
  assumes "mset removed = mset (filter (\<lambda>t. \<not> P t) xs)" "removed \<noteq> []"
  shows "\<exists>b. b \<in> set xs \<and> \<not> P b \<and> lowest_nonce removed = tx_nonce b
    \<and> (\<forall>t\<in>set xs. \<not> P t \<longrightarrow> tx_nonce b \<le> tx_nonce t)"
proof -
  have s: "set removed = {t \<in> set xs. \<not> P t}" using mset_eq_setD [OF assms(1)] by simp
  obtain b where "b \<in> set removed" "lowest_nonce removed = tx_nonce b"
    using lowest_nonce_in [OF assms(2)] by auto
  then show ?thesis using s lowest_nonce_le [of _ removed] by auto
qed

text \<open>
  \<open>Filter\<close> in strict mode: what stays is the longest affordable prefix; what is returned is the
  unaffordable, and the affordable stranded behind it.
\<close>

lemma tl_Filter_inv:
  assumes "tl_inv l"
  shows "tl_inv (fst (tl_Filter l C G))"
proof (cases "tl_costcap l \<le> C \<and> tl_gascap l \<le> G")
  case False
  let ?bad = "\<lambda>tx. tx_cost tx > C \<or> tx_gasLimit tx > G"
  obtain m removed where m: "sm_Filter (tl_txs l) ?bad = (m, removed)" by force
  have f: "sm_inv m" "sm_abs m = filter (\<lambda>t. \<not> ?bad t) (tl_abs l)"
    using sm_Filter_correct [OF tl_invD [OF assms], of ?bad] m by (simp_all add: tl_abs_def)
  let ?up = "\<lambda>t. tx_nonce t > lowest_nonce removed"
  note g = sm_Filter_correct [OF f(1), of ?up]
  show ?thesis using False m f g
    by (auto simp: tl_Filter_def tl_inv_def tl_abs_def not_less Let_def split: prod.splits)
qed (simp add: tl_Filter_def assms)

lemma tl_Filter_strict_abs:
  assumes "tl_inv l" "tl_strict l" "tl_Filter l C G = (l', removed, invalids)"
  shows "tl_abs l' = takeWhile (affordable C G) (tl_abs l)
    \<and> mset removed = mset (filter (\<lambda>t. \<not> affordable C G t) (tl_abs l))
    \<and> mset invalids = mset (filter (affordable C G) (dropWhile (affordable C G) (tl_abs l)))"
proof (cases "tl_costcap l \<le> C \<and> tl_gascap l \<le> G")
  case True
  then have "\<forall>t\<in>set (tl_abs l). affordable C G t" using tl_Filter_short [OF assms(1)] by blast
  then show ?thesis using True assms(3) by (auto simp: tl_Filter_def all_good)
next
  case False
  let ?P = "affordable C G" and ?xs = "tl_abs l"
  obtain m rm where m: "sm_Filter (tl_txs l) (\<lambda>t. \<not> ?P t) = (m, rm)" by force
  have f: "sm_inv m" "sm_abs m = filter ?P ?xs" "mset rm = mset (filter (\<lambda>t. \<not> ?P t) ?xs)"
    using sm_Filter_correct [OF tl_invD [OF assms(1)], of "\<lambda>t. \<not> ?P t"] m
    by (simp_all add: tl_abs_def)
  show ?thesis
  proof (cases "rm = []")
    case True
    then have "filter (\<lambda>t. \<not> ?P t) ?xs = []" using f(3) by simp
    then have "\<forall>t\<in>set ?xs. ?P t" by (simp add: filter_empty_conv)
    then show ?thesis using True False assms(2,3) m f
      by (auto simp: tl_Filter_def affordable_not tl_abs_def all_good)
  next
    case ne: False
    obtain b where b: "b \<in> set ?xs" "\<not> ?P b" "lowest_nonce rm = tx_nonce b"
      "\<And>t. t \<in> set ?xs \<Longrightarrow> \<not> ?P t \<Longrightarrow> tx_nonce b \<le> tx_nonce t"
      using lowest_bad [OF f(3) ne] by auto
    have "sorted (map tx_nonce ?xs)" "distinct (map tx_nonce ?xs)"
      using sm_abs_strict [OF tl_invD [OF assms(1)]] by (simp_all add: tl_abs_def)
    note cut = sorted_prefix_cut [where P = ?P, OF this b(1,2,4)]
    note g = sm_Filter_correct [OF f(1), of "\<lambda>t. tx_nonce t > tx_nonce b"]
    show ?thesis using False ne assms(2,3) m f(3) b(3) g [unfolded f(2)] cut
      by (auto simp: tl_Filter_def affordable_not tl_abs_def simp del: mset_filter filter_filter
          split: prod.splits)
  qed
qed

lemma tl_Filter_gapped_abs:
  assumes "tl_inv l" "\<not> tl_strict l" "tl_Filter l C G = (l', removed, invalids)"
  shows "tl_abs l' = filter (affordable C G) (tl_abs l)
    \<and> mset removed = mset (filter (\<lambda>t. \<not> affordable C G t) (tl_abs l)) \<and> invalids = []"
proof (cases "tl_costcap l \<le> C \<and> tl_gascap l \<le> G")
  case True
  then have "\<forall>t\<in>set (tl_abs l). affordable C G t" using tl_Filter_short [OF assms(1)] by blast
  then show ?thesis using True assms(3) by (auto simp: tl_Filter_def all_good)
next
  case False
  then show ?thesis
    using sm_Filter_correct [OF tl_invD [OF assms(1)], of "\<lambda>t. \<not> affordable C G t"] assms(2,3)
    by (auto simp: tl_Filter_def affordable_not tl_abs_def split: prod.splits)
qed

text \<open>The other operations, through the sorted map.\<close>

lemma tl_Forward_correct:
  assumes "tl_inv l"
  shows "\<exists>l'. tl_Forward l th = Some (l', map Some (takeWhile (\<lambda>t. tx_nonce t < th) (tl_abs l)))
     \<and> tl_inv l' \<and> tl_abs l' = dropWhile (\<lambda>t. tx_nonce t < th) (tl_abs l) \<and> tl_strict l' = tl_strict l"
proof -
  obtain m where "sm_Forward (tl_txs l) th
      = Some (m, map Some (takeWhile (\<lambda>t. tx_nonce t < th) (tl_abs l)))"
    "sm_inv m" "sm_abs m = dropWhile (\<lambda>t. tx_nonce t < th) (tl_abs l)"
    using sm_Forward_correct [OF tl_invD [OF assms], of th] by (auto simp: tl_abs_def)
  then show ?thesis using tl_inv_subset [OF assms, of m]
    by (auto simp: tl_Forward_def tl_abs_def dest: set_dropWhileD)
qed

lemma tl_Cap_correct:
  assumes "tl_inv l" "0 \<le> th"
  shows "\<exists>l'. tl_Cap l th = Some (l', map Some (rev (drop (nat th) (tl_abs l))))
     \<and> tl_inv l' \<and> tl_abs l' = take (nat th) (tl_abs l) \<and> tl_strict l' = tl_strict l"
proof -
  obtain m where "sm_Cap (tl_txs l) th = Some (m, map Some (rev (drop (nat th) (tl_abs l))))"
    "sm_inv m" "sm_abs m = take (nat th) (tl_abs l)"
    using sm_Cap_correct [OF tl_invD [OF assms(1)] assms(2)] by (auto simp: tl_abs_def)
  then show ?thesis using tl_inv_subset [OF assms(1), of m]
    by (auto simp: tl_Cap_def tl_abs_def dest: in_set_takeD)
qed

lemma tl_Ready_correct:
  assumes "tl_inv l"
  shows "\<exists>l'. tl_Ready l start
         = Some (l', map Some (take (ready_count start (tl_abs l)) (tl_abs l)))
     \<and> tl_inv l' \<and> tl_abs l' = drop (ready_count start (tl_abs l)) (tl_abs l) \<and> tl_strict l' = tl_strict l"
proof -
  obtain m where "sm_Ready (tl_txs l) start
      = Some (m, map Some (take (ready_count start (tl_abs l)) (tl_abs l)))"
    "sm_inv m" "sm_abs m = drop (ready_count start (tl_abs l)) (tl_abs l)"
    using sm_Ready_correct [OF tl_invD [OF assms], of start] by (auto simp: tl_abs_def)
  then show ?thesis using tl_inv_subset [OF assms, of m]
    by (auto simp: tl_Ready_def tl_abs_def dest: in_set_dropD)
qed

lemma tl_Remove_correct:
  assumes "tl_inv l"
  shows "\<exists>l' invalids. tl_Remove l tx = Some (l', tl_Overlaps l tx, invalids)
     \<and> tl_inv l' \<and> tl_strict l' = tl_strict l
     \<and> (if tl_strict l \<and> tl_Overlaps l tx
        then tl_abs l' = takeWhile (\<lambda>t. tx_nonce t \<noteq> tx_nonce tx) (tl_abs l)
           \<and> mset invalids = mset (filter (\<lambda>t. tx_nonce t > tx_nonce tx) (tl_abs l))
        else tl_abs l' = filter (\<lambda>t. tx_nonce t \<noteq> tx_nonce tx) (tl_abs l) \<and> invalids = [])"
proof -
  let ?n = "tx_nonce tx" and ?ne = "\<lambda>t. tx_nonce t \<noteq> tx_nonce tx"
  note inv = tl_invD [OF assms]
  obtain m where m: "sm_Remove (tl_txs l) ?n = Some (m, tl_Overlaps l tx)" "sm_inv m"
    "sm_abs m = filter ?ne (tl_abs l)"
    using sm_Remove_correct [OF inv, of ?n] by (auto simp: tl_abs_def tl_Overlaps_def)
  have sub: "set (sm_abs m) \<subseteq> set (tl_abs l)" using m(3) by auto
  show ?thesis
  proof (cases "tl_strict l \<and> tl_Overlaps l tx")
    case False
    then show ?thesis using m tl_inv_subset [OF assms m(2) sub]
      by (auto simp: tl_Remove_def tl_abs_def)
  next
    case True
    let ?f = "\<lambda>t. tx_nonce t > ?n"
    note g = sm_Filter_correct [OF m(2), of ?f]
    obtain b where b: "b \<in> set (tl_abs l)" "tx_nonce b = ?n"
      using True sm_Get_abs [OF inv, of ?n] by (auto simp: tl_Overlaps_def tl_abs_def)
    have "sorted (map tx_nonce (tl_abs l))" "distinct (map tx_nonce (tl_abs l))"
      using sm_abs_strict [OF inv] by (simp_all add: tl_abs_def)
    then have keep: "filter (\<lambda>t. \<not> ?f t) (sm_abs m) = takeWhile ?ne (tl_abs l)"
      using sorted_prefix_cut [of "tl_abs l" b ?ne] b m(3) by simp
    have "filter ?f (sm_abs m) = filter ?f (tl_abs l)"
      using m(3) by (auto intro: filter_cong)
    moreover have "tl_inv (l\<lparr>tl_txs := fst (sm_Filter m ?f)\<rparr>)"
      using g sub by (intro tl_inv_subset [OF assms]) auto
    ultimately show ?thesis using True m(1) g keep
      by (auto simp: tl_Remove_def tl_abs_def split: prod.splits)
  qed
qed

text \<open>\<open>Add\<close>: a transaction with a fresh nonce is stored; one that reuses a nonce replaces the
  old one exactly when it pays more than the bumped price.\<close>

lemma tl_Add_accept:
  "fst (snd (tl_Add l tx bump))
     \<longleftrightarrow> (\<forall>old. sm_Get (tl_txs l) (tx_nonce tx) = Some old \<longrightarrow> bump_threshold old bump < tx_gasPrice tx)"
  by (auto simp: tl_Add_def Let_def split: option.splits)

lemma tl_Add_inv:
  assumes "tl_inv l"
  shows "tl_inv (fst (tl_Add l tx bump))"
  using assms sm_Put_inv [of "tl_txs l" tx] sm_Put_set [of "tl_txs l" tx]
  by (fastforce simp: tl_Add_def Let_def tl_inv_def tl_abs_def)

lemma tl_Add_abs:
  assumes "tl_inv l"
  shows "tl_abs (fst (tl_Add l tx bump)) =
     (if fst (snd (tl_Add l tx bump))
      then insort_key tx_nonce tx (filter (\<lambda>x. tx_nonce x \<noteq> tx_nonce tx) (tl_abs l)) else tl_abs l)"
  using sm_Put_abs [OF tl_invD [OF assms], of tx] by (simp add: tl_Add_def Let_def tl_abs_def)

lemma tl_Flatten_correct:
  assumes "tl_inv l"
  shows "snd (tl_Flatten l) = tl_abs l \<and> tl_inv (fst (tl_Flatten l))
     \<and> tl_abs (fst (tl_Flatten l)) = tl_abs l"
  using sm_Flatten_correct [OF tl_invD [OF assms]] tl_inv_subset [OF assms]
  by (auto simp: tl_Flatten_def tl_abs_def split: prod.splits)

lemma tl_Filter_strict_flag: "tl_strict (fst (tl_Filter l C G)) = tl_strict l"
  by (simp add: tl_Filter_def split: prod.splits)

lemma sint_small_sum:
  fixes b :: u64
  assumes "uint b < 2 ^ 63 - 100"
  shows "sint (100 + b) = 100 + uint b"
proof -
  have "uint (100 + b) = 100 + uint b"
    using assms by (simp add: uint_word_ariths)
  then show ?thesis using assms by (simp add: sint_uint signed_take_bit_int_eq_self)
qed

section \<open>Reachable lists\<close>

text \<open>One step per call of the pool on a list.  A call that panics has no step, so that none of
  them panics is part of what is proved.\<close>

inductive tl_step :: "txList \<Rightarrow> txList \<Rightarrow> bool" where
  step_Add: "tl_step l (fst (tl_Add l tx bump))"
| step_Forward: "tl_Forward l th = Some (l', removed) \<Longrightarrow> tl_step l l'"
| step_Filter: "tl_step l (fst (tl_Filter l C G))"
| step_Cap: "tl_Cap l th = Some (l', drops) \<Longrightarrow> tl_step l l'"
| step_Remove: "tl_Remove l tx = Some (l', found, invalids) \<Longrightarrow> tl_step l l'"
| step_Ready: "tl_Ready l start = Some (l', ready) \<Longrightarrow> tl_step l l'"
| step_Flatten: "tl_step l (fst (tl_Flatten l))"

inductive_cases tl_stepE: "tl_step l l'"

lemma tl_Cap_negative: "th < 0 \<Longrightarrow> tl_Cap l th = None"
  by (simp add: tl_Cap_def sm_Cap_negative)

lemma tl_step_inv:
  assumes "tl_inv l" "tl_step l l'"
  shows "tl_inv l'"
  using assms(2)
proof (cases rule: tl_step.cases)
  case (step_Forward th removed)
  then show ?thesis using tl_Forward_correct [OF assms(1), of th] by auto
next
  case (step_Cap th drops)
  then have "0 \<le> th" using tl_Cap_negative [of th l] by fastforce
  then show ?thesis using step_Cap tl_Cap_correct [OF assms(1), of th] by auto
next
  case (step_Remove tx found invalids)
  then show ?thesis using tl_Remove_correct [OF assms(1), of tx] by auto
next
  case (step_Ready start ready)
  then show ?thesis using tl_Ready_correct [OF assms(1), of start] by auto
qed (use assms(1) in \<open>auto intro: tl_Add_inv tl_Filter_inv simp: tl_Flatten_correct\<close>)

interpretation txlist_machine: invariant_machine "\<lambda>l. \<exists>strict. l = newTxList strict" tl_step tl_inv
  by unfold_locales (auto simp: tl_new_inv intro: tl_step_inv)

section \<open>Contiguous nonces\<close>

text \<open>The nonces of an executable list follow each other without a gap; a strict list keeps this
  because \<open>Filter\<close>, \<open>Remove\<close> and \<open>Cap\<close> only ever cut the tail and \<open>Forward\<close> the head.\<close>

primrec contiguous :: "tx list \<Rightarrow> bool" where
  "contiguous [] \<longleftrightarrow> True"
| "contiguous (s # ts) \<longleftrightarrow>
     (case ts of [] \<Rightarrow> True | t # _ \<Rightarrow> tx_nonce t = tx_nonce s + 1) \<and> contiguous ts"

lemma contiguous_append: "contiguous (xs @ ys) \<Longrightarrow> contiguous xs \<and> contiguous ys"
proof (induction xs)
  case (Cons x xs)
  then show ?case by (cases xs) auto
qed simp

lemma contiguous_takeWhile: "contiguous xs \<Longrightarrow> contiguous (takeWhile P xs)"
  by (metis contiguous_append takeWhile_dropWhile_id)

lemma contiguous_dropWhile: "contiguous xs \<Longrightarrow> contiguous (dropWhile P xs)"
  by (metis contiguous_append takeWhile_dropWhile_id)

lemma contiguous_take: "contiguous xs \<Longrightarrow> contiguous (take n xs)"
  by (metis contiguous_append append_take_drop_id)

lemma contiguous_consecutive: "contiguous (take (consecutive n xs) xs)"
proof (induction n xs rule: consecutive.induct)
  case (2 n t ts)
  then show ?case by (cases ts) auto
qed simp

lemma contiguous_ready: "contiguous (take (ready_count start xs) xs)"
proof (cases xs)
  case (Cons t ts)
  then show ?thesis using contiguous_consecutive [of "tx_nonce t" xs] by (simp add: ready_count_def)
qed simp

lemma consecutive_le: "consecutive n xs \<le> length xs"
  by (induction n xs rule: consecutive.induct) auto

lemma ready_count_le: "ready_count start xs \<le> length xs"
  using consecutive_le by (auto simp: ready_count_def split: list.splits)

text \<open>The run ends at the end of the list or at a gap.\<close>

lemma consecutive_nth: "i < consecutive n xs \<Longrightarrow> tx_nonce (xs ! i) = n + of_nat i"
proof (induction n xs arbitrary: i rule: consecutive.induct)
  case (2 n t ts)
  then show ?case by (cases i) (auto split: if_splits)
qed simp

lemma consecutive_end: "consecutive n xs < length xs \<Longrightarrow> tx_nonce (xs ! consecutive n xs) \<noteq> n + of_nat (consecutive n xs)"
  by (induction n xs rule: consecutive.induct) (auto simp: add.assoc)

lemma consecutive_stops:
  assumes "consecutive n xs < length xs" "0 < consecutive n xs"
  shows "tx_nonce (xs ! consecutive n xs) \<noteq> tx_nonce (xs ! (consecutive n xs - 1)) + 1"
  using consecutive_end [OF assms(1)] consecutive_nth [of "consecutive n xs - 1" n xs] assms(2)
  by (simp add: of_nat_diff Suc_leI)

lemma ready_stops:
  assumes "ready_count start xs < length xs" "0 < ready_count start xs"
  shows "tx_nonce (xs ! ready_count start xs) \<noteq> tx_nonce (xs ! (ready_count start xs - 1)) + 1"
proof (cases xs)
  case (Cons t ts)
  then have "ready_count start xs = consecutive (tx_nonce t) xs"
    using assms(2) by (auto simp: ready_count_def split: if_splits)
  then show ?thesis using consecutive_stops [of "tx_nonce t" xs] assms by simp
qed (use assms in simp)

section \<open>What the list guarantees\<close>

definition sample_list :: txList where
  "sample_list = fold (\<lambda>tx l. fst (tl_Add l tx 10))
     [sample_tx 1 7 4 20 100, sample_tx 2 7 5 20 900, sample_tx 3 7 6 20 50] (newTxList True)"

lemma sample_list_inv: "tl_inv sample_list"
  by (simp add: sample_list_def tl_Add_inv tl_new_inv)

lemma sample_list_strict: "tl_strict sample_list"
  by (simp add: sample_list_def tl_Add_def Let_def newTxList_def)

text \<open>(C8) A list reached from a fresh one by any sequence of the pool's calls flattens to
  strictly ascending nonces, its caps bound the cost and gas limit of every transaction it
  stores, and no further call panics, except a \<open>Cap\<close> with a negative limit.\<close>

theorem txlist_reachable:
  assumes "tl_step\<^sup>*\<^sup>* (newTxList strict) l"
  shows "sorted_wrt (<) (map tx_nonce (snd (tl_Flatten l)))
    \<and> (\<forall>t\<in>set (snd (tl_Flatten l)). tx_cost t \<le> tl_costcap l \<and> tx_gasLimit t \<le> tl_gascap l)
    \<and> tl_Forward l th \<noteq> None \<and> tl_Remove l tx \<noteq> None \<and> tl_Ready l n \<noteq> None
    \<and> (tl_Cap l k = None \<longleftrightarrow> k < 0)"
proof -
  have inv: "tl_inv l" using txlist_machine.inv_reachable [OF _ assms] by blast
  have "sorted_wrt (<) (map tx_nonce (tl_abs l))"
    using sm_abs_strict [OF tl_invD [OF inv]] by (simp add: tl_abs_def strict_sorted_iff)
  moreover have "tl_Cap l k = None \<longleftrightarrow> k < 0"
    using tl_Cap_negative [of k l] tl_Cap_correct [OF inv, of k] by force
  ultimately show ?thesis
    using inv tl_Forward_correct [OF inv, of th] tl_Remove_correct [OF inv, of tx]
      tl_Ready_correct [OF inv, of n] tl_Flatten_correct [OF inv]
    by (auto simp: tl_inv_def)
qed

lemma tl_steps_Add: "tl_step\<^sup>*\<^sup>* l l' \<Longrightarrow> tl_step\<^sup>*\<^sup>* l (fst (tl_Add l' tx bump))"
  by (erule rtranclp.rtrancl_into_rtrancl) (rule step_Add)

lemma sample_list_reach: "tl_step\<^sup>*\<^sup>* (newTxList True) sample_list"
  by (simp add: sample_list_def tl_steps_Add)

theorem txlist_reachable_witness:
  "sorted_wrt (<) (map tx_nonce (snd (tl_Flatten sample_list))) \<and> tl_Cap sample_list 2 \<noteq> None"
  using txlist_reachable [OF sample_list_reach, of 0 "sample_tx 1 7 4 20 100" 0 2] by simp

text \<open>(C16) \<open>Filter\<close> on a strict list keeps exactly the longest prefix the limits cover.  It
  returns every transaction over a limit as removed and the covered ones behind the first of
  them as invalid, so nothing is lost and nothing is returned twice.\<close>

theorem tl_Filter_strict_prefix:
  assumes "tl_inv l" "tl_strict l" "tl_Filter l C G = (l', removed, invalids)"
  shows "tl_inv l' \<and> tl_abs l' = takeWhile (affordable C G) (tl_abs l)
    \<and> mset removed = mset (filter (\<lambda>t. \<not> affordable C G t) (tl_abs l))
    \<and> mset invalids = mset (filter (affordable C G) (dropWhile (affordable C G) (tl_abs l)))
    \<and> mset (tl_abs l) = mset (tl_abs l') + mset removed + mset invalids"
  using tl_Filter_strict_abs [OF assms] tl_Filter_inv [OF assms(1), of C G] assms(3)
    mset_prefix_split [of "tl_abs l" "affordable C G"]
  by (simp del: mset_filter)

theorem tl_Filter_strict_prefix_witness:
  "map tx_nonce (tl_abs (fst (tl_Filter sample_list 500 30000))) = [4]"
proof -
  have "tl_abs sample_list = [sample_tx 1 7 4 20 100, sample_tx 2 7 5 20 900, sample_tx 3 7 6 20 50]"
    by code_simp
  moreover obtain l' removed invalids where "tl_Filter sample_list 500 30000 = (l', removed, invalids)"
    by (metis prod_cases3)
  ultimately show ?thesis
    using tl_Filter_strict_prefix [OF sample_list_inv sample_list_strict, of 500 30000]
    by (simp add: affordable_def sample_tx_def)
qed

text \<open>\<open>Remove\<close> reports whether the nonce was stored.  On a strict list it cuts the list
  there and returns every later transaction as invalidated; on a gapped list it takes out the
  one transaction and invalidates nothing.  Together with the removed one, what stays and what
  is returned is what was stored.\<close>

lemma tl_Remove_cuts:
  assumes "tl_inv l"
  shows "\<exists>l' invalids. tl_Remove l tx = Some (l', tl_Overlaps l tx, invalids) \<and> tl_inv l'
    \<and> (if tl_strict l \<and> tl_Overlaps l tx
       then tl_abs l' = takeWhile (\<lambda>t. tx_nonce t \<noteq> tx_nonce tx) (tl_abs l)
       else tl_abs l' = filter (\<lambda>t. tx_nonce t \<noteq> tx_nonce tx) (tl_abs l) \<and> invalids = [])
    \<and> set (tl_abs l) = set (tl_abs l') \<union> set invalids
        \<union> {t. tl_Overlaps l tx \<and> sm_Get (tl_txs l) (tx_nonce tx) = Some t}"
proof -
  let ?ne = "\<lambda>t. tx_nonce t \<noteq> tx_nonce tx" and ?xs = "tl_abs l"
  note inv = tl_invD [OF assms]
  obtain l' invalids where r: "tl_Remove l tx = Some (l', tl_Overlaps l tx, invalids)" "tl_inv l'"
    "if tl_strict l \<and> tl_Overlaps l tx
     then tl_abs l' = takeWhile ?ne ?xs \<and> mset invalids = mset (filter (\<lambda>t. tx_nonce t > tx_nonce tx) ?xs)
     else tl_abs l' = filter ?ne ?xs \<and> invalids = []"
    using tl_Remove_correct [OF assms, of tx] by blast
  have get: "{t. tl_Overlaps l tx \<and> sm_Get (tl_txs l) (tx_nonce tx) = Some t} = {t \<in> set ?xs. \<not> ?ne t}"
    by (auto simp: tl_Overlaps_def tl_abs_def sm_Get_abs [OF inv])
  have cut: "set ?xs = set (takeWhile ?ne ?xs) \<union> {t \<in> set ?xs. tx_nonce t > tx_nonce tx} \<union> {t \<in> set ?xs. \<not> ?ne t}"
    if "b \<in> set ?xs" "\<not> ?ne b" for b
  proof -
    have "filter (\<lambda>t. \<not> tx_nonce t > tx_nonce b) (filter ?ne ?xs) = takeWhile ?ne ?xs"
      using sorted_prefix_cut [of ?xs b ?ne] that sm_abs_strict [OF inv] by (simp add: tl_abs_def)
    from arg_cong [OF this, of set] that show ?thesis by auto
  qed
  show ?thesis
  proof (cases "tl_strict l \<and> tl_Overlaps l tx")
    case True
    then have "mset invalids = mset (filter (\<lambda>t. tx_nonce t > tx_nonce tx) ?xs)" using r(3) by simp
    then have "set invalids = {t \<in> set ?xs. tx_nonce t > tx_nonce tx}"
      using mset_eq_setD set_filter by metis
    moreover obtain b where "b \<in> set ?xs" "\<not> ?ne b"
      using True by (auto simp: tl_Overlaps_def tl_abs_def sm_Get_abs [OF inv])
    ultimately show ?thesis using r True cut get by auto
  next
    case False
    then show ?thesis using r get by auto
  qed
qed

lemma tl_Remove_cuts_witness:
  "\<exists>l' invalids. tl_Remove sample_list (sample_tx 2 7 5 20 900) = Some (l', True, invalids)
     \<and> map tx_nonce (tl_abs l') = [4]"
proof -
  have a: "tl_abs sample_list = [sample_tx 1 7 4 20 100, sample_tx 2 7 5 20 900, sample_tx 3 7 6 20 50]"
    by code_simp
  have ov: "tl_Overlaps sample_list (sample_tx 2 7 5 20 900)" by code_simp
  have "map tx_nonce (takeWhile (\<lambda>t. tx_nonce t \<noteq> tx_nonce (sample_tx 2 7 5 20 900)) (tl_abs sample_list)) = [4]"
    by (simp add: a sample_tx_def)
  then show ?thesis
    using tl_Remove_cuts [OF sample_list_inv, of "sample_tx 2 7 5 20 900"] ov sample_list_strict by auto
qed

text \<open>\<open>Ready\<close> hands out nothing when the lowest nonce lies above \<open>start\<close>; otherwise it
  hands out the transactions from the lowest nonce on whose nonces follow each other without a
  gap, in order, and stops only at a gap: the first transaction left does not continue the run.\<close>

lemma tl_Ready_run:
  assumes "tl_inv l"
  shows "\<exists>l' ready. tl_Ready l start = Some (l', map Some ready) \<and> tl_inv l'
    \<and> tl_abs l = ready @ tl_abs l' \<and> contiguous ready
    \<and> (ready = [] \<longleftrightarrow> tl_abs l = [] \<or> tx_nonce (hd (tl_abs l)) > start)
    \<and> (ready \<noteq> [] \<and> tl_abs l' \<noteq> [] \<longrightarrow> tx_nonce (hd (tl_abs l')) \<noteq> tx_nonce (last ready) + 1)"
proof -
  let ?xs = "tl_abs l" and ?k = "ready_count start (tl_abs l)"
  obtain l' where l': "tl_Ready l start = Some (l', map Some (take ?k ?xs))" "tl_inv l'"
    "tl_abs l' = drop ?k ?xs"
    using tl_Ready_correct [OF assms, of start] by blast
  have "take ?k ?xs = [] \<longleftrightarrow> ?xs = [] \<or> tx_nonce (hd ?xs) > start"
    by (cases ?xs) (simp_all add: ready_count_def)
  moreover have "tx_nonce (hd (drop ?k ?xs)) \<noteq> tx_nonce (last (take ?k ?xs)) + 1"
    if "take ?k ?xs \<noteq> []" "drop ?k ?xs \<noteq> []"
    using ready_stops [of start ?xs] that by (simp add: hd_drop_conv_nth last_conv_nth min_def)
  ultimately show ?thesis using l' contiguous_ready [of start ?xs]
    by (intro exI [of _ l'] exI [of _ "take ?k ?xs"]) simp
qed

lemma tl_Ready_run_witness:
  "\<exists>l' ready. tl_Ready sample_list 4 = Some (l', map Some ready) \<and> ready \<noteq> [] \<and> contiguous ready"
proof -
  have "tl_abs sample_list = [sample_tx 1 7 4 20 100, sample_tx 2 7 5 20 900, sample_tx 3 7 6 20 50]"
    by code_simp
  then have "tl_abs sample_list \<noteq> []" "\<not> tx_nonce (hd (tl_abs sample_list)) > 4"
    by (simp_all add: sample_tx_def)
  then show ?thesis using tl_Ready_run [OF sample_list_inv, of 4] by blast
qed

text \<open>(C29) A strict list without nonce gaps stays without gaps under \<open>Filter\<close>, \<open>Remove\<close>,
  \<open>Cap\<close> and \<open>Forward\<close>, whatever their arguments: the executable transactions of an account
  never get a hole.\<close>

theorem tl_strict_contiguous:
  assumes "tl_inv l" "tl_strict l" "contiguous (tl_abs l)"
  shows "contiguous (tl_abs (fst (tl_Filter l C G)))
    \<and> (\<forall>l' found invalids. tl_Remove l tx = Some (l', found, invalids) \<longrightarrow> contiguous (tl_abs l'))
    \<and> (\<forall>l' drops. tl_Cap l k = Some (l', drops) \<longrightarrow> contiguous (tl_abs l'))
    \<and> (\<forall>l' removed. tl_Forward l th = Some (l', removed) \<longrightarrow> contiguous (tl_abs l'))"
proof (intro conjI allI impI)
  obtain l' removed invalids where "tl_Filter l C G = (l', removed, invalids)" by (metis prod_cases3)
  then show "contiguous (tl_abs (fst (tl_Filter l C G)))"
    using tl_Filter_strict_abs [OF assms(1,2)] assms(3) by (simp add: contiguous_takeWhile)
next
  fix l' found invalids assume r: "tl_Remove l tx = Some (l', found, invalids)"
  have "filter (\<lambda>t. tx_nonce t \<noteq> tx_nonce tx) (tl_abs l) = tl_abs l" if "\<not> tl_Overlaps l tx"
  proof (rule filter_True)
    have "tx_nonce tx \<notin> tx_nonce ` set (tl_abs l)"
      using that sm_Get_None [OF tl_invD [OF assms(1)]] by (simp add: tl_Overlaps_def tl_abs_def)
    then show "\<forall>t\<in>set (tl_abs l). tx_nonce t \<noteq> tx_nonce tx" by (metis imageI)
  qed
  then show "contiguous (tl_abs l')" using r tl_Remove_correct [OF assms(1), of tx] assms(2,3)
    by (cases "tl_Overlaps l tx") (auto simp: contiguous_takeWhile)
next
  fix l' drops assume c: "tl_Cap l k = Some (l', drops)"
  then have "0 \<le> k" using tl_Cap_negative [of k l] by fastforce
  then show "contiguous (tl_abs l')" using c tl_Cap_correct [OF assms(1), of k] assms(3)
    by (auto simp: contiguous_take)
next
  fix l' removed assume "tl_Forward l th = Some (l', removed)"
  then show "contiguous (tl_abs l')"
    using tl_Forward_correct [OF assms(1), of th] assms(3) by (auto simp: contiguous_dropWhile)
qed

theorem tl_strict_contiguous_witness: "contiguous (tl_abs (fst (tl_Filter sample_list 500 30000)))"
proof -
  have "contiguous (tl_abs sample_list)" by code_simp
  then show ?thesis using tl_strict_contiguous [OF sample_list_inv sample_list_strict] by blast
qed

text \<open>\<open>Add\<close> replaces a transaction with the same nonce exactly when the new price exceeds
  the old one raised by \<open>priceBump\<close> percent, and otherwise changes nothing.  After an accepted
  transaction its nonce maps to it and every other nonce is untouched; the replaced one is
  returned.\<close>

lemma tl_Add_replaces:
  assumes "tl_inv l" "uint priceBump < 2 ^ 63 - 100"
  shows "case tl_Add l tx priceBump of (l', inserted, old) \<Rightarrow>
    tl_inv l'
    \<and> (inserted \<longleftrightarrow> (\<forall>t\<in>set (tl_abs l). tx_nonce t = tx_nonce tx \<longrightarrow>
         tx_gasPrice t * (100 + uint priceBump) div 100 < tx_gasPrice tx))
    \<and> (if inserted
       then old = sm_Get (tl_txs l) (tx_nonce tx)
          \<and> (\<forall>n. sm_Get (tl_txs l') n = (if n = tx_nonce tx then Some tx else sm_Get (tl_txs l) n))
       else l' = l \<and> old = None)"
proof -
  have "sint (100 + priceBump) = 100 + uint priceBump"
    using assms(2) by (rule sint_small_sum)
  then have "bump_threshold t priceBump = tx_gasPrice t * (100 + uint priceBump) div 100" for t
    by (simp add: bump_threshold_def)
  moreover have "fst (snd (tl_Add l tx priceBump)) \<longleftrightarrow> (\<forall>t\<in>set (tl_abs l). tx_nonce t = tx_nonce tx \<longrightarrow>
      bump_threshold t priceBump < tx_gasPrice tx)"
    by (auto simp: tl_Add_accept tl_abs_def sm_Get_abs [OF tl_invD [OF assms(1)]])
  moreover have "sm_Get (sm_Put (tl_txs l) tx) n = (if n = tx_nonce tx then Some tx else sm_Get (tl_txs l) n)" for n
    by (rule sm_Put_Get)
  ultimately show ?thesis using tl_Add_inv [OF assms(1), of tx priceBump]
    by (auto simp: tl_Add_def Let_def split: option.splits if_splits)
qed

lemma tl_Add_replaces_witness:
  "case tl_Add sample_list (sample_tx 9 7 5 22 0) 10 of (l', inserted, old) \<Rightarrow> tl_inv l' \<and> \<not> inserted"
proof -
  have "\<exists>t\<in>set (tl_abs sample_list). tx_nonce t = 5 \<and> tx_gasPrice t = 20" by code_simp
  then have "\<not> (\<forall>t\<in>set (tl_abs sample_list). tx_nonce t = tx_nonce (sample_tx 9 7 5 22 0) \<longrightarrow>
      tx_gasPrice t * (100 + uint (10 :: u64)) div 100 < tx_gasPrice (sample_tx 9 7 5 22 0))"
    by (force simp: sample_tx_def)
  then show ?thesis using tl_Add_replaces [OF sample_list_inv, of 10 "sample_tx 9 7 5 22 0"]
    by (simp split: prod.splits)
qed

end
