(* ===== verification/Tx_Priced.thy ===== *)
theory Tx_Priced
  imports Chain_Types Go_Heap "HOL-Library.Monad_Syntax"
begin

text \<open>
  \<open>core/tx_list.go\<close>, third part: \<open>priceHeap\<close> and \<open>txPricedList\<close>, the price-sorted heap
  of all the pool's transactions, with \<open>accountSet\<close> of \<open>core/tx_pool.go\<close>.
\<close>

section \<open>accountSet\<close>

type_synonym accountSet = "address list"

definition as_contains :: "accountSet \<Rightarrow> address \<Rightarrow> bool" where
  "as_contains as addr \<longleftrightarrow> addr \<in> set as"

definition as_containsTx :: "accountSet \<Rightarrow> tx \<Rightarrow> bool" where
  "as_containsTx as tx = (case tx_sender tx of Some addr \<Rightarrow> as_contains as addr | None \<Rightarrow> False)"

definition as_add :: "accountSet \<Rightarrow> address \<Rightarrow> accountSet" where
  "as_add as addr = List.insert addr as"

section \<open>txPricedList\<close>

text \<open>The pool's map of all transactions, to which the Go structure keeps a pointer, is an
  argument of the operations that read it.\<close>

definition price_less :: "tx \<Rightarrow> tx \<Rightarrow> bool" where
  "price_less a b \<longleftrightarrow> tx_gasPrice a < tx_gasPrice b"

record txPricedList =
  pl_items :: "tx list"
  pl_stales :: int

definition newTxPricedList :: txPricedList where
  "newTxPricedList = \<lparr>pl_items = [], pl_stales = 0\<rparr>"

definition pl_Put :: "txPricedList \<Rightarrow> tx \<Rightarrow> txPricedList" where
  "pl_Put l tx = l\<lparr>pl_items := heap_Push price_less (pl_items l) tx\<rparr>"

definition pl_Removed :: "(hash \<times> tx) list \<Rightarrow> txPricedList \<Rightarrow> txPricedList" where
  "pl_Removed all l =
     (let stales = pl_stales l + 1 in
      if stales \<le> int (length (pl_items l) div 4) then l\<lparr>pl_stales := stales\<rparr>
      else l\<lparr>pl_stales := 0, pl_items := heap_Init price_less (map snd all)\<rparr>)"

function pl_cap_loop ::
  "(hash \<times> tx) list \<Rightarrow> int \<Rightarrow> accountSet \<Rightarrow> tx list \<Rightarrow> int \<Rightarrow> tx list \<Rightarrow> tx list
     \<Rightarrow> (tx list \<times> int \<times> tx list \<times> tx list) go" where
  "pl_cap_loop all threshold locals items stales drops save =
     (if items = [] then Some (items, stales, drops, save)
      else case heap_Pop price_less items of
        None \<Rightarrow> None
      | Some (tx, items') \<Rightarrow>
          if map_of all (tx_hash tx) = None
          then pl_cap_loop all threshold locals items' (stales - 1) drops save
          else if tx_gasPrice tx \<ge> threshold then Some (items', stales, drops, save @ [tx])
          else if as_containsTx locals tx
          then pl_cap_loop all threshold locals items' stales drops (save @ [tx])
          else pl_cap_loop all threshold locals items' stales (drops @ [tx]) save)"
  by pat_completeness auto
termination
  by (relation "measure (\<lambda>(all, threshold, locals, items, stales, drops, save). length items)")
     (auto dest!: length_heap_Pop)

declare pl_cap_loop.simps [simp del]

definition pl_Cap :: "(hash \<times> tx) list \<Rightarrow> txPricedList \<Rightarrow> int \<Rightarrow> accountSet \<Rightarrow> (txPricedList \<times> tx list) go" where
  "pl_Cap all l threshold locals = do {
     (items, stales, drops, save) \<leftarrow> pl_cap_loop all threshold locals (pl_items l) (pl_stales l) [] [];
     Some (l\<lparr>pl_items := fold (\<lambda>tx h. heap_Push price_less h tx) save items, pl_stales := stales\<rparr>, drops)
   }"

function pl_prune_loop ::
  "(hash \<times> tx) list \<Rightarrow> tx list \<Rightarrow> int \<Rightarrow> (tx list \<times> int) go" where
  "pl_prune_loop all items stales =
     (if items = [] then Some (items, stales)
      else if map_of all (tx_hash (items ! 0)) = None
      then (case heap_Pop price_less items of
              None \<Rightarrow> None
            | Some (_, items') \<Rightarrow> pl_prune_loop all items' (stales - 1))
      else Some (items, stales))"
  by pat_completeness auto
termination
  by (relation "measure (\<lambda>(all, items, stales). length items)")
     (auto dest!: length_heap_Pop)

declare pl_prune_loop.simps [simp del]

definition pl_Underpriced ::
  "(hash \<times> tx) list \<Rightarrow> txPricedList \<Rightarrow> tx \<Rightarrow> accountSet \<Rightarrow> (txPricedList \<times> bool) go" where
  "pl_Underpriced all l tx locals =
     (if as_containsTx locals tx then Some (l, False)
      else do {
        (items, stales) \<leftarrow> pl_prune_loop all (pl_items l) (pl_stales l);
        let l' = l\<lparr>pl_items := items, pl_stales := stales\<rparr>;
        if items = [] then Some (l', False)
        else Some (l', tx_gasPrice (items ! 0) \<ge> tx_gasPrice tx)
      })"

function pl_discard_loop ::
  "(hash \<times> tx) list \<Rightarrow> accountSet \<Rightarrow> int \<Rightarrow> tx list \<Rightarrow> int \<Rightarrow> tx list \<Rightarrow> tx list
     \<Rightarrow> (tx list \<times> int \<times> tx list \<times> tx list) go" where
  "pl_discard_loop all locals cnt items stales drops save =
     (if items = [] \<or> cnt \<le> 0 then Some (items, stales, drops, save)
      else case heap_Pop price_less items of
        None \<Rightarrow> None
      | Some (tx, items') \<Rightarrow>
          if map_of all (tx_hash tx) = None
          then pl_discard_loop all locals cnt items' (stales - 1) drops save
          else if as_containsTx locals tx
          then pl_discard_loop all locals cnt items' stales drops (save @ [tx])
          else pl_discard_loop all locals (cnt - 1) items' stales (drops @ [tx]) save)"
  by pat_completeness auto
termination
  by (relation "measure (\<lambda>(all, locals, cnt, items, stales, drops, save). length items)")
     (auto dest!: length_heap_Pop)

declare pl_discard_loop.simps [simp del]

text \<open>\<open>make(types.Transactions, 0, count)\<close> panics on a negative capacity.\<close>

definition pl_Discard ::
  "(hash \<times> tx) list \<Rightarrow> txPricedList \<Rightarrow> int \<Rightarrow> accountSet \<Rightarrow> (txPricedList \<times> tx list) go" where
  "pl_Discard all l cnt locals =
     (if cnt < 0 then None
      else do {
        (items, stales, drops, save) \<leftarrow>
          pl_discard_loop all locals cnt (pl_items l) (pl_stales l) [] [];
        Some (l\<lparr>pl_items := fold (\<lambda>tx h. heap_Push price_less h tx) save items,
                pl_stales := stales\<rparr>, drops)
      })"

section \<open>The price heap\<close>

interpretation price_heap: go_heap price_less tx_gasPrice
  by unfold_locales (simp add: price_less_def)

text \<open>
  The heap may hold transactions the pool has dropped since: an entry is live when the pool
  still knows its hash.  The operations are described by what they do to the live entries, as
  multisets.
\<close>

definition live :: "(hash \<times> tx) list \<Rightarrow> tx \<Rightarrow> bool" where
  "live all tx \<longleftrightarrow> map_of all (tx_hash tx) \<noteq> None"

definition remote :: "accountSet \<Rightarrow> tx \<Rightarrow> bool" where
  "remote locals t \<longleftrightarrow> \<not> as_containsTx locals t"

lemma live_None: "map_of all (tx_hash t) = None \<longleftrightarrow> \<not> live all t"
  by (simp add: live_def)

definition live_items :: "(hash \<times> tx) list \<Rightarrow> tx list \<Rightarrow> tx multiset" where
  "live_items all items = filter_mset (live all) (mset items)"

definition pl_ok :: "txPricedList \<Rightarrow> bool" where
  "pl_ok l \<longleftrightarrow> heap_ok price_less (pl_items l)"

lemma pl_new_ok: "pl_ok newTxPricedList"
  by (simp add: pl_ok_def newTxPricedList_def)

lemma pl_Put_ok: "pl_ok l \<Longrightarrow> pl_ok (pl_Put l tx)"
  by (simp add: pl_ok_def pl_Put_def price_heap.heap_Push_ok)

lemma pl_Removed_ok: "pl_ok l \<Longrightarrow> pl_ok (pl_Removed all l)"
  by (simp add: pl_ok_def pl_Removed_def Let_def price_heap.heap_Init_ok)

lemma push_all_ok:
  "heap_ok price_less h \<Longrightarrow> heap_ok price_less (fold (\<lambda>tx h. heap_Push price_less h tx) save h)"
  by (induction save arbitrary: h) (simp_all add: price_heap.heap_Push_ok)

lemma push_all_mset: "mset (fold (\<lambda>tx h. heap_Push price_less h tx) save h) = mset save + mset h"
  by (induction save arbitrary: h) (simp_all add: price_heap.heap_Push_mset)

text \<open>A pop takes out a cheapest entry.\<close>

lemma price_pop:
  assumes "heap_ok price_less items" "items \<noteq> []"
  obtains items' where "heap_Pop price_less items = Some (items ! 0, items')"
    "heap_ok price_less items'" "mset items = add_mset (items ! 0) (mset items')"
    "length items' < length items"
    "\<And>t. t \<in># mset items' \<Longrightarrow> tx_gasPrice (items ! 0) \<le> tx_gasPrice t"
proof -
  obtain items' where p: "heap_Pop price_less items = Some (items ! 0, items')"
    "heap_ok price_less items'" "mset items = add_mset (items ! 0) (mset items')"
    using price_heap.heap_Pop_ok [OF assms] by metis
  moreover have "t \<in> set items" if "t \<in># mset items'" for t
    using p(3) that by (metis insert_iff set_mset_add_mset_insert set_mset_mset)
  ultimately show ?thesis
    using that length_heap_Pop [OF p(1)] price_heap.heap_least [OF assms(1)] by force
qed

text \<open>What each loop leaves, drops and saves.\<close>

lemma pl_cap_loop_correct:
  assumes "heap_ok price_less items"
  shows "\<exists>items' stales' dr sv. pl_cap_loop all th locals items stales drops save
       = Some (items', stales', drops @ dr, save @ sv)
     \<and> heap_ok price_less items'
     \<and> live_items all items = live_items all items' + mset dr + mset sv
     \<and> mset dr = filter_mset (\<lambda>t. tx_gasPrice t < th \<and> \<not> as_containsTx locals t) (live_items all items)"
  using assms
proof (induction "length items" arbitrary: items stales drops save rule: less_induct)
  case less
  show ?case
  proof (cases "items = []")
    case True
    then show ?thesis by (simp add: pl_cap_loop.simps [of all th locals "[]"] live_items_def)
  next
    case False
    let ?t = "items ! 0"
    obtain items' where p: "heap_Pop price_less items = Some (?t, items')"
      "heap_ok price_less items'" "mset items = add_mset ?t (mset items')"
      "length items' < length items"
      "\<And>t. t \<in># mset items' \<Longrightarrow> tx_gasPrice ?t \<le> tx_gasPrice t"
      using price_pop [OF less.prems False] by metis
    note unfold = pl_cap_loop.simps [of all th locals items]
    have li: "live_items all items = (if live all ?t then add_mset ?t (live_items all items') else live_items all items')"
      by (simp add: live_items_def p(3))
    note IH = less.hyps [OF p(4,2)]
    consider "\<not> live all ?t" | "live all ?t" "th \<le> tx_gasPrice ?t"
      | "live all ?t" "tx_gasPrice ?t < th" "as_containsTx locals ?t"
      | "live all ?t" "tx_gasPrice ?t < th" "\<not> as_containsTx locals ?t" by fastforce
    then show ?thesis
    proof cases
      case 1
      then show ?thesis using IH [of "stales - 1" drops save] False p(1) li
        by (simp add: unfold live_None)
    next
      case 2
      have none: "filter_mset (\<lambda>t. tx_gasPrice t < th \<and> \<not> as_containsTx locals t) (live_items all items') = {#}"
        using p(5) 2(2) by (intro set_mset_eq_empty_iff [THEN iffD1]) (force simp: live_items_def)
      then show ?thesis using 2 False p(1,2) li by (simp add: unfold live_None)
    next
      case 3
      obtain i s dr sv where r: "pl_cap_loop all th locals items' stales drops (save @ [?t])
          = Some (i, s, drops @ dr, (save @ [?t]) @ sv)" "heap_ok price_less i"
        "live_items all items' = live_items all i + mset dr + mset sv"
        "mset dr = filter_mset (\<lambda>t. tx_gasPrice t < th \<and> \<not> as_containsTx locals t) (live_items all items')"
        using IH [of stales drops "save @ [?t]"] by blast
      show ?thesis
      proof (intro exI conjI)
        show "pl_cap_loop all th locals items stales drops save = Some (i, s, drops @ dr, save @ (?t # sv))"
          using r(1) 3 False p(1) by (simp add: unfold live_None)
      qed (use r 3 li in auto)
    next
      case 4
      obtain i s dr sv where r: "pl_cap_loop all th locals items' stales (drops @ [?t]) save
          = Some (i, s, (drops @ [?t]) @ dr, save @ sv)" "heap_ok price_less i"
        "live_items all items' = live_items all i + mset dr + mset sv"
        "mset dr = filter_mset (\<lambda>t. tx_gasPrice t < th \<and> \<not> as_containsTx locals t) (live_items all items')"
        using IH [of stales "drops @ [?t]" save] by blast
      show ?thesis
      proof (intro exI conjI)
        show "pl_cap_loop all th locals items stales drops save = Some (i, s, drops @ (?t # dr), save @ sv)"
          using r(1) 4 False p(1) by (simp add: unfold live_None)
      qed (use r 4 li in auto)
    qed
  qed
qed

lemma pl_prune_loop_correct:
  assumes "heap_ok price_less items"
  shows "\<exists>items' stales'. pl_prune_loop all items stales = Some (items', stales')
     \<and> heap_ok price_less items' \<and> live_items all items' = live_items all items
     \<and> (items' \<noteq> [] \<longrightarrow> live all (items' ! 0))"
  using assms
proof (induction "length items" arbitrary: items stales rule: less_induct)
  case less
  show ?case
  proof (cases "items = [] \<or> live all (items ! 0)")
    case True
    then show ?thesis using less.prems
      by (auto simp: pl_prune_loop.simps [of all items] pl_prune_loop.simps [of all "[]"] live_None)
  next
    case False
    obtain items' where p: "heap_Pop price_less items = Some (items ! 0, items')"
      "heap_ok price_less items'" "mset items = add_mset (items ! 0) (mset items')"
      "length items' < length items"
      using price_pop [OF less.prems] False by metis
    have "live_items all items = live_items all items'" using False by (simp add: live_items_def p(3))
    then show ?thesis using less.hyps [OF p(4,2), of "stales - 1"] False p(1)
      by (simp add: pl_prune_loop.simps [of all items] live_None)
  qed
qed

text \<open>Nothing the discard loop keeps back, locals apart, is cheaper than what it drops.\<close>

lemma pl_discard_loop_correct:
  assumes "heap_ok price_less items" "0 \<le> cnt"
  shows "\<exists>items' stales' dr sv. pl_discard_loop all locals cnt items stales drops save
       = Some (items', stales', drops @ dr, save @ sv)
     \<and> heap_ok price_less items'
     \<and> live_items all items = live_items all items' + mset dr + mset sv
     \<and> (\<forall>t\<in>set dr. \<not> as_containsTx locals t) \<and> (\<forall>t\<in>set sv. as_containsTx locals t)
     \<and> (\<forall>t\<in>set dr. \<forall>s\<in>#live_items all items'. tx_gasPrice t \<le> tx_gasPrice s)
     \<and> int (length dr) \<le> cnt \<and> (int (length dr) < cnt \<longrightarrow> items' = [])"
  using assms
proof (induction "length items" arbitrary: items cnt stales drops save rule: less_induct)
  case less
  show ?case
  proof (cases "items = [] \<or> cnt \<le> 0")
    case True
    then show ?thesis using less.prems
      by (auto simp: pl_discard_loop.simps [of all locals cnt items]
          pl_discard_loop.simps [of all locals cnt "[]"])
  next
    case False
    let ?t = "items ! 0"
    obtain items' where p: "heap_Pop price_less items = Some (?t, items')"
      "heap_ok price_less items'" "mset items = add_mset ?t (mset items')"
      "length items' < length items"
      "\<And>t. t \<in># mset items' \<Longrightarrow> tx_gasPrice ?t \<le> tx_gasPrice t"
      using price_pop [OF less.prems(1)] False by metis
    note unfold = pl_discard_loop.simps [of all locals cnt items]
    have li: "live_items all items = (if live all ?t then add_mset ?t (live_items all items') else live_items all items')"
      by (simp add: live_items_def p(3))
    have le: "tx_gasPrice ?t \<le> tx_gasPrice s" if "s \<in># live_items all items'" for s
      using p(5) that by (simp add: live_items_def)
    note IH = less.hyps [OF p(4,2)]
    consider "\<not> live all ?t" | "live all ?t" "as_containsTx locals ?t"
      | "live all ?t" "\<not> as_containsTx locals ?t" by fastforce
    then show ?thesis
    proof cases
      case 1
      then show ?thesis using IH [OF less.prems(2), of "stales - 1" drops save] False p(1) li
        by (simp add: unfold live_None)
    next
      case 2
      obtain i s dr sv where r: "pl_discard_loop all locals cnt items' stales drops (save @ [?t])
          = Some (i, s, drops @ dr, (save @ [?t]) @ sv)" "heap_ok price_less i"
        "live_items all items' = live_items all i + mset dr + mset sv"
        "\<forall>t\<in>set dr. \<not> as_containsTx locals t" "\<forall>t\<in>set sv. as_containsTx locals t"
        "\<forall>t\<in>set dr. \<forall>s\<in>#live_items all i. tx_gasPrice t \<le> tx_gasPrice s"
        "int (length dr) \<le> cnt" "int (length dr) < cnt \<longrightarrow> i = []"
        using IH [OF less.prems(2), of stales drops "save @ [?t]"] by blast
      show ?thesis
      proof (intro exI conjI)
        show "pl_discard_loop all locals cnt items stales drops save = Some (i, s, drops @ dr, save @ (?t # sv))"
          using r(1) 2 False p(1) by (simp add: unfold live_None)
      qed (use r 2 li in auto)
    next
      case 3
      obtain i s dr sv where r: "pl_discard_loop all locals (cnt - 1) items' stales (drops @ [?t]) save
          = Some (i, s, (drops @ [?t]) @ dr, save @ sv)" "heap_ok price_less i"
        "live_items all items' = live_items all i + mset dr + mset sv"
        "\<forall>t\<in>set dr. \<not> as_containsTx locals t" "\<forall>t\<in>set sv. as_containsTx locals t"
        "\<forall>t\<in>set dr. \<forall>s\<in>#live_items all i. tx_gasPrice t \<le> tx_gasPrice s"
        "int (length dr) \<le> cnt - 1" "int (length dr) < cnt - 1 \<longrightarrow> i = []"
        using IH [of "cnt - 1" stales "drops @ [?t]" save] False by auto
      have low: "tx_gasPrice ?t \<le> tx_gasPrice u" if "u \<in># live_items all i" for u
        using le r(3) that by simp
      show ?thesis
      proof (intro exI conjI)
        show "pl_discard_loop all locals cnt items stales drops save = Some (i, s, drops @ (?t # dr), save @ sv)"
          using r(1) 3 False p(1) by (simp add: unfold live_None)
      qed (use r 3 li low in auto)
    qed
  qed
qed

section \<open>What the priced list guarantees\<close>

lemma live_items_push:
  assumes "live_items all items = A + mset sv"
  shows "live_items all (fold (\<lambda>tx h. heap_Push price_less h tx) sv items')
     = live_items all items' + mset sv"
proof -
  have "t \<in># live_items all items" if "t \<in> set sv" for t using assms that by simp
  then have "\<forall>t\<in>set sv. live all t" by (simp add: live_items_def)
  then have "filter_mset (live all) (mset sv) = mset sv" by (simp add: filter_mset_eq_conv)
  then show ?thesis by (simp add: live_items_def push_all_mset)
qed

definition sample_pool :: "(hash \<times> tx) list" where
  "sample_pool = [(1, sample_tx 1 7 4 20 100), (2, sample_tx 2 8 5 10 900)]"

definition sample_priced :: txPricedList where
  "sample_priced = fold (\<lambda>t l. pl_Put l t)
     [sample_tx 1 7 4 20 100, sample_tx 3 9 0 1 1, sample_tx 2 8 5 10 900] newTxPricedList"

lemma sample_priced_ok: "pl_ok sample_priced"
  by (simp add: sample_priced_def pl_Put_ok pl_new_ok)

text \<open>\<open>Cap\<close> returns exactly the remote transactions of the pool below the price threshold;
  every other transaction of the pool stays in the heap, local ones below the threshold
  included, and the heap order is kept.\<close>

lemma pl_Cap_exact:
  assumes "pl_ok l"
  shows "\<exists>l' drops. pl_Cap all l th locals = Some (l', drops) \<and> pl_ok l'
    \<and> mset drops = filter_mset (\<lambda>t. tx_gasPrice t < th \<and> remote locals t) (live_items all (pl_items l))
    \<and> live_items all (pl_items l')
      = filter_mset (\<lambda>t. \<not> (tx_gasPrice t < th \<and> remote locals t)) (live_items all (pl_items l))"
proof -
  let ?L = "live_items all (pl_items l)" and ?P = "\<lambda>t. tx_gasPrice t < th \<and> remote locals t"
  obtain items stales dr sv where r:
    "pl_cap_loop all th locals (pl_items l) (pl_stales l) [] [] = Some (items, stales, dr, sv)"
    "heap_ok price_less items" "?L = live_items all items + mset dr + mset sv"
    "mset dr = filter_mset ?P ?L"
    using pl_cap_loop_correct [OF assms [unfolded pl_ok_def], of all th locals "pl_stales l" "[]" "[]"]
    unfolding append_Nil remote_def by blast
  let ?h = "fold (\<lambda>tx h. heap_Push price_less h tx) sv items"
  have "?L = mset dr + filter_mset (\<lambda>t. \<not> ?P t) ?L" unfolding r(4) by (rule multiset_partition)
  moreover have "?L = mset dr + (live_items all items + mset sv)" by (subst r(3)) (simp only: ac_simps)
  ultimately have "live_items all items + mset sv = filter_mset (\<lambda>t. \<not> ?P t) ?L"
    by (metis add_left_cancel)
  then have "live_items all ?h = filter_mset (\<lambda>t. \<not> ?P t) ?L"
    by (simp only: live_items_push [OF r(3)])
  moreover have "pl_Cap all l th locals = Some (l\<lparr>pl_items := ?h, pl_stales := stales\<rparr>, dr)"
    by (simp add: pl_Cap_def r(1))
  ultimately show ?thesis using r(4) push_all_ok [OF r(2), of sv] by (fastforce simp: pl_ok_def)
qed

text \<open>A transaction is reported underpriced exactly when its sender is not local, the pool
  holds a transaction, and none of them is cheaper.  Asking changes no live entry.\<close>

lemma pl_Underpriced_iff:
  assumes "pl_ok l"
  shows "\<exists>l' u. pl_Underpriced all l tx locals = Some (l', u) \<and> pl_ok l'
    \<and> live_items all (pl_items l') = live_items all (pl_items l)
    \<and> (u \<longleftrightarrow> remote locals tx \<and> live_items all (pl_items l) \<noteq> {#}
        \<and> (\<forall>t\<in>#live_items all (pl_items l). tx_gasPrice tx \<le> tx_gasPrice t))"
proof (cases "as_containsTx locals tx")
  case True
  then show ?thesis using assms by (auto simp: pl_Underpriced_def remote_def)
next
  case False
  let ?L = "live_items all (pl_items l)"
  obtain items stales where r: "pl_prune_loop all (pl_items l) (pl_stales l) = Some (items, stales)"
    "heap_ok price_less items" "live_items all items = ?L" "items \<noteq> [] \<longrightarrow> live all (items ! 0)"
    using pl_prune_loop_correct [OF assms [unfolded pl_ok_def], of all "pl_stales l"] by blast
  show ?thesis
  proof (cases "items = []")
    case True
    then have "?L = {#}" using r(3) by (simp add: live_items_def)
    then show ?thesis using False True r
      by (auto simp: pl_Underpriced_def pl_ok_def)
  next
    case ne: False
    then have head: "items ! 0 \<in># ?L" using r(4) unfolding r(3) [symmetric] by (simp add: live_items_def)
    have "tx_gasPrice (items ! 0) \<le> tx_gasPrice t" if "t \<in># ?L" for t
      using that price_heap.heap_least [OF r(2), of t] unfolding r(3) [symmetric]
      by (simp add: live_items_def)
    then have "tx_gasPrice tx \<le> tx_gasPrice (items ! 0)
        \<longleftrightarrow> ?L \<noteq> {#} \<and> (\<forall>t\<in>#?L. tx_gasPrice tx \<le> tx_gasPrice t)"
      using head by (auto intro: order_trans)
    then show ?thesis using False ne r by (simp add: pl_Underpriced_def pl_ok_def remote_def)
  qed
qed

lemma pl_Discard_spec:
  assumes "pl_ok l" "0 \<le> cnt"
  shows "\<exists>l' drops. pl_Discard all l cnt locals = Some (l', drops) \<and> pl_ok l'
    \<and> live_items all (pl_items l) = live_items all (pl_items l') + mset drops
    \<and> (\<forall>d\<in>set drops. remote locals d)
    \<and> int (length drops) = min cnt (int (size (filter_mset (remote locals) (live_items all (pl_items l)))))
    \<and> (\<forall>d\<in>set drops. \<forall>t\<in>#live_items all (pl_items l'). remote locals t \<longrightarrow> tx_gasPrice d \<le> tx_gasPrice t)"
proof -
  let ?L = "live_items all (pl_items l)"
  obtain items stales dr sv where r:
    "pl_discard_loop all locals cnt (pl_items l) (pl_stales l) [] [] = Some (items, stales, dr, sv)"
    "heap_ok price_less items" "?L = live_items all items + mset dr + mset sv"
    "\<forall>t\<in>set dr. remote locals t" "\<forall>t\<in>set sv. \<not> remote locals t"
    "\<forall>t\<in>set dr. \<forall>s\<in>#live_items all items. tx_gasPrice t \<le> tx_gasPrice s"
    "int (length dr) \<le> cnt" "int (length dr) < cnt \<longrightarrow> items = []"
    using pl_discard_loop_correct [OF assms [unfolded pl_ok_def], of all locals "pl_stales l" "[]" "[]"]
    unfolding append_Nil remote_def not_not by blast
  let ?h = "fold (\<lambda>tx h. heap_Push price_less h tx) sv items"
  have h: "live_items all ?h = live_items all items + mset sv" by (rule live_items_push [OF r(3)])
  have "filter_mset (remote locals) (mset dr) = mset dr" "filter_mset (remote locals) (mset sv) = {#}"
    using r(4,5) by (simp_all add: filter_mset_eq_conv)
  then have "size (filter_mset (remote locals) ?L)
      = size (filter_mset (remote locals) (live_items all items)) + length dr"
    unfolding r(3) by simp
  then have "int (length dr) = min cnt (int (size (filter_mset (remote locals) ?L)))"
    using r(7,8) by (cases "int (length dr) < cnt") (auto simp: live_items_def)
  moreover have "pl_Discard all l cnt locals = Some (l\<lparr>pl_items := ?h, pl_stales := stales\<rparr>, dr)"
    using assms(2) by (simp add: pl_Discard_def r(1))
  moreover have "?L = live_items all ?h + mset dr" unfolding h r(3) by (simp only: ac_simps)
  moreover have "\<forall>d\<in>set dr. \<forall>t\<in>#live_items all ?h. remote locals t \<longrightarrow> tx_gasPrice d \<le> tx_gasPrice t"
    unfolding h using r(5,6) by auto
  ultimately show ?thesis using r(4) push_all_ok [OF r(2), of sv] by (fastforce simp: pl_ok_def)
qed

text \<open>(C17) \<open>Discard\<close> with a non-negative count returns that many remote transactions of the
  pool, or all of them when there are fewer, and none it leaves is cheaper than one it returns;
  local transactions are never returned and stay in the heap.\<close>

theorem pl_Discard_cheapest:
  assumes "pl_ok l" "0 \<le> cnt"
  shows "\<exists>l' drops. pl_Discard all l cnt locals = Some (l', drops) \<and> pl_ok l'
    \<and> live_items all (pl_items l) = live_items all (pl_items l') + mset drops
    \<and> (\<forall>d\<in>set drops. remote locals d)
    \<and> int (length drops) = min cnt (int (size (filter_mset (remote locals) (live_items all (pl_items l)))))
    \<and> (\<forall>d\<in>set drops. \<forall>t\<in>#live_items all (pl_items l'). remote locals t \<longrightarrow> tx_gasPrice d \<le> tx_gasPrice t)"
  using pl_Discard_spec [OF assms] .

theorem pl_Discard_cheapest_witness:
  "\<exists>l' drops. pl_Discard sample_pool sample_priced 1 [] = Some (l', drops) \<and> length drops = 1"
proof -
  let ?L = "live_items sample_pool (pl_items sample_priced)"
  have "?L = {#sample_tx 1 7 4 20 100, sample_tx 2 8 5 10 900#}" by code_simp
  then have "size (filter_mset (remote []) ?L) = 2"
    by (simp add: remote_def as_containsTx_def as_contains_def sample_tx_def)
  then show ?thesis using pl_Discard_cheapest [OF sample_priced_ok, of 1 sample_pool "[]"] by auto
qed

text \<open>\<open>Removed\<close> counts one more stale entry; once the count passes a quarter of the heap it
  rebuilds the heap from the pool, after which the heap holds exactly the pool's transactions
  and the count is zero.\<close>

lemma pl_Removed_reheap:
  assumes "pl_ok l"
  shows "pl_ok (pl_Removed all l)
    \<and> (if pl_stales l + 1 \<le> int (length (pl_items l) div 4)
       then pl_items (pl_Removed all l) = pl_items l \<and> pl_stales (pl_Removed all l) = pl_stales l + 1
       else mset (pl_items (pl_Removed all l)) = mset (map snd all) \<and> pl_stales (pl_Removed all l) = 0)"
  using assms pl_Removed_ok [of l all] by (simp add: pl_Removed_def Let_def price_heap.heap_Init_mset)

end
