(* ===== verification/Tx_Journal.thy ===== *)
theory Tx_Journal
  imports Chain_Types
begin

text \<open>
  \<open>core/tx_journal.go\<close>: the file in which the pool keeps its local transactions over a
  restart.  The journal's file is the list of the records it holds; a record that does not
  decode is \<open>None\<close>.  What the file system answers to each call is an argument.
\<close>

record txJournal =
  j_writer :: bool
  j_file :: "tx option list option"

datatype journal_error = errNoActiveJournal | errIO | errDecode

text \<open>One answer per call of \<open>os\<close> and of the RLP encoder: a write leaves some records behind and
  says whether it succeeded.\<close>

record journal_io =
  jio_stat_open :: bool
  jio_close :: bool
  jio_create :: bool
  jio_write :: "tx \<Rightarrow> tx option list \<times> bool"
  jio_rename :: bool
  jio_reopen :: bool

definition newTxJournal :: "tx option list option \<Rightarrow> txJournal" where
  "newTxJournal file = \<lparr>j_writer = False, j_file = file\<rparr>"

fun load_loop :: "(tx \<Rightarrow> 'p \<Rightarrow> (bool \<times> 'p) go) \<Rightarrow> tx option list \<Rightarrow> 'p \<Rightarrow> (journal_error option \<times> 'p) go" where
  "load_loop add [] p = Some (None, p)"
| "load_loop add (None # records) p = Some (Some errDecode, p)"
| "load_loop add (Some tx # records) p =
     (case add tx p of None \<Rightarrow> None | Some (_, p') \<Rightarrow> load_loop add records p')"

definition journal_load ::
  "journal_io \<Rightarrow> (tx \<Rightarrow> 'p \<Rightarrow> (bool \<times> 'p) go) \<Rightarrow> txJournal \<Rightarrow> 'p \<Rightarrow> (journal_error option \<times> 'p) go" where
  "journal_load io add j p =
     (case j_file j of
        None \<Rightarrow> Some (None, p)
      | Some records \<Rightarrow> if \<not> jio_stat_open io then Some (Some errIO, p) else load_loop add records p)"

definition journal_insert :: "journal_io \<Rightarrow> tx \<Rightarrow> txJournal \<Rightarrow> journal_error option \<times> txJournal" where
  "journal_insert io tx j =
     (if \<not> j_writer j then (Some errNoActiveJournal, j)
      else let (written, ok) = jio_write io tx;
               j = j\<lparr>j_file := Some ((case j_file j of None \<Rightarrow> [] | Some records \<Rightarrow> records) @ written)\<rparr>
           in (if ok then None else Some errIO, j))"

fun write_all :: "journal_io \<Rightarrow> tx list \<Rightarrow> tx option list \<Rightarrow> tx option list option" where
  "write_all io [] replacement = Some replacement"
| "write_all io (tx # txs) replacement =
     (case jio_write io tx of
        (written, ok) \<Rightarrow> if ok then write_all io txs (replacement @ written) else None)"

definition journal_rotate ::
  "journal_io \<Rightarrow> (address \<times> tx list) list \<Rightarrow> txJournal \<Rightarrow> journal_error option \<times> txJournal" where
  "journal_rotate io all j =
     (if j_writer j \<and> \<not> jio_close io then (Some errIO, j)
      else let j = j\<lparr>j_writer := False\<rparr> in
        if \<not> jio_create io then (Some errIO, j)
        else case write_all io (concat (map snd all)) [] of
            None \<Rightarrow> (Some errIO, j)
          | Some replacement \<Rightarrow>
              if \<not> jio_rename io then (Some errIO, j)
              else let j = j\<lparr>j_file := Some replacement\<rparr> in
                if \<not> jio_reopen io then (Some errIO, j)
                else (None, j\<lparr>j_writer := True\<rparr>))"

definition journal_close :: "journal_io \<Rightarrow> txJournal \<Rightarrow> journal_error option \<times> txJournal" where
  "journal_close io j =
     (if j_writer j then (if jio_close io then None else Some errIO, j\<lparr>j_writer := False\<rparr>) else (None, j))"

text \<open>A write that succeeds leaves exactly the transaction's record.\<close>

definition io_laws :: "journal_io \<Rightarrow> bool" where
  "io_laws io \<longleftrightarrow> (\<forall>tx. snd (jio_write io tx) \<longrightarrow> fst (jio_write io tx) = [Some tx])"

lemma write_all_records:
  assumes "io_laws io" "write_all io txs acc = Some records"
  shows "records = acc @ map Some txs"
  using assms(2)
proof (induction txs arbitrary: acc)
  case (Cons tx txs)
  then obtain written where w: "jio_write io tx = (written, True)" "write_all io txs (acc @ written) = Some records"
    by (auto split: prod.splits if_splits)
  then have "written = [Some tx]" using assms(1) by (metis io_laws_def fst_conv snd_conv)
  then show ?case using Cons.IH [OF w(2)] by simp
qed simp

lemma load_loop_fold:
  "load_loop add (map Some txs) p = map_option (Pair None) (fold (\<lambda>tx r. Option.bind r (\<lambda>p. map_option snd (add tx p))) txs (Some p))"
proof (induction txs arbitrary: p)
  case (Cons tx txs)
  have none: "fold (\<lambda>tx r. Option.bind r (\<lambda>p. map_option snd (add tx p))) txs None = None"
    by (induction txs) simp_all
  show ?case using Cons by (cases "add tx p") (auto simp: none)
qed simp

lemma write_all_total: "(\<forall>t. snd (jio_write io t)) \<Longrightarrow> write_all io ts acc \<noteq> None"
proof (induction ts arbitrary: acc)
  case (Cons t ts)
  then show ?case by (cases "jio_write io t") (metis (mono_tags, lifting) case_prod_conv snd_conv write_all.simps(2))
qed simp

end
