(* ===== verification/Tx_Pool.thy ===== *)
theory Tx_Pool
  imports State_Processor Tx_List Tx_Priced Tx_Journal "HOL-Library.Log_Nat"
begin

text \<open>
  \<open>core/tx_pool.go\<close>: the pool's state and its operations.  The chain, the account state, the
  managed state of virtual nonces, the priority queue and the chain parameters are other
  packages' and come in as a record.  Locks, logs and metrics are left out; a transaction
  handed to \<open>txFeed\<close> is appended to \<open>p_feed\<close>.  A Go length is below \<open>2\<^sup>6\<^sup>3\<close>, so the conversions
  of lengths to \<open>uint64\<close> and the sums of lengths are exact.
\<close>

section \<open>Configuration\<close>

record TxPoolConfig =
  NoLocals :: bool
  Journal :: bool
  Rejournal :: int
  PriceLimit :: u64
  PriceBump :: u64
  AccountSlots :: u64
  GlobalSlots :: u64
  AccountQueue :: u64
  GlobalQueue :: u64
  Lifetime :: int

definition DefaultTxPoolConfig :: TxPoolConfig where
  "DefaultTxPoolConfig =
     \<lparr>NoLocals = False, Journal = True, Rejournal = 3600 * 10 ^ 9, PriceLimit = 1000000000, PriceBump = 10,
      AccountSlots = 8196, GlobalSlots = 40960, AccountQueue = 8196, GlobalQueue = 8196,
      Lifetime = 60 * 10 ^ 9\<rparr>"

definition sanitize :: "TxPoolConfig \<Rightarrow> TxPoolConfig" where
  "sanitize conf =
     (let conf = (if Rejournal conf < 10 ^ 9 then conf\<lparr>Rejournal := 10 ^ 9\<rparr> else conf);
          conf = (if PriceLimit conf < 1 then conf\<lparr>PriceLimit := PriceLimit DefaultTxPoolConfig\<rparr> else conf)
      in if PriceBump conf < 1 then conf\<lparr>PriceBump := PriceBump DefaultTxPoolConfig\<rparr> else conf)"

section \<open>State\<close>

datatype pool_error =
    ErrInvalidSender | errCore core_error | ErrUnderpriced | ErrReplaceUnderpriced | ErrInsufficientFunds
  | ErrIntrinsicGas | ErrGasLimit | ErrNegativeValue | ErrOversizedData | ErrMaximumChainId
  | ErrClassicTxNotEnabled | errKnown

record ('s, 'm) TxPool =
  p_config :: TxPoolConfig
  p_gasPrice :: int
  p_currentState :: 's
  p_pendingState :: 'm
  p_currentMaxGas :: int
  p_locals :: accountSet
  p_journal :: "txJournal option"
  p_pending :: "(address \<times> txList) list"
  p_queue :: "(address \<times> txList) list"
  p_beats :: "(address \<times> int) list"
  p_all :: "(hash \<times> tx) list"
  p_priced :: txPricedList
  p_pangu :: bool
  p_feed :: "tx list"

text \<open>What the pool reads of the rest of the node during one call: the state interfaces, the chain,
  the clock, the order of \<open>range\<close> over a map keyed by addresses, and the order in which
  \<open>prque\<close> pops what was pushed with a priority.\<close>

record ('s, 'm) pool_env =
  pe_db :: "'s statedb"
  pe_gas :: gas_table
  pe_ManageState :: "'s \<Rightarrow> 'm"
  pe_GetNonce :: "'m \<Rightarrow> address \<Rightarrow> u64"
  pe_SetNonce :: "'m \<Rightarrow> address \<Rightarrow> u64 \<Rightarrow> 'm"
  pe_MaximumTxSize :: u64
  pe_MaxChainId :: int
  pe_EnableClassicTx :: int
  pe_IsPangu :: "int \<Rightarrow> bool"
  pe_CurrentHeader :: header
  pe_GetBlock :: "hash \<Rightarrow> u64 \<Rightarrow> block option"
  pe_StateAt :: "hash \<Rightarrow> int \<Rightarrow> 's option"
  pe_TxDifference :: "tx list \<Rightarrow> tx list \<Rightarrow> tx list"
  pe_now :: int
  pe_range :: "address list \<Rightarrow> address list"
  pe_prque :: "(address \<times> int) list \<Rightarrow> address list"
  pe_io :: journal_io

text \<open>\<open>types.Sender\<close> returns the zero address with its error.\<close>

definition sender :: "tx \<Rightarrow> address" where
  "sender tx = (case tx_sender tx of None \<Rightarrow> 0 | Some a \<Rightarrow> a)"

section \<open>Validation\<close>

definition validateTx :: "('s, 'm) pool_env \<Rightarrow> tx \<Rightarrow> bool \<Rightarrow> ('s, 'm) TxPool \<Rightarrow> pool_error option" where
  "validateTx env tx local p =
     (if tx_size tx > pe_MaximumTxSize env then Some ErrOversizedData
      else if tx_value tx < 0 then Some ErrNegativeValue
      else if tx_isClassic tx \<and> big_Uint64 (h_number (pe_CurrentHeader env)) < big_Uint64 (pe_EnableClassicTx env)
      then Some ErrClassicTxNotEnabled
      else if tx_chainId tx \<ge> pe_MaxChainId env then Some ErrMaximumChainId
      else if p_currentMaxGas p < tx_gasLimit tx then Some ErrGasLimit
      else case tx_sender tx of
          None \<Rightarrow> Some ErrInvalidSender
        | Some from \<Rightarrow>
            let local = local \<or> as_contains (p_locals p) from in
            if \<not> local \<and> p_gasPrice p > tx_gasPrice tx then Some ErrUnderpriced
            else if GetNonce (pe_db env) (p_currentState p) from > tx_nonce tx then Some (errCore ErrNonceTooLow)
            else if GetBalance (pe_db env) (p_currentState p) from < tx_cost tx then Some ErrInsufficientFunds
            else let intrGas = IntrinsicGas (pe_gas env) (tx_data tx) (tx_to tx = None) (p_pangu p) in
              if tx_gasLimit tx < intrGas then Some ErrIntrinsicGas else None)"

section \<open>Insertion and removal\<close>

text \<open>The pair of statements \<open>delete(pool.all, hash); pool.priced.Removed()\<close> of every removal; the
  list operations return pointers, of which a nil one would panic at \<open>tx.Hash()\<close>.\<close>

definition forget :: "hash \<Rightarrow> ('s, 'm) TxPool \<Rightarrow> ('s, 'm) TxPool" where
  "forget h p =
     (let all = AList.delete h (p_all p)
      in p\<lparr>p_all := all, p_priced := pl_Removed all (p_priced p)\<rparr>)"

fun forget_all :: "tx option list \<Rightarrow> ('s, 'm) TxPool \<Rightarrow> ('s, 'm) TxPool go" where
  "forget_all [] p = Some p"
| "forget_all (None # txs) p = None"
| "forget_all (Some tx # txs) p = forget_all txs (forget (tx_hash tx) p)"

definition remember :: "hash \<Rightarrow> tx \<Rightarrow> ('s, 'm) TxPool \<Rightarrow> ('s, 'm) TxPool" where
  "remember h tx p = p\<lparr>p_all := AList.update h tx (p_all p), p_priced := pl_Put (p_priced p) tx\<rparr>"

definition enqueueTx ::
  "hash \<Rightarrow> tx \<Rightarrow> ('s, 'm) TxPool \<Rightarrow> (pool_error + bool) \<times> ('s, 'm) TxPool" where
  "enqueueTx h tx p =
     (let from = sender tx;
          list = (case map_of (p_queue p) from of None \<Rightarrow> newTxList False | Some l \<Rightarrow> l);
          (list, inserted, old) = tl_Add list tx (PriceBump (p_config p));
          p = p\<lparr>p_queue := AList.update from list (p_queue p)\<rparr>
      in if \<not> inserted then (Inl ErrReplaceUnderpriced, p)
         else let p = (case old of None \<Rightarrow> p | Some o' \<Rightarrow> forget (tx_hash o') p)
              in (Inr (old \<noteq> None), remember h tx p))"

definition journalTx :: "('s, 'm) pool_env \<Rightarrow> address \<Rightarrow> tx \<Rightarrow> ('s, 'm) TxPool \<Rightarrow> ('s, 'm) TxPool" where
  "journalTx env from tx p =
     (case p_journal p of
        None \<Rightarrow> p
      | Some j \<Rightarrow> if \<not> as_contains (p_locals p) from then p
                 else p\<lparr>p_journal := Some (snd (journal_insert (pe_io env) tx j))\<rparr>)"

definition promoteTx :: "('s, 'm) pool_env \<Rightarrow> address \<Rightarrow> hash \<Rightarrow> tx \<Rightarrow> ('s, 'm) TxPool \<Rightarrow> ('s, 'm) TxPool" where
  "promoteTx env addr h tx p =
     (let list = (case map_of (p_pending p) addr of None \<Rightarrow> newTxList True | Some l \<Rightarrow> l);
          (list, inserted, old) = tl_Add list tx (PriceBump (p_config p));
          p = p\<lparr>p_pending := AList.update addr list (p_pending p)\<rparr>
      in if \<not> inserted then forget h p
         else let p = (case old of None \<Rightarrow> p | Some o' \<Rightarrow> forget (tx_hash o') p);
                  p = (if map_of (p_all p) h = None then remember h tx p else p)
              in p\<lparr>p_pendingState := pe_SetNonce env (p_pendingState p) addr (tx_nonce tx + 1),
                   p_beats := AList.update addr (pe_now env) (p_beats p),
                   p_feed := p_feed p @ [tx]\<rparr>)"

fun promote_all :: "('s, 'm) pool_env \<Rightarrow> address \<Rightarrow> tx option list \<Rightarrow> ('s, 'm) TxPool \<Rightarrow> ('s, 'm) TxPool go" where
  "promote_all env addr [] p = Some p"
| "promote_all env addr (None # txs) p = None"
| "promote_all env addr (Some tx # txs) p = promote_all env addr txs (promoteTx env addr (tx_hash tx) tx p)"

text \<open>The loops \<open>for _, tx := range invalids\<close> that call \<open>enqueueTx\<close> and ignore its result.\<close>

definition enqueue_all :: "tx list \<Rightarrow> ('s, 'm) TxPool \<Rightarrow> ('s, 'm) TxPool" where
  "enqueue_all txs p = fold (\<lambda>tx p. snd (enqueueTx (tx_hash tx) tx p)) txs p"

definition lower_nonce :: "('s, 'm) pool_env \<Rightarrow> address \<Rightarrow> u64 \<Rightarrow> ('s, 'm) TxPool \<Rightarrow> ('s, 'm) TxPool" where
  "lower_nonce env addr nonce p =
     (if pe_GetNonce env (p_pendingState p) addr > nonce
      then p\<lparr>p_pendingState := pe_SetNonce env (p_pendingState p) addr nonce\<rparr> else p)"

text \<open>The tail of \<open>removeTx\<close>: the transaction is in the future queue.\<close>

definition remove_queued :: "address \<Rightarrow> tx \<Rightarrow> ('s, 'm) TxPool \<Rightarrow> ('s, 'm) TxPool go" where
  "remove_queued addr tx p =
     (case map_of (p_queue p) addr of
        None \<Rightarrow> Some p
      | Some future \<Rightarrow> do {
          (future, _, _) \<leftarrow> tl_Remove future tx;
          Some (p\<lparr>p_queue := (if tl_Empty future then AList.delete addr (p_queue p)
                              else AList.update addr future (p_queue p))\<rparr>) })"

definition removeTx :: "('s, 'm) pool_env \<Rightarrow> hash \<Rightarrow> ('s, 'm) TxPool \<Rightarrow> ('s, 'm) TxPool go" where
  "removeTx env h p0 =
     (case map_of (p_all p0) h of
        None \<Rightarrow> Some p0
      | Some tx \<Rightarrow>
          let addr = sender tx; p = forget h p0 in
          case map_of (p_pending p) addr of
            None \<Rightarrow> remove_queued addr tx p
          | Some pending \<Rightarrow> do {
              (pending, removed, invalids) \<leftarrow> tl_Remove pending tx;
              let p = p\<lparr>p_pending := AList.update addr pending (p_pending p)\<rparr>;
              if removed
              then let p = (if tl_Empty pending
                            then p\<lparr>p_pending := AList.delete addr (p_pending p), p_beats := AList.delete addr (p_beats p)\<rparr>
                            else enqueue_all invalids p)
                   in Some (lower_nonce env addr (tx_nonce tx) p)
              else remove_queued addr tx p })"

fun remove_all :: "('s, 'm) pool_env \<Rightarrow> tx list \<Rightarrow> ('s, 'm) TxPool \<Rightarrow> ('s, 'm) TxPool go" where
  "remove_all env [] p = Some p"
| "remove_all env (tx # txs) p = do { p \<leftarrow> removeTx env (tx_hash tx) p; remove_all env txs p }"

section \<open>Adding\<close>

text \<open>The block that makes room in a full pool.  The count handed to \<open>Discard\<close> is computed on
  signed integers, from the unsigned sum less one.\<close>

definition make_room ::
  "('s, 'm) pool_env \<Rightarrow> tx \<Rightarrow> ('s, 'm) TxPool \<Rightarrow> (pool_error option \<times> ('s, 'm) TxPool) go" where
  "make_room env tx p =
     (let limit = GlobalSlots (p_config p) + GlobalQueue (p_config p) in
      if int (length (p_all p)) \<ge> uint limit then do {
        (priced, underpriced) \<leftarrow> pl_Underpriced (p_all p) (p_priced p) tx (p_locals p);
        let p = p\<lparr>p_priced := priced\<rparr>;
        if underpriced then Some (Some ErrUnderpriced, p)
        else do {
          (priced, drops) \<leftarrow> pl_Discard (p_all p) (p_priced p) (int (length (p_all p)) - sint (limit - 1)) (p_locals p);
          p \<leftarrow> remove_all env drops (p\<lparr>p_priced := priced\<rparr>);
          Some (None, p) } }
      else Some (None, p))"

text \<open>The end of \<open>add\<close>: replace a pending transaction with the same nonce, or enqueue.\<close>

definition place_queued ::
  "('s, 'm) pool_env \<Rightarrow> tx \<Rightarrow> bool \<Rightarrow> ('s, 'm) TxPool \<Rightarrow> (pool_error + bool) \<times> ('s, 'm) TxPool" where
  "place_queued env tx local p =
     (case enqueueTx (tx_hash tx) tx p of
        (Inl err, p) \<Rightarrow> (Inl err, p)
      | (Inr replace, p) \<Rightarrow>
          let p = (if local then p\<lparr>p_locals := as_add (p_locals p) (sender tx)\<rparr> else p)
          in (Inr replace, journalTx env (sender tx) tx p))"

definition place_tx ::
  "('s, 'm) pool_env \<Rightarrow> tx \<Rightarrow> bool \<Rightarrow> ('s, 'm) TxPool \<Rightarrow> (pool_error + bool) \<times> ('s, 'm) TxPool" where
  "place_tx env tx local p =
     (let from = sender tx in
      case map_of (p_pending p) from of
        Some list \<Rightarrow>
          if tl_Overlaps list tx then
            let (list, inserted, old) = tl_Add list tx (PriceBump (p_config p));
                p = p\<lparr>p_pending := AList.update from list (p_pending p)\<rparr>
            in if \<not> inserted then (Inl ErrReplaceUnderpriced, p)
               else let p = (case old of None \<Rightarrow> p | Some o' \<Rightarrow> forget (tx_hash o') p);
                        p = journalTx env from tx (remember (tx_hash tx) tx p)
                    in (Inr (old \<noteq> None), p\<lparr>p_feed := p_feed p @ [tx]\<rparr>)
          else place_queued env tx local p
      | None \<Rightarrow> place_queued env tx local p)"

definition pool_add ::
  "('s, 'm) pool_env \<Rightarrow> tx \<Rightarrow> bool \<Rightarrow> ('s, 'm) TxPool \<Rightarrow> ((pool_error + bool) \<times> ('s, 'm) TxPool) go" where
  "pool_add env tx local p =
     (if map_of (p_all p) (tx_hash tx) \<noteq> None then Some (Inl errKnown, p)
      else case validateTx env tx local p of
          Some err \<Rightarrow> Some (Inl err, p)
        | None \<Rightarrow> do {
            (full, p) \<leftarrow> make_room env tx p;
            case full of
              Some err \<Rightarrow> Some (Inl err, p)
            | None \<Rightarrow> Some (place_tx env tx local p) })"

section \<open>Promotion\<close>

text \<open>One account of the first loop of \<open>promoteExecutables\<close>.\<close>

definition promote_account :: "('s, 'm) pool_env \<Rightarrow> address \<Rightarrow> ('s, 'm) TxPool \<Rightarrow> ('s, 'm) TxPool go" where
  "promote_account env addr p =
     (case map_of (p_queue p) addr of
        None \<Rightarrow> Some p
      | Some list \<Rightarrow> do {
          (list, old) \<leftarrow> tl_Forward list (GetNonce (pe_db env) (p_currentState p) addr);
          p \<leftarrow> forget_all old (p\<lparr>p_queue := AList.update addr list (p_queue p)\<rparr>);
          let (list, drops, _) = tl_Filter list (GetBalance (pe_db env) (p_currentState p) addr) (p_currentMaxGas p);
          p \<leftarrow> forget_all (map Some drops) (p\<lparr>p_queue := AList.update addr list (p_queue p)\<rparr>);
          (list, ready) \<leftarrow> tl_Ready list (pe_GetNonce env (p_pendingState p) addr);
          p \<leftarrow> promote_all env addr ready (p\<lparr>p_queue := AList.update addr list (p_queue p)\<rparr>);
          (list, p) \<leftarrow>
            (if \<not> as_contains (p_locals p) addr then do {
               (list, drops) \<leftarrow> tl_Cap list (sint (AccountQueue (p_config p)));
               p \<leftarrow> forget_all drops (p\<lparr>p_queue := AList.update addr list (p_queue p)\<rparr>);
               Some (list, p) }
             else Some (list, p));
          Some (if tl_Empty list then p\<lparr>p_queue := AList.delete addr (p_queue p)\<rparr> else p) })"

fun promote_accounts :: "('s, 'm) pool_env \<Rightarrow> address list \<Rightarrow> ('s, 'm) TxPool \<Rightarrow> ('s, 'm) TxPool go" where
  "promote_accounts env [] p = Some p"
| "promote_accounts env (addr # accounts) p = do { p \<leftarrow> promote_account env addr p; promote_accounts env accounts p }"

definition len_at :: "(address \<times> txList) list \<Rightarrow> address \<Rightarrow> int" where
  "len_at m addr = (case map_of m addr of None \<Rightarrow> 0 | Some list \<Rightarrow> int (tl_Len list))"

definition count_txs :: "(address \<times> txList) list \<Rightarrow> int" where
  "count_txs m = int (sum_list (map (\<lambda>p. tl_Len (snd p)) m))"

text \<open>\<open>float32\<close> and \<open>float64\<close> of an unsigned integer keep its 24 or 53 leading bits, rounded to
  nearest and to even on a tie.\<close>

definition go_float :: "nat \<Rightarrow> int \<Rightarrow> int" where
  "go_float precision n =
     (let e = nat (bitlen n) - precision; q = n div 2 ^ e; r = n mod 2 ^ e
      in if 2 * r > 2 ^ e \<or> (2 * r = 2 ^ e \<and> e > 0 \<and> odd q) then (q + 1) * 2 ^ e else q * 2 ^ e)"

text \<open>One transaction less for an account, with its virtual nonce lowered: the body that the two
  loops against spammers share.  A missing list is a nil pointer.\<close>

fun forget_lowering :: "('s, 'm) pool_env \<Rightarrow> address \<Rightarrow> tx option list \<Rightarrow> ('s, 'm) TxPool \<Rightarrow> ('s, 'm) TxPool go" where
  "forget_lowering env addr [] p = Some p"
| "forget_lowering env addr (None # txs) p = None"
| "forget_lowering env addr (Some tx # txs) p =
     forget_lowering env addr txs (lower_nonce env addr (tx_nonce tx) (forget (tx_hash tx) p))"

definition cap_one :: "('s, 'm) pool_env \<Rightarrow> address \<Rightarrow> ('s, 'm) TxPool \<Rightarrow> ('s, 'm) TxPool go" where
  "cap_one env addr p = do {
     list \<leftarrow> map_of (p_pending p) addr;
     (list, drops) \<leftarrow> tl_Cap list (int (tl_Len list) - 1);
     forget_lowering env addr drops (p\<lparr>p_pending := AList.update addr list (p_pending p)\<rparr>) }"

fun cap_each :: "('s, 'm) pool_env \<Rightarrow> address list \<Rightarrow> ('s, 'm) TxPool \<Rightarrow> ('s, 'm) TxPool go" where
  "cap_each env [] p = Some p"
| "cap_each env (addr # addrs) p = do { p \<leftarrow> cap_one env addr p; cap_each env addrs p }"

text \<open>\<open>for pending > GlobalSlots && len(pending[last]) > threshold\<close>, both loops: the offenders to
  shrink are non-empty, or the index of the last one is out of range.\<close>

function shrink_loop ::
  "('s, 'm) pool_env \<Rightarrow> address list \<Rightarrow> int \<Rightarrow> int \<Rightarrow> ('s, 'm) TxPool \<Rightarrow> (int \<times> ('s, 'm) TxPool) go" where
  "shrink_loop env addrs threshold pending p =
     (if pending \<le> uint (GlobalSlots (p_config p)) then Some (pending, p)
      else if addrs = [] then None
      else case map_of (p_pending p) (last addrs) of
          None \<Rightarrow> None
        | Some list \<Rightarrow>
            if int (tl_Len list) \<le> threshold then Some (pending, p)
            else case cap_each env addrs p of
                None \<Rightarrow> None
              | Some p' \<Rightarrow> shrink_loop env addrs threshold (pending - int (length addrs)) p')"
  by pat_completeness auto
termination
  by (relation "measure (\<lambda>(env, addrs, threshold, pending, p). nat pending)")
    (auto simp: not_le neq_Nil_conv intro: le_less_trans [OF uint_ge_0])

declare shrink_loop.simps [simp del]

fun spam_loop ::
  "('s, 'm) pool_env \<Rightarrow> address list \<Rightarrow> address list \<Rightarrow> int \<Rightarrow> ('s, 'm) TxPool \<Rightarrow> (address list \<times> int \<times> ('s, 'm) TxPool) go" where
  "spam_loop env [] offenders pending p = Some (offenders, pending, p)"
| "spam_loop env (offender # spammers) offenders pending p =
     (if pending \<le> uint (GlobalSlots (p_config p)) then Some (offenders, pending, p)
      else if offenders = [] then spam_loop env spammers [offender] pending p
      else do {
        list \<leftarrow> map_of (p_pending p) offender;
        (pending, p) \<leftarrow> shrink_loop env offenders (int (tl_Len list)) pending p;
        spam_loop env spammers (offenders @ [offender]) pending p })"

definition limit_pending :: "('s, 'm) pool_env \<Rightarrow> ('s, 'm) TxPool \<Rightarrow> ('s, 'm) TxPool go" where
  "limit_pending env p =
     (let pending = count_txs (p_pending p) in
      if pending \<le> uint (GlobalSlots (p_config p)) then Some p
      else do {
        let rollers = filter (\<lambda>addr. \<not> as_contains (p_locals p) addr
              \<and> len_at (p_pending p) addr > uint (AccountSlots (p_config p)))
              (pe_range env (map fst (p_pending p)));
        let spammers = pe_prque env
              (map (\<lambda>addr. (addr, go_float 24 (len_at (p_pending p) addr))) rollers);
        (offenders, pending, p) \<leftarrow> spam_loop env spammers [] pending p;
        if pending > uint (GlobalSlots (p_config p)) \<and> offenders \<noteq> []
        then map_option snd (shrink_loop env offenders (uint (AccountSlots (p_config p))) pending p)
        else Some p })"

definition beat :: "('s, 'm) TxPool \<Rightarrow> address \<Rightarrow> int" where
  "beat p addr = (case map_of (p_beats p) addr of None \<Rightarrow> 0 | Some t \<Rightarrow> t)"

text \<open>The accounts from the end of the sorted slice; a list longer than the overflow loses its last
  transactions, and the overflow is then zero.\<close>

fun drop_queue :: "('s, 'm) pool_env \<Rightarrow> address list \<Rightarrow> int \<Rightarrow> ('s, 'm) TxPool \<Rightarrow> ('s, 'm) TxPool go" where
  "drop_queue env [] over p = Some p"
| "drop_queue env (addr # addresses) over p =
     (if over \<le> 0 then Some p
      else do {
        list \<leftarrow> map_of (p_queue p) addr;
        let sz = int (tl_Len list);
        let (list, txs) = tl_Flatten list;
        let p = p\<lparr>p_queue := AList.update addr list (p_queue p)\<rparr>;
        if sz \<le> over
        then do { p \<leftarrow> remove_all env txs p; drop_queue env addresses (over - sz) p }
        else remove_all env (take (nat over) (rev txs)) p })"

definition limit_queue :: "('s, 'm) pool_env \<Rightarrow> ('s, 'm) TxPool \<Rightarrow> ('s, 'm) TxPool go" where
  "limit_queue env p =
     (let queued = count_txs (p_queue p) in
      if queued \<le> uint (GlobalQueue (p_config p)) then Some p
      else let addresses = sort_key (beat p)
                 (filter (\<lambda>addr. \<not> as_contains (p_locals p) addr) (pe_range env (map fst (p_queue p))))
           in drop_queue env (rev addresses) (queued - uint (GlobalQueue (p_config p))) p)"

definition promoteExecutables ::
  "('s, 'm) pool_env \<Rightarrow> address list option \<Rightarrow> ('s, 'm) TxPool \<Rightarrow> ('s, 'm) TxPool go" where
  "promoteExecutables env accounts p = do {
     p \<leftarrow> promote_accounts env
           (case accounts of None \<Rightarrow> pe_range env (map fst (p_queue p)) | Some as \<Rightarrow> as) p;
     p \<leftarrow> limit_pending env p;
     limit_queue env p }"

section \<open>The pool's interface\<close>

definition addTx ::
  "('s, 'm) pool_env \<Rightarrow> tx \<Rightarrow> bool \<Rightarrow> ('s, 'm) TxPool \<Rightarrow> (pool_error option \<times> ('s, 'm) TxPool) go" where
  "addTx env tx local p =
     (case tx_sender tx of
        None \<Rightarrow> Some (Some ErrInvalidSender, p)
      | Some from \<Rightarrow> do {
          (r, p) \<leftarrow> pool_add env tx local p;
          case r of
            Inl err \<Rightarrow> Some (Some err, p)
          | Inr replace \<Rightarrow>
              if \<not> replace then do { p \<leftarrow> promoteExecutables env (Some [from]) p; Some (None, p) }
              else Some (None, p) })"

text \<open>The set \<open>dirty\<close> is kept as a list without repetition.\<close>

fun add_batch ::
  "('s, 'm) pool_env \<Rightarrow> tx list \<Rightarrow> bool \<Rightarrow> address list \<Rightarrow> ('s, 'm) TxPool \<Rightarrow> (address list \<times> ('s, 'm) TxPool) go" where
  "add_batch env [] local dirty p = Some (dirty, p)"
| "add_batch env (tx # txs) local dirty p = do {
     (r, p) \<leftarrow> pool_add env tx local p;
     add_batch env txs local (if r = Inr False then List.insert (sender tx) dirty else dirty) p }"

definition addTxsLocked ::
  "('s, 'm) pool_env \<Rightarrow> tx list \<Rightarrow> bool \<Rightarrow> ('s, 'm) TxPool \<Rightarrow> ('s, 'm) TxPool go" where
  "addTxsLocked env txs local p = do {
     (dirty, p) \<leftarrow> add_batch env txs local [] p;
     if dirty \<noteq> [] then promoteExecutables env (Some (pe_range env dirty)) p else Some p }"

definition AddLocal :: "('s, 'm) pool_env \<Rightarrow> tx \<Rightarrow> ('s, 'm) TxPool \<Rightarrow> (pool_error option \<times> ('s, 'm) TxPool) go" where
  "AddLocal env tx p = addTx env tx (\<not> NoLocals (p_config p)) p"

definition AddRemote :: "('s, 'm) pool_env \<Rightarrow> tx \<Rightarrow> ('s, 'm) TxPool \<Rightarrow> (pool_error option \<times> ('s, 'm) TxPool) go" where
  "AddRemote env tx p = addTx env tx False p"

definition AddLocals :: "('s, 'm) pool_env \<Rightarrow> tx list \<Rightarrow> ('s, 'm) TxPool \<Rightarrow> ('s, 'm) TxPool go" where
  "AddLocals env txs p = addTxsLocked env txs (\<not> NoLocals (p_config p)) p"

definition AddRemotes :: "('s, 'm) pool_env \<Rightarrow> tx list \<Rightarrow> ('s, 'm) TxPool \<Rightarrow> ('s, 'm) TxPool go" where
  "AddRemotes env txs p = addTxsLocked env txs False p"

definition SetGasPrice :: "('s, 'm) pool_env \<Rightarrow> int \<Rightarrow> ('s, 'm) TxPool \<Rightarrow> ('s, 'm) TxPool go" where
  "SetGasPrice env price p = do {
     (priced, drops) \<leftarrow> pl_Cap (p_all p) (p_priced p) price (p_locals p);
     remove_all env drops (p\<lparr>p_gasPrice := price, p_priced := priced\<rparr>) }"

definition stats :: "('s, 'm) TxPool \<Rightarrow> int \<times> int" where
  "stats p = (count_txs (p_pending p), count_txs (p_queue p))"

definition flatten_map :: "(address \<times> txList) list \<Rightarrow> (address \<times> txList) list \<times> (address \<times> tx list) list" where
  "flatten_map m =
     (map (\<lambda>(a, l). (a, fst (tl_Flatten l))) m, map (\<lambda>(a, l). (a, snd (tl_Flatten l))) m)"

definition Content ::
  "('s, 'm) TxPool \<Rightarrow> ('s, 'm) TxPool \<times> (address \<times> tx list) list \<times> (address \<times> tx list) list" where
  "Content p =
     (let (pending, ptxs) = flatten_map (p_pending p); (queue, qtxs) = flatten_map (p_queue p)
      in (p\<lparr>p_pending := pending, p_queue := queue\<rparr>, ptxs, qtxs))"

definition Pending :: "('s, 'm) TxPool \<Rightarrow> ('s, 'm) TxPool \<times> (address \<times> tx list) list" where
  "Pending p = (let (pending, txs) = flatten_map (p_pending p) in (p\<lparr>p_pending := pending\<rparr>, txs))"

definition pool_Get :: "hash \<Rightarrow> ('s, 'm) TxPool \<Rightarrow> tx option" where
  "pool_Get h p = map_of (p_all p) h"

definition local_txs :: "('s, 'm) pool_env \<Rightarrow> ('s, 'm) TxPool \<Rightarrow> (address \<times> tx list) list" where
  "local_txs env p =
     map (\<lambda>a. (a, (case map_of (p_pending p) a of None \<Rightarrow> [] | Some l \<Rightarrow> snd (tl_Flatten l))
                 @ (case map_of (p_queue p) a of None \<Rightarrow> [] | Some l \<Rightarrow> snd (tl_Flatten l))))
       (filter (\<lambda>a. map_of (p_pending p) a \<noteq> None \<or> map_of (p_queue p) a \<noteq> None) (pe_range env (p_locals p)))"

section \<open>Following the chain\<close>

definition demote_account :: "('s, 'm) pool_env \<Rightarrow> address \<Rightarrow> ('s, 'm) TxPool \<Rightarrow> ('s, 'm) TxPool go" where
  "demote_account env addr p = do {
     list \<leftarrow> map_of (p_pending p) addr;
     let nonce = GetNonce (pe_db env) (p_currentState p) addr;
     (list, old) \<leftarrow> tl_Forward list nonce;
     p \<leftarrow> forget_all old (p\<lparr>p_pending := AList.update addr list (p_pending p)\<rparr>);
     let (list, drops, invalids) = tl_Filter list (GetBalance (pe_db env) (p_currentState p) addr) (p_currentMaxGas p);
     p \<leftarrow> forget_all (map Some drops) (p\<lparr>p_pending := AList.update addr list (p_pending p)\<rparr>);
     let p = enqueue_all invalids p;
     (list, p) \<leftarrow>
       (if tl_Len list > 0 \<and> sm_Get (tl_txs list) nonce = None then do {
          (list, gapped) \<leftarrow> tl_Cap list 0;
          txs \<leftarrow> those gapped;
          Some (list, enqueue_all txs (p\<lparr>p_pending := AList.update addr list (p_pending p)\<rparr>)) }
        else Some (list, p));
     Some (if tl_Empty list
           then p\<lparr>p_pending := AList.delete addr (p_pending p), p_beats := AList.delete addr (p_beats p)\<rparr>
           else p) }"

fun demote_accounts :: "('s, 'm) pool_env \<Rightarrow> address list \<Rightarrow> ('s, 'm) TxPool \<Rightarrow> ('s, 'm) TxPool go" where
  "demote_accounts env [] p = Some p"
| "demote_accounts env (addr # accounts) p = do { p \<leftarrow> demote_account env addr p; demote_accounts env accounts p }"

definition demoteUnexecutables :: "('s, 'm) pool_env \<Rightarrow> ('s, 'm) TxPool \<Rightarrow> ('s, 'm) TxPool go" where
  "demoteUnexecutables env p = demote_accounts env (pe_range env (map fst (p_pending p))) p"

text \<open>The walk of a reorganisation.  The outer option is a panic or a walk that does not end; the
  inner \<open>None\<close> is the return at an unrooted chain.\<close>

abbreviation NumberU64 :: "block \<Rightarrow> u64" where
  "NumberU64 b \<equiv> big_Uint64 (h_number (b_header b))"

partial_function (option) walk_back ::
  "(hash \<Rightarrow> u64 \<Rightarrow> block option) \<Rightarrow> u64 \<Rightarrow> block \<Rightarrow> tx list \<Rightarrow> (block \<times> tx list) option option" where
  "walk_back GetBlock target b txs =
     (if NumberU64 b > target
      then (case GetBlock (h_parentHash (b_header b)) (NumberU64 b - 1) of
              None \<Rightarrow> Some None
            | Some b' \<Rightarrow> walk_back GetBlock target b' (txs @ b_txs b))
      else Some (Some (b, txs)))"

partial_function (option) walk_both ::
  "(hash \<Rightarrow> u64 \<Rightarrow> block option) \<Rightarrow> block \<Rightarrow> block \<Rightarrow> tx list \<Rightarrow> tx list \<Rightarrow> (tx list \<times> tx list) option option" where
  "walk_both GetBlock rem add discarded included =
     (if h_hash (b_header rem) \<noteq> h_hash (b_header add)
      then (case GetBlock (h_parentHash (b_header rem)) (NumberU64 rem - 1) of
              None \<Rightarrow> Some None
            | Some rem' \<Rightarrow>
                (case GetBlock (h_parentHash (b_header add)) (NumberU64 add - 1) of
                   None \<Rightarrow> Some None
                 | Some add' \<Rightarrow> walk_both GetBlock rem' add' (discarded @ b_txs rem) (included @ b_txs add)))
      else Some (Some (discarded, included)))"

definition reorg_txs :: "('s, 'm) pool_env \<Rightarrow> header \<Rightarrow> header \<Rightarrow> tx list option option" where
  "reorg_txs env oldHead newHead =
     (let oldNum = big_Uint64 (h_number oldHead); newNum = big_Uint64 (h_number newHead) in
      if \<bar>go_float 53 (uint oldNum) - go_float 53 (uint newNum)\<bar> > 64 then Some (Some [])
      else do {
        rem \<leftarrow> pe_GetBlock env (h_hash oldHead) oldNum;
        add \<leftarrow> pe_GetBlock env (h_hash newHead) newNum;
        r \<leftarrow> walk_back (pe_GetBlock env) (NumberU64 add) rem [];
        case r of None \<Rightarrow> Some None | Some (rem, discarded) \<Rightarrow> do {
          r \<leftarrow> walk_back (pe_GetBlock env) (NumberU64 rem) add [];
          case r of None \<Rightarrow> Some None | Some (add, included) \<Rightarrow> do {
            r \<leftarrow> walk_both (pe_GetBlock env) rem add discarded included;
            case r of None \<Rightarrow> Some None
            | Some (discarded, included) \<Rightarrow> Some (Some (pe_TxDifference env discarded included)) } } })"

fun pending_nonces :: "('s, 'm) pool_env \<Rightarrow> address list \<Rightarrow> ('s, 'm) TxPool \<Rightarrow> ('s, 'm) TxPool go" where
  "pending_nonces env [] p = Some p"
| "pending_nonces env (addr # accounts) p = do {
     list \<leftarrow> map_of (p_pending p) addr;
     let (list, txs) = tl_Flatten list;
     tx \<leftarrow> slice_at txs (int (length txs) - 1);
     pending_nonces env accounts
       (p\<lparr>p_pendingState := pe_SetNonce env (p_pendingState p) addr (tx_nonce tx + 1),
          p_pending := AList.update addr list (p_pending p)\<rparr>) }"

definition reset_to :: "('s, 'm) pool_env \<Rightarrow> tx list \<Rightarrow> header \<Rightarrow> ('s, 'm) TxPool \<Rightarrow> ('s, 'm) TxPool go" where
  "reset_to env reinject newHead p =
     (case pe_StateAt env (h_root newHead) (h_number newHead) of
        None \<Rightarrow> Some p
      | Some statedb \<Rightarrow> do {
          p \<leftarrow> addTxsLocked env reinject False
                 (p\<lparr>p_currentState := statedb, p_pendingState := pe_ManageState env statedb,
                    p_currentMaxGas := h_gasLimit newHead\<rparr>);
          p \<leftarrow> demoteUnexecutables env p;
          p \<leftarrow> pending_nonces env (pe_range env (map fst (p_pending p))) p;
          promoteExecutables env None p })"

definition pool_reset ::
  "('s, 'm) pool_env \<Rightarrow> header option \<Rightarrow> header \<Rightarrow> ('s, 'm) TxPool \<Rightarrow> ('s, 'm) TxPool go" where
  "pool_reset env oldHead newHead p =
     (case oldHead of
        Some old \<Rightarrow>
          if h_hash old \<noteq> h_parentHash newHead then do {
            r \<leftarrow> reorg_txs env old newHead;
            case r of None \<Rightarrow> Some p | Some reinject \<Rightarrow> reset_to env reinject newHead p }
          else reset_to env [] newHead p
      | None \<Rightarrow> reset_to env [] newHead p)"

section \<open>The event loop\<close>

definition on_head :: "('s, 'm) pool_env \<Rightarrow> header \<Rightarrow> header \<Rightarrow> ('s, 'm) TxPool \<Rightarrow> ('s, 'm) TxPool go" where
  "on_head env head block p =
     pool_reset env (Some head) block (if pe_IsPangu env (h_number block) then p\<lparr>p_pangu := True\<rparr> else p)"

text \<open>\<open>time.Since\<close> saturates at the largest duration.\<close>

fun evict_accounts :: "('s, 'm) pool_env \<Rightarrow> address list \<Rightarrow> ('s, 'm) TxPool \<Rightarrow> ('s, 'm) TxPool go" where
  "evict_accounts env [] p = Some p"
| "evict_accounts env (addr # accounts) p =
     (if as_contains (p_locals p) addr then evict_accounts env accounts p
      else if min (pe_now env - beat p addr) (2 ^ 63 - 1) > Lifetime (p_config p) then do {
        list \<leftarrow> map_of (p_queue p) addr;
        let (list, txs) = tl_Flatten list;
        p \<leftarrow> remove_all env txs (p\<lparr>p_queue := AList.update addr list (p_queue p)\<rparr>);
        evict_accounts env accounts p }
      else evict_accounts env accounts p)"

definition on_evict :: "('s, 'm) pool_env \<Rightarrow> ('s, 'm) TxPool \<Rightarrow> ('s, 'm) TxPool go" where
  "on_evict env p = evict_accounts env (pe_range env (map fst (p_queue p))) p"

definition on_rejournal :: "('s, 'm) pool_env \<Rightarrow> ('s, 'm) TxPool \<Rightarrow> ('s, 'm) TxPool" where
  "on_rejournal env p =
     (case p_journal p of
        None \<Rightarrow> p
      | Some j \<Rightarrow> p\<lparr>p_journal := Some (snd (journal_rotate (pe_io env) (local_txs env p) j))\<rparr>)"

text \<open>\<open>NewTxPool\<close>.  If the state of the head cannot be opened, the Go pool keeps nil fields that its
  first use dereferences; here no pool is made.\<close>

definition NewTxPool ::
  "('s, 'm) pool_env \<Rightarrow> TxPoolConfig \<Rightarrow> tx option list option \<Rightarrow> ('s, 'm) TxPool go" where
  "NewTxPool env config file =
     (let config = sanitize config; head = pe_CurrentHeader env in
      case pe_StateAt env (h_root head) (h_number head) of
        None \<Rightarrow> None
      | Some statedb \<Rightarrow> do {
          p \<leftarrow> pool_reset env None head
                 \<lparr>p_config = config, p_gasPrice = uint (PriceLimit config), p_currentState = statedb,
                  p_pendingState = pe_ManageState env statedb, p_currentMaxGas = h_gasLimit head,
                  p_locals = [], p_journal = None, p_pending = [], p_queue = [], p_beats = [], p_all = [],
                  p_priced = newTxPricedList, p_pangu = False, p_feed = []\<rparr>;
          if \<not> NoLocals config \<and> Journal config then do {
            let p = p\<lparr>p_journal := Some (newTxJournal file)\<rparr>;
            (_, p) \<leftarrow> journal_load (pe_io env)
              (\<lambda>tx p. map_option (\<lambda>(e, p). (e = None, p)) (AddLocal env tx p)) (newTxJournal file) p;
            Some (on_rejournal env p) }
          else Some p })"

text \<open>Every call that changes the pool, in whatever environment it finds.\<close>

inductive pool_step :: "(('s, 'm) pool_env \<Rightarrow> bool) \<Rightarrow> ('s, 'm) TxPool \<Rightarrow> ('s, 'm) TxPool \<Rightarrow> bool" for ok where
  step_add: "ok env \<Longrightarrow> addTx env tx local p = Some (e, p') \<Longrightarrow> pool_step ok p p'"
| step_addTxs: "ok env \<Longrightarrow> addTxsLocked env txs local p = Some p' \<Longrightarrow> pool_step ok p p'"
| step_price: "ok env \<Longrightarrow> SetGasPrice env price p = Some p' \<Longrightarrow> pool_step ok p p'"
| step_head: "ok env \<Longrightarrow> on_head env head block p = Some p' \<Longrightarrow> pool_step ok p p'"
| step_evict: "ok env \<Longrightarrow> on_evict env p = Some p' \<Longrightarrow> pool_step ok p p'"
| step_rejournal: "ok env \<Longrightarrow> pool_step ok p (on_rejournal env p)"
| step_content: "pool_step ok p (fst (Content p))"
| step_pending: "pool_step ok p (fst (Pending p))"

inductive_cases pool_stepE: "pool_step ok p p'"

end
