(* ===== verification/Tx_Pool_Inv.thy ===== *)
theory Tx_Pool_Inv
  imports Tx_Pool
begin

text \<open>
  The pool's bookkeeping: which transactions the pending and queued lists hold, that the map of
  all transactions knows each of them, and that the price heap covers that map.  Proved for every
  operation of \<open>Tx_Pool\<close>, with the transactions a call has taken out of one list and not yet put
  into another or forgotten as an explicit set.
\<close>

section \<open>The books\<close>

definition held :: "(address \<times> txList) list \<Rightarrow> tx set" where
  "held m = {t. \<exists>a l. map_of m a = Some l \<and> t \<in> set (tl_abs l)}"

definition lists_ok :: "bool \<Rightarrow> (address \<times> txList) list \<Rightarrow> bool" where
  "lists_ok strict m \<longleftrightarrow> go_ok m \<and> (\<forall>a l. map_of m a = Some l \<longrightarrow>
     tl_inv l \<and> tl_strict l = strict \<and> (\<forall>t\<in>set (tl_abs l). tx_sender t = Some a))"

definition one_per_slot :: "tx set \<Rightarrow> bool" where
  "one_per_slot S \<longleftrightarrow> (\<forall>t\<in>S. \<forall>u\<in>S. tx_sender t = tx_sender u \<and> tx_nonce t = tx_nonce u \<longrightarrow> t = u)"

definition keyed :: "(hash \<times> tx) list \<Rightarrow> bool" where
  "keyed all \<longleftrightarrow> go_ok all \<and> (\<forall>h t. map_of all h = Some t \<longrightarrow> tx_hash t = h \<and> tx_sender t \<noteq> None)"

definition book ::
  "bool \<Rightarrow> (address \<times> txList) list \<Rightarrow> bool \<Rightarrow> (address \<times> txList) list \<Rightarrow> tx set \<Rightarrow> (hash \<times> tx) list \<Rightarrow> bool" where
  "book s1 m1 s2 m2 X all \<longleftrightarrow> lists_ok s1 m1 \<and> lists_ok s2 m2 \<and> keyed all
     \<and> (\<forall>t\<in>held m1 \<union> held m2 \<union> X. map_of all (tx_hash t) = Some t)
     \<and> held m1 \<inter> held m2 = {} \<and> (held m1 \<union> held m2) \<inter> X = {}
     \<and> one_per_slot (held m1 \<union> held m2 \<union> X)"

lemma book_sym: "book s1 m1 s2 m2 X all = book s2 m2 s1 m1 X all"
  unfolding book_def by (simp only: conj_commute conj_left_commute Un_commute Int_commute)

lemma lists_okD:
  "lists_ok s m \<Longrightarrow> map_of m a = Some l \<Longrightarrow> tl_inv l \<and> tl_strict l = s \<and> (\<forall>t\<in>set (tl_abs l). tx_sender t = Some a)"
  by (simp add: lists_ok_def)

lemma heldI: "map_of m a = Some l \<Longrightarrow> t \<in> set (tl_abs l) \<Longrightarrow> t \<in> held m"
  by (auto simp: held_def)

lemma held_at:
  assumes "lists_ok s m" "tx_sender t = Some a"
  shows "t \<in> held m \<longleftrightarrow> (\<exists>l. map_of m a = Some l \<and> t \<in> set (tl_abs l))"
  using assms unfolding held_def lists_ok_def by fastforce

lemma held_sender: "lists_ok s m \<Longrightarrow> t \<in> held m \<Longrightarrow> \<exists>a. tx_sender t = Some a"
  unfolding held_def lists_ok_def by blast

lemma held_update:
  assumes "lists_ok s m" "map_of m a = Some l"
  shows "held (AList.update a l' m) = held m - set (tl_abs l) \<union> set (tl_abs l')"
proof (intro set_eqI)
  fix t
  have "t \<notin> set (tl_abs l)" if "map_of m b = Some k" "b \<noteq> a" "t \<in> set (tl_abs k)" for b k
    using that assms by (metis lists_okD option.inject)
  then show "t \<in> held (AList.update a l' m) \<longleftrightarrow> t \<in> held m - set (tl_abs l) \<union> set (tl_abs l')"
    using assms(2) unfolding held_def alist_simps fun_upd_def
    by (cases "t \<in> set (tl_abs l')") (auto, metis option.inject)
qed

lemma held_update_new:
  assumes "map_of m a = None"
  shows "held (AList.update a l' m) = held m \<union> set (tl_abs l')"
proof (intro set_eqI)
  fix t show "t \<in> held (AList.update a l' m) \<longleftrightarrow> t \<in> held m \<union> set (tl_abs l')"
    using assms unfolding held_def alist_simps fun_upd_def
    by (cases "t \<in> set (tl_abs l')") (auto, metis option.distinct(1))
qed

lemma held_delete:
  assumes "map_of m a = Some l" "tl_abs l = []"
  shows "held (AList.delete a m) = held m"
proof (intro set_eqI)
  fix t show "t \<in> held (AList.delete a m) \<longleftrightarrow> t \<in> held m"
    using assms unfolding held_def alist_simps fun_upd_def
    by (auto split: if_splits) (metis empty_iff empty_set option.inject)
qed

lemma lists_ok_update:
  assumes "lists_ok s m" "tl_inv l'" "tl_strict l' = s" "\<forall>t\<in>set (tl_abs l'). tx_sender t = Some a"
  shows "lists_ok s (AList.update a l' m)"
  using assms by (auto simp: lists_ok_def alist_simps)

lemma lists_ok_delete: "lists_ok s m \<Longrightarrow> lists_ok s (AList.delete a m)"
  by (auto simp: lists_ok_def alist_simps)

lemma one_per_slot_subset: "one_per_slot S \<Longrightarrow> T \<subseteq> S \<Longrightarrow> one_per_slot T"
  by (auto simp: one_per_slot_def)

lemma slot_eq:
  "one_per_slot S \<Longrightarrow> t \<in> S \<Longrightarrow> u \<in> S \<Longrightarrow> tx_sender t = tx_sender u \<Longrightarrow> tx_nonce t = tx_nonce u \<Longrightarrow> t = u"
  unfolding one_per_slot_def by blast

lemma tl_abs_slots:
  assumes "tl_inv l" "t \<in> set (tl_abs l)" "u \<in> set (tl_abs l)" "tx_nonce t = tx_nonce u"
  shows "t = u"
proof -
  have "sorted_wrt (<) (map tx_nonce (tl_abs l))"
    using sm_abs_strict [OF tl_invD [OF assms(1)]] by (simp add: tl_abs_def strict_sorted_iff)
  then have "inj_on tx_nonce (set (tl_abs l))" by (simp add: distinct_map strict_sorted_iff)
  then show ?thesis using assms by (meson inj_onD)
qed

text \<open>Taking transactions out of a list puts them in flight.\<close>

lemma book_take:
  assumes "book s1 m1 s2 m2 X all" "map_of m1 a = Some l" "tl_inv l'" "tl_strict l' = s1"
    "set (tl_abs l') \<subseteq> set (tl_abs l)"
  shows "book s1 (AList.update a l' m1) s2 m2 (X \<union> (set (tl_abs l) - set (tl_abs l'))) all"
proof -
  let ?m = "AList.update a l' m1"
  have ok: "lists_ok s1 m1" using assms(1) by (simp add: book_def)
  have "lists_ok s1 ?m" using assms(3-5) lists_okD [OF ok assms(2)] by (intro lists_ok_update [OF ok]) auto
  moreover have h: "held ?m = held m1 - (set (tl_abs l) - set (tl_abs l'))" "set (tl_abs l) \<subseteq> held m1"
    using held_update [OF ok assms(2), of l'] assms(5) heldI [OF assms(2)] by auto
  then have "held ?m \<union> held m2 \<union> (X \<union> (set (tl_abs l) - set (tl_abs l'))) = held m1 \<union> held m2 \<union> X" by auto
  ultimately show ?thesis using assms(1) h unfolding book_def by auto
qed

text \<open>A transaction in flight finds its slot free, so adding it always succeeds and replaces
  nothing.\<close>

lemma tl_Add_free:
  assumes "tl_inv l" "\<forall>u\<in>set (tl_abs l). tx_nonce u \<noteq> tx_nonce t"
  shows "\<exists>l'. tl_Add l t bump = (l', True, None) \<and> tl_inv l' \<and> tl_strict l' = tl_strict l
    \<and> set (tl_abs l') = insert t (set (tl_abs l))"
proof -
  have "sm_Get (tl_txs l) (tx_nonce t) = None"
    using assms sm_Get_None [OF tl_invD [OF assms(1)]] by (auto simp: tl_abs_def)
  then have ins: "fst (snd (tl_Add l t bump))" "snd (snd (tl_Add l t bump)) = None"
    "tl_strict (fst (tl_Add l t bump)) = tl_strict l"
    by (simp_all add: tl_Add_def Let_def)
  have "filter (\<lambda>x. tx_nonce x \<noteq> tx_nonce t) (tl_abs l) = tl_abs l"
    using assms(2) by (simp add: filter_id_conv)
  then have "set (tl_abs (fst (tl_Add l t bump))) = insert t (set (tl_abs l))"
    using tl_Add_abs [OF assms(1), of t bump] ins(1) by (simp add: set_insort_key)
  then show ?thesis using ins tl_Add_inv [OF assms(1), of t bump]
    by (metis (full_types) prod.collapse)
qed

definition list_at :: "bool \<Rightarrow> (address \<times> txList) list \<Rightarrow> address \<Rightarrow> txList" where
  "list_at strict m a = (case map_of m a of None \<Rightarrow> newTxList strict | Some l \<Rightarrow> l)"

lemma list_at_ok:
  assumes "lists_ok s m"
  shows "tl_inv (list_at s m a) \<and> tl_strict (list_at s m a) = s \<and> (\<forall>t\<in>set (tl_abs (list_at s m a)). tx_sender t = Some a)"
  using lists_okD [OF assms] tl_new_inv [of s]
  by (auto simp: list_at_def newTxList_def split: option.splits)

lemma held_list_at: "lists_ok s m \<Longrightarrow> set (tl_abs (list_at s m a)) = {t \<in> held m. tx_sender t = Some a}"
  using tl_new_inv(2) [of s] lists_okD [of s m a]
  by (auto simp: list_at_def held_at split: option.splits intro: heldI)

lemma held_update_at:
  assumes "lists_ok s m"
  shows "held (AList.update a l' m) = held m - set (tl_abs (list_at s m a)) \<union> set (tl_abs l')"
  using held_update [OF assms] held_update_new [of m a] tl_new_inv(2) [of s]
  by (auto simp: list_at_def split: option.splits)

lemma book_put:
  assumes "book s1 m1 s2 m2 X all" "t \<in> X" "tx_sender t = Some a"
  shows "\<exists>l'. tl_Add (list_at s1 m1 a) t bump = (l', True, None)
    \<and> book s1 (AList.update a l' m1) s2 m2 (X - {t}) all"
proof -
  let ?l = "list_at s1 m1 a"
  have ok: "lists_ok s1 m1" and slots: "one_per_slot (held m1 \<union> held m2 \<union> X)"
    and out: "t \<notin> held m1" "t \<notin> held m2"
    using assms(1,2) unfolding book_def by auto
  have "\<forall>u\<in>set (tl_abs ?l). tx_nonce u \<noteq> tx_nonce t"
  proof (intro ballI notI)
    fix u assume u: "u \<in> set (tl_abs ?l)" "tx_nonce u = tx_nonce t"
    then have "u \<in> held m1" "tx_sender u = Some a" using held_list_at [OF ok, of a] by auto
    then show False using slot_eq [OF slots, of u t] assms(2,3) out u(2) by auto
  qed
  then obtain l' where l': "tl_Add ?l t bump = (l', True, None)" "tl_inv l'" "tl_strict l' = s1"
    "set (tl_abs l') = insert t (set (tl_abs ?l))"
    using tl_Add_free list_at_ok [OF ok] by metis
  have h: "held (AList.update a l' m1) = insert t (held m1)"
    unfolding held_update_at [OF ok] l'(4) held_list_at [OF ok] by auto
  have "lists_ok s1 (AList.update a l' m1)"
    using l' list_at_ok [OF ok] assms(3) by (intro lists_ok_update [OF ok]) auto
  moreover have "held (AList.update a l' m1) \<union> held m2 \<union> (X - {t}) = held m1 \<union> held m2 \<union> X"
    unfolding h using assms(2) by auto
  ultimately show ?thesis using assms(1) l'(1) out h unfolding book_def by auto
qed

lemma book_delete:
  assumes "book s1 m1 s2 m2 X all" "map_of m1 a = Some l" "tl_abs l = []"
  shows "book s1 (AList.delete a m1) s2 m2 X all"
  using assms(1) unfolding book_def held_delete [OF assms(2,3)] by (simp add: lists_ok_delete)

lemma keyed_delete: "keyed all \<Longrightarrow> keyed (AList.delete h all)"
  by (auto simp: keyed_def alist_simps)

text \<open>Forgetting a hash whose transaction no list holds.\<close>

lemma book_forget:
  assumes "book s1 m1 s2 m2 X all" "map_of all h = Some t" "t \<notin> held m1 \<union> held m2"
  shows "book s1 m1 s2 m2 (X - {t}) (AList.delete h all)"
proof -
  have "tx_hash u \<noteq> h" if "u \<in> held m1 \<union> held m2 \<union> (X - {t})" for u
    using that assms unfolding book_def by force
  moreover have "one_per_slot (held m1 \<union> held m2 \<union> (X - {t}))"
    using assms(1) unfolding book_def by (blast intro: one_per_slot_subset)
  ultimately show ?thesis using assms(1) unfolding book_def by (auto simp: keyed_delete alist_simps)
qed

text \<open>A transaction the pool does not know, in a free slot.\<close>

lemma book_new:
  assumes "book s1 m1 s2 m2 X all" "map_of all (tx_hash t) = None" "tx_sender t \<noteq> None"
    "\<forall>u\<in>held m1 \<union> held m2 \<union> X. \<not> (tx_sender u = tx_sender t \<and> tx_nonce u = tx_nonce t)"
  shows "book s1 m1 s2 m2 (insert t X) (AList.update (tx_hash t) t all)"
proof -
  have "tx_hash u \<noteq> tx_hash t" if "u \<in> held m1 \<union> held m2 \<union> X" for u
    using that assms(1,2) unfolding book_def by force
  moreover have "t \<notin> held m1 \<union> held m2 \<union> X" using assms(1,2) unfolding book_def by force
  moreover have "one_per_slot (insert t (held m1 \<union> held m2 \<union> X))"
    using assms(1,4) unfolding book_def one_per_slot_def by (metis insert_iff)
  moreover have "keyed (AList.update (tx_hash t) t all)"
    using assms(1,3) by (auto simp: book_def keyed_def alist_simps)
  ultimately show ?thesis using assms(1) unfolding book_def by (auto simp: alist_simps)
qed

text \<open>A transaction that replaces another in its slot of the first lists.\<close>

lemma book_replace:
  assumes "book s1 m1 s2 m2 X all" "map_of m1 a = Some l" "old \<in> set (tl_abs l)"
    "tx_nonce old = tx_nonce t" "tx_sender t = Some a" "map_of all (tx_hash t) = None"
    "tl_inv l'" "tl_strict l' = s1" "set (tl_abs l') = insert t (set (tl_abs l) - {old})"
  shows "book s1 (AList.update a l' m1) s2 m2 X (AList.update (tx_hash t) t (AList.delete (tx_hash old) all))"
proof -
  let ?all = "AList.delete (tx_hash old) all" and ?S = "held m1 \<union> held m2 \<union> X"
  have ok: "lists_ok s1 m1" and slots: "one_per_slot ?S" and k: "keyed all"
    and known: "\<forall>u\<in>?S. map_of all (tx_hash u) = Some u"
    and dis: "held m1 \<inter> held m2 = {}" "(held m1 \<union> held m2) \<inter> X = {}"
    using assms(1) unfolding book_def by auto
  have old: "old \<in> held m1" "tx_sender old = Some a" using assms(2,3) lists_okD [OF ok] by (auto intro: heldI)
  have new: "t \<notin> ?S" using known assms(6) by force
  have "set (tl_abs l) \<subseteq> held m1" using assms(2) by (auto intro: heldI)
  then have h: "held (AList.update a l' m1) = insert t (held m1 - {old})"
    unfolding held_update [OF ok assms(2)] assms(9) using new assms(3) by auto
  have "lists_ok s1 (AList.update a l' m1)"
    using assms(5,7-9) lists_okD [OF ok assms(2)] by (intro lists_ok_update [OF ok]) auto
  moreover have "keyed (AList.update (tx_hash t) t ?all)"
    using k assms(5) by (auto simp: keyed_def alist_simps)
  moreover have "\<forall>u\<in>?S - {old}. tx_hash u \<noteq> tx_hash old \<and> tx_hash u \<noteq> tx_hash t"
    using known old(1) assms(6) by (metis DiffE UnI1 insertI1 option.distinct(1) option.inject)
  moreover have "one_per_slot (insert t (?S - {old}))"
    using slots old assms(4,5) unfolding one_per_slot_def
    by (metis DiffE UnI1 insert_iff)
  moreover have "insert t (held m1 - {old}) \<union> held m2 \<union> X = insert t (?S - {old})"
    using dis old(1) by auto
  ultimately show ?thesis using assms(1) dis new known unfolding book_def h by (auto simp: alist_simps)
qed

section \<open>The pool\<close>

definition pool_ok :: "tx set \<Rightarrow> ('s, 'm) TxPool \<Rightarrow> bool" where
  "pool_ok X p \<longleftrightarrow> book True (p_pending p) False (p_queue p) X (p_all p)"

text \<open>Every known transaction is in the price heap, up to a set of exceptions.\<close>

definition priced_ok :: "tx set \<Rightarrow> ('s, 'm) TxPool \<Rightarrow> bool" where
  "priced_ok D p \<longleftrightarrow> pl_ok (p_priced p)
     \<and> (\<forall>h t. map_of (p_all p) h = Some t \<longrightarrow> t \<in> set (pl_items (p_priced p)) \<or> t \<in> D)"

text \<open>What the bookkeeping never touches, and what a call that adds no new transaction keeps.\<close>

definition core :: "('s, 'm) TxPool \<Rightarrow> TxPoolConfig \<times> int \<times> 's \<times> int \<times> accountSet \<times> txJournal option \<times> bool" where
  "core p = (p_config p, p_gasPrice p, p_currentState p, p_currentMaxGas p, p_locals p, p_journal p, p_pangu p)"

definition tidy :: "('s, 'm) TxPool \<Rightarrow> ('s, 'm) TxPool \<Rightarrow> bool" where
  "tidy p p' \<longleftrightarrow> core p' = core p \<and> map_of (p_all p') \<subseteq>\<^sub>m map_of (p_all p) \<and> (\<forall>D. priced_ok D p \<longrightarrow> priced_ok D p')"

lemma tidy_refl [simp]: "tidy p p"
  by (simp add: tidy_def)

lemma tidy_trans: "tidy p q \<Longrightarrow> tidy q r \<Longrightarrow> tidy p r"
  by (auto simp: tidy_def intro: map_le_trans)

lemma coreD:
  "core p' = core p \<Longrightarrow> p_config p' = p_config p \<and> p_locals p' = p_locals p \<and> p_currentState p' = p_currentState p
     \<and> p_currentMaxGas p' = p_currentMaxGas p \<and> p_gasPrice p' = p_gasPrice p \<and> p_journal p' = p_journal p \<and> p_pangu p' = p_pangu p"
  by (simp add: core_def)

lemma tidyD: "tidy p p' \<Longrightarrow> p_config p' = p_config p \<and> p_locals p' = p_locals p"
  by (simp add: tidy_def core_def)

text \<open>Only \<open>all\<close> and \<open>priced\<close> matter to the price heap's cover.\<close>

lemma tidy_lists [simp]:
  "tidy p (p'\<lparr>p_pending := m\<rparr>) = tidy p p'" "tidy p (p'\<lparr>p_queue := m\<rparr>) = tidy p p'"
  "tidy p (p'\<lparr>p_beats := b\<rparr>) = tidy p p'" "tidy p (p'\<lparr>p_pendingState := ms\<rparr>) = tidy p p'"
  "tidy p (p'\<lparr>p_feed := f\<rparr>) = tidy p p'"
  "tidy (p\<lparr>p_pending := m\<rparr>) p' = tidy p p'" "tidy (p\<lparr>p_queue := m\<rparr>) p' = tidy p p'"
  by (simp_all add: tidy_def core_def priced_ok_def)

lemma pool_ok_frame [simp]:
  "pool_ok X (p\<lparr>p_beats := b\<rparr>) = pool_ok X p" "pool_ok X (p\<lparr>p_pendingState := ms\<rparr>) = pool_ok X p"
  "pool_ok X (p\<lparr>p_feed := f\<rparr>) = pool_ok X p" "pool_ok X (p\<lparr>p_priced := pr\<rparr>) = pool_ok X p"
  "pool_ok X (p\<lparr>p_gasPrice := g\<rparr>) = pool_ok X p" "pool_ok X (p\<lparr>p_locals := as\<rparr>) = pool_ok X p"
  "pool_ok X (p\<lparr>p_journal := j\<rparr>) = pool_ok X p"
  by (simp_all add: pool_ok_def)

lemma forget_frame [simp]:
  "p_pending (forget h p) = p_pending p" "p_queue (forget h p) = p_queue p" "core (forget h p) = core p"
  "p_pendingState (forget h p) = p_pendingState p" "p_all (forget h p) = AList.delete h (p_all p)"
  "p_beats (forget h p) = p_beats p"
  by (simp_all add: forget_def Let_def core_def)

lemma reheap_set: "set (heap_Init price_less xs) = set xs"
  by (rule mset_eq_setD) (rule price_heap.heap_Init_mset)

lemma priced_forget:
  assumes "priced_ok D p"
  shows "priced_ok D (forget h p)"
proof -
  let ?all = "AList.delete h (p_all p)"
  have "t \<in> set (pl_items (pl_Removed ?all (p_priced p))) \<or> t \<in> D" if "map_of ?all k = Some t" for k t
  proof (cases "pl_stales (p_priced p) + 1 \<le> int (length (pl_items (p_priced p)) div 4)")
    case True
    then show ?thesis using assms that
      by (auto simp: pl_Removed_def Let_def priced_ok_def alist_simps split: if_splits)
  next
    case False
    have "t \<in> snd ` set ?all" using map_of_SomeD [OF that] by force
    then show ?thesis using False by (simp add: pl_Removed_def Let_def reheap_set)
  qed
  then show ?thesis using assms pl_Removed_ok [of "p_priced p" ?all]
    by (auto simp: priced_ok_def forget_def Let_def)
qed

lemma forget_tidy: "tidy p (forget h p)"
  by (auto simp: tidy_def priced_forget map_le_def alist_simps)

lemma forget_ok:
  assumes "pool_ok X p" "t \<in> X"
  shows "pool_ok (X - {t}) (forget (tx_hash t) p)"
proof -
  have "map_of (p_all p) (tx_hash t) = Some t" "t \<notin> held (p_pending p) \<union> held (p_queue p)"
    using assms unfolding pool_ok_def book_def by auto
  then show ?thesis using book_forget assms(1) by (fastforce simp: pool_ok_def)
qed

lemma forget_all_ok:
  assumes "pool_ok X p" "set ts \<subseteq> X" "distinct ts"
  shows "\<exists>p'. forget_all (map Some ts) p = Some p' \<and> pool_ok (X - set ts) p' \<and> tidy p p'
    \<and> p_pending p' = p_pending p \<and> p_queue p' = p_queue p \<and> p_pendingState p' = p_pendingState p"
  using assms
proof (induction ts arbitrary: X p)
  case (Cons t ts)
  then have "pool_ok (X - {t}) (forget (tx_hash t) p)" "set ts \<subseteq> X - {t}" "distinct ts"
    using forget_ok by auto
  from Cons.IH [OF this] show ?case
    using tidy_trans [OF forget_tidy] by (auto simp: Diff_insert2 [symmetric])
qed simp

section \<open>Moving transactions\<close>

lemma remember_frame [simp]:
  "p_pending (remember h t p) = p_pending p" "p_queue (remember h t p) = p_queue p" "core (remember h t p) = core p"
  "p_all (remember h t p) = AList.update h t (p_all p)" "p_pendingState (remember h t p) = p_pendingState p"
  "p_beats (remember h t p) = p_beats p"
  by (simp_all add: remember_def core_def)

lemma priced_remember: "priced_ok D p \<Longrightarrow> priced_ok D (remember h t p)"
  using mset_eq_setD [of "heap_Push price_less (pl_items (p_priced p)) t" "t # pl_items (p_priced p)"]
  by (auto simp: priced_ok_def remember_def pl_ok_def pl_Put_def alist_simps price_heap.heap_Push_mset
      price_heap.heap_Push_ok split: if_splits)

lemma remember_tidy:
  assumes "map_of (p_all p) h = Some t"
  shows "tidy p (remember h t p)"
proof -
  have "map_of (AList.update h t (p_all p)) = map_of (p_all p)" using assms by (auto simp: alist_simps)
  then show ?thesis by (simp add: tidy_def priced_remember)
qed

lemma book_readd:
  assumes "book s1 m1 s2 m2 X all" "map_of all h = Some t"
  shows "book s1 m1 s2 m2 X (AList.update h t all)"
proof -
  have "map_of (AList.update h t all) = map_of all" using assms(2) by (auto simp: alist_simps)
  then show ?thesis using assms(1) unfolding book_def keyed_def by simp
qed

lemma sender_Some: "tx_sender t = Some a \<Longrightarrow> sender t = a"
  by (simp add: sender_def)

lemma flight_known:
  assumes "pool_ok X p" "t \<in> X"
  shows "map_of (p_all p) (tx_hash t) = Some t \<and> tx_sender t = Some (sender t)"
  using assms unfolding pool_ok_def book_def keyed_def by (auto simp: sender_def split: option.splits)

lemma enqueueTx_flight:
  assumes "pool_ok X p" "t \<in> X"
  shows "fst (enqueueTx (tx_hash t) t p) = Inr False \<and> pool_ok (X - {t}) (snd (enqueueTx (tx_hash t) t p))
    \<and> tidy p (snd (enqueueTx (tx_hash t) t p)) \<and> p_pending (snd (enqueueTx (tx_hash t) t p)) = p_pending p
    \<and> p_pendingState (snd (enqueueTx (tx_hash t) t p)) = p_pendingState p
    \<and> map_of (p_all (snd (enqueueTx (tx_hash t) t p))) = map_of (p_all p)"
proof -
  let ?a = "sender t"
  have k: "map_of (p_all p) (tx_hash t) = Some t" "tx_sender t = Some ?a" using flight_known [OF assms] by auto
  obtain l' where l': "tl_Add (list_at False (p_queue p) ?a) t (PriceBump (p_config p)) = (l', True, None)"
    "book False (AList.update ?a l' (p_queue p)) True (p_pending p) (X - {t}) (p_all p)"
    using book_put [OF assms(1) [unfolded pool_ok_def book_sym [of True]] assms(2) k(2)] by metis
  have e: "enqueueTx (tx_hash t) t p
      = (Inr False, remember (tx_hash t) t (p\<lparr>p_queue := AList.update ?a l' (p_queue p)\<rparr>))"
    using l'(1) by (simp add: enqueueTx_def Let_def list_at_def)
  have m: "map_of (AList.update (tx_hash t) t (p_all p)) = map_of (p_all p)" using k(1) by (auto simp: alist_simps)
  have "tidy p (remember (tx_hash t) t (p\<lparr>p_queue := AList.update ?a l' (p_queue p)\<rparr>))"
    using remember_tidy [of "p\<lparr>p_queue := AList.update ?a l' (p_queue p)\<rparr>"] k(1) by simp
  then show ?thesis using book_readd [OF l'(2) k(1)] m unfolding e by (simp add: pool_ok_def book_sym [of True])
qed

lemma enqueue_all_ok:
  assumes "pool_ok X p" "set ts \<subseteq> X" "distinct ts"
  shows "pool_ok (X - set ts) (enqueue_all ts p) \<and> tidy p (enqueue_all ts p)
    \<and> p_pending (enqueue_all ts p) = p_pending p \<and> p_pendingState (enqueue_all ts p) = p_pendingState p
    \<and> map_of (p_all (enqueue_all ts p)) = map_of (p_all p)"
  using assms
proof (induction ts arbitrary: X p)
  case Nil
  then show ?case by (simp add: enqueue_all_def)
next
  case (Cons t ts)
  let ?q = "snd (enqueueTx (tx_hash t) t p)"
  have q: "pool_ok (X - {t}) ?q" "tidy p ?q" "p_pending ?q = p_pending p" "p_pendingState ?q = p_pendingState p"
    "map_of (p_all ?q) = map_of (p_all p)"
    using enqueueTx_flight [of X p t] Cons.prems by auto
  have "enqueue_all (t # ts) p = enqueue_all ts ?q" by (simp add: enqueue_all_def)
  moreover have "set ts \<subseteq> X - {t}" "distinct ts" using Cons.prems by auto
  ultimately show ?case using Cons.IH [OF q(1)] q tidy_trans [OF q(2)] by (auto simp: Diff_insert2 [symmetric])
qed

lemma promoteTx_ok:
  assumes "pool_ok X p" "t \<in> X"
  shows "pool_ok (X - {t}) (promoteTx env (sender t) (tx_hash t) t p)
    \<and> tidy p (promoteTx env (sender t) (tx_hash t) t p)
    \<and> p_queue (promoteTx env (sender t) (tx_hash t) t p) = p_queue p"
proof -
  let ?a = "sender t"
  have k: "map_of (p_all p) (tx_hash t) = Some t" "tx_sender t = Some ?a" using flight_known [OF assms] by auto
  obtain l' where l': "tl_Add (list_at True (p_pending p) ?a) t (PriceBump (p_config p)) = (l', True, None)"
    "book True (AList.update ?a l' (p_pending p)) False (p_queue p) (X - {t}) (p_all p)"
    using book_put [OF assms(1) [unfolded pool_ok_def] assms(2) k(2)] by metis
  then show ?thesis using k(1) by (simp add: promoteTx_def Let_def list_at_def pool_ok_def)
qed

lemma promote_all_ok:
  assumes "pool_ok X p" "set ts \<subseteq> X" "distinct ts" "\<forall>t\<in>set ts. sender t = a"
  shows "\<exists>p'. promote_all env a (map Some ts) p = Some p' \<and> pool_ok (X - set ts) p' \<and> tidy p p' \<and> p_queue p' = p_queue p"
  using assms
proof (induction ts arbitrary: X p)
  case (Cons t ts)
  let ?q = "promoteTx env a (tx_hash t) t p"
  have q: "pool_ok (X - {t}) ?q" "tidy p ?q" "p_queue ?q = p_queue p"
    using promoteTx_ok [of X p t env] Cons.prems by auto
  moreover have "set ts \<subseteq> X - {t}" "distinct ts" "\<forall>t\<in>set ts. sender t = a" using Cons.prems by auto
  ultimately show ?case using Cons.IH [OF q(1)] tidy_trans [OF q(2)] by (auto simp: Diff_insert2 [symmetric])
qed simp

section \<open>Removal\<close>

text \<open>A list operation of the pending or the queued lists, on the pool.\<close>

lemma pending_take:
  assumes "pool_ok X p" "map_of (p_pending p) a = Some l" "tl_inv l'" "tl_strict l'" "set (tl_abs l') \<subseteq> set (tl_abs l)"
  shows "pool_ok (X \<union> (set (tl_abs l) - set (tl_abs l'))) (p\<lparr>p_pending := AList.update a l' (p_pending p)\<rparr>)"
  using book_take [OF assms(1) [unfolded pool_ok_def] assms(2,3) _ assms(5)] assms(4) by (simp add: pool_ok_def)

lemma queue_take:
  assumes "pool_ok X p" "map_of (p_queue p) a = Some l" "tl_inv l'" "\<not> tl_strict l'" "set (tl_abs l') \<subseteq> set (tl_abs l)"
  shows "pool_ok (X \<union> (set (tl_abs l) - set (tl_abs l'))) (p\<lparr>p_queue := AList.update a l' (p_queue p)\<rparr>)"
  using book_take [OF assms(1) [unfolded pool_ok_def book_sym [of True]] assms(2,3) _ assms(5)] assms(4)
  by (simp add: pool_ok_def book_sym [of True])

lemma pending_delete:
  "pool_ok X p \<Longrightarrow> map_of (p_pending p) a = Some l \<Longrightarrow> tl_abs l = [] \<Longrightarrow> pool_ok X (p\<lparr>p_pending := AList.delete a (p_pending p)\<rparr>)"
  using book_delete unfolding pool_ok_def by fastforce

lemma queue_delete:
  "pool_ok X p \<Longrightarrow> map_of (p_queue p) a = Some l \<Longrightarrow> tl_abs l = [] \<Longrightarrow> pool_ok X (p\<lparr>p_queue := AList.delete a (p_queue p)\<rparr>)"
  using book_delete unfolding pool_ok_def book_sym [of True] by fastforce

lemma pool_ok_lists:
  assumes "pool_ok X p"
  shows "map_of (p_pending p) a = Some l \<Longrightarrow> tl_inv l \<and> tl_strict l \<and> (\<forall>t\<in>set (tl_abs l). tx_sender t = Some a)"
    "map_of (p_queue p) b = Some k \<Longrightarrow> tl_inv k \<and> \<not> tl_strict k \<and> (\<forall>t\<in>set (tl_abs k). tx_sender t = Some b)"
  using assms lists_okD unfolding pool_ok_def book_def by fastforce+

lemma tl_Empty_abs: "tl_Empty l \<longleftrightarrow> tl_abs l = []"
  by (simp add: tl_Empty_def tl_Len_def sm_Len_abs tl_abs_def)

lemma tl_Len_length: "tl_Len l = length (tl_abs l)"
  by (simp add: tl_Len_def sm_Len_abs tl_abs_def)

lemma pool_ok_leak: "pool_ok X p \<Longrightarrow> Y \<subseteq> X \<Longrightarrow> pool_ok Y p"
  unfolding pool_ok_def book_def by (blast intro: one_per_slot_subset)

lemma forget_any:
  assumes "pool_ok X p" "map_of (p_all p) h = Some t" "t \<notin> held (p_pending p)" "t \<notin> held (p_queue p)"
  shows "pool_ok (X - {t}) (forget h p)"
  using book_forget [OF assms(1) [unfolded pool_ok_def] assms(2)] assms(3,4) by (simp add: pool_ok_def)

lemma forget_lists:
  "(forget h p)\<lparr>p_pending := m\<rparr> = forget h (p\<lparr>p_pending := m\<rparr>)" "(forget h p)\<lparr>p_queue := m\<rparr> = forget h (p\<lparr>p_queue := m\<rparr>)"
  by (simp_all add: forget_def Let_def)

lemma forget_lists_tidy [simp]:
  "tidy p (forget h (p\<lparr>p_pending := m\<rparr>))" "tidy p (forget h (p\<lparr>p_queue := m\<rparr>))"
  using forget_tidy [of "p\<lparr>p_pending := m\<rparr>" h] forget_tidy [of "p\<lparr>p_queue := m\<rparr>" h] by simp_all

lemma lower_nonce_frame [simp]:
  "pool_ok X (lower_nonce env a n p) = pool_ok X p" "tidy p (lower_nonce env a n p') = tidy p p'"
  "p_all (lower_nonce env a n p) = p_all p" "p_queue (lower_nonce env a n p) = p_queue p"
  "p_pending (lower_nonce env a n p) = p_pending p"
  by (simp_all add: lower_nonce_def)

lemma keyed_sender: "pool_ok X p \<Longrightarrow> map_of (p_all p) h = Some t \<Longrightarrow> tx_sender t = Some (sender t) \<and> tx_hash t = h"
  unfolding pool_ok_def book_def keyed_def by (auto simp: sender_def split: option.splits)

lemma tl_Remove_gapped:
  assumes "tl_inv l" "\<not> (tl_strict l \<and> tl_Overlaps l t)"
  shows "\<exists>l'. tl_Remove l t = Some (l', tl_Overlaps l t, []) \<and> tl_inv l' \<and> tl_strict l' = tl_strict l
    \<and> tl_abs l' = filter (\<lambda>u. tx_nonce u \<noteq> tx_nonce t) (tl_abs l)"
  using tl_Remove_correct [OF assms(1), of t] assms(2) by auto

lemma remove_queued_ok:
  assumes "pool_ok {} p" "map_of (p_all p) h = Some t" "t \<notin> held (p_pending p)"
  shows "\<exists>p'. remove_queued (sender t) t (forget h p) = Some p' \<and> pool_ok {} p' \<and> tidy p p'
    \<and> p_pending p' = p_pending p \<and> map_of (p_all p') = (map_of (p_all p))(h := None)"
proof (cases "map_of (p_queue p) (sender t)")
  case None
  then have "t \<notin> held (p_queue p)"
    using held_at [of False "p_queue p" t "sender t"] assms(1) keyed_sender [OF assms(1,2)]
    unfolding pool_ok_def book_def by auto
  then have "pool_ok {} (forget h p)" using forget_any [OF assms] by simp
  then show ?thesis using None forget_tidy [of p h] by (simp add: remove_queued_def alist_simps)
next
  case (Some l)
  note l = pool_ok_lists(2) [OF assms(1) Some]
  obtain l' where l': "tl_Remove l t = Some (l', tl_Overlaps l t, [])" "tl_inv l'" "\<not> tl_strict l'"
    "tl_abs l' = filter (\<lambda>u. tx_nonce u \<noteq> tx_nonce t) (tl_abs l)"
    using tl_Remove_gapped l by metis
  let ?m = "AList.update (sender t) l' (p_queue p)"
  let ?q = "p\<lparr>p_queue := ?m\<rparr>"
  have q: "pool_ok (set (tl_abs l) - set (tl_abs l')) ?q"
    using queue_take [OF assms(1) Some l'(2,3)] l'(4) by simp
  have "t \<notin> held ?m"
    using l'(4) held_at [of False ?m t "sender t"] q keyed_sender [OF assms(1,2)]
    unfolding pool_ok_def book_def by (auto simp: alist_simps)
  then have f: "pool_ok {} (forget h ?q)"
    using forget_any [OF q, of h t] assms(2,3) by (simp add: pool_ok_leak)
  then have "pool_ok {} (if tl_Empty l' then (forget h ?q)\<lparr>p_queue := AList.delete (sender t) ?m\<rparr> else forget h ?q)"
    using queue_delete [OF f, of "sender t" l'] by (simp add: alist_simps tl_Empty_abs)
  moreover have "AList.delete (sender t) ?m = AList.delete (sender t) (p_queue p)"
    by (rule AList.delete_update_same)
  ultimately show ?thesis using Some l'(1) by (auto simp: remove_queued_def forget_lists alist_simps)
qed

lemma overlaps_iff: "tl_inv l \<Longrightarrow> tl_Overlaps l t \<longleftrightarrow> (\<exists>u\<in>set (tl_abs l). tx_nonce u = tx_nonce t)"
  using sm_Get_None [OF tl_invD, of l "tx_nonce t"] unfolding tl_Overlaps_def tl_abs_def
  by (metis (no_types, lifting) imageE image_eqI)

lemma takeWhile_below:
  "sorted (map f xs) \<Longrightarrow> v \<in> set xs \<Longrightarrow> u \<in> set (takeWhile (\<lambda>x. f x \<noteq> f v) xs) \<Longrightarrow> f u < (f v :: 'b :: linorder)"
  by (induction xs) (auto simp: le_less split: if_splits)

lemma tl_Remove_strict:
  assumes "tl_inv l" "tl_strict l" "tl_Overlaps l t"
  shows "\<exists>l' invalids. tl_Remove l t = Some (l', True, invalids) \<and> tl_inv l' \<and> tl_strict l'
    \<and> set (tl_abs l') \<subseteq> set (tl_abs l) \<and> (\<forall>u\<in>set (tl_abs l'). tx_nonce u < tx_nonce t)
    \<and> distinct invalids \<and> set invalids = {u \<in> set (tl_abs l). tx_nonce u > tx_nonce t}
    \<and> tl_abs l' = takeWhile (\<lambda>u. tx_nonce u \<noteq> tx_nonce t) (tl_abs l)"
proof -
  obtain l' invalids where r: "tl_Remove l t = Some (l', True, invalids)" "tl_inv l'" "tl_strict l'"
    "tl_abs l' = takeWhile (\<lambda>u. tx_nonce u \<noteq> tx_nonce t) (tl_abs l)"
    "mset invalids = mset (filter (\<lambda>u. tx_nonce u > tx_nonce t) (tl_abs l))"
    using tl_Remove_correct [OF assms(1), of t] assms(2,3) by auto
  have d: "distinct (tl_abs l)" "sorted (map tx_nonce (tl_abs l))"
    using sm_abs_strict [OF tl_invD [OF assms(1)]] by (simp_all add: tl_abs_def distinct_map)
  obtain v where v: "v \<in> set (tl_abs l)" "tx_nonce v = tx_nonce t" using overlaps_iff assms by blast
  have "distinct invalids" using r(5) d(1) by (metis distinct_filter mset_eq_imp_distinct_iff)
  moreover have "set invalids = {u \<in> set (tl_abs l). tx_nonce u > tx_nonce t}"
    using mset_eq_setD [OF r(5)] by simp
  moreover have "set (tl_abs l') \<subseteq> set (tl_abs l)" unfolding r(4) by (auto dest: set_takeWhileD)
  moreover have "\<forall>u\<in>set (tl_abs l'). tx_nonce u < tx_nonce t"
    using takeWhile_below [OF d(2) v(1)] unfolding r(4) v(2) by blast
  ultimately show ?thesis using r by metis
qed

text \<open>In the branch where the pending list gives the transaction up.\<close>

lemma remove_pending_ok:
  assumes "pool_ok {} p" "map_of (p_all p) h = Some t" "map_of (p_pending p) (sender t) = Some l"
    "tl_Overlaps l t" "tl_Remove l t = Some (l', True, invalids)"
  defines "q \<equiv> forget h (p\<lparr>p_pending := AList.update (sender t) l' (p_pending p)\<rparr>)"
  shows "\<exists>X. pool_ok X q \<and> set invalids \<subseteq> X \<and> distinct invalids"
proof -
  note l = pool_ok_lists(1) [OF assms(1,3)] and ks = keyed_sender [OF assms(1,2)]
  have l': "tl_inv l'" "tl_strict l'" "set (tl_abs l') \<subseteq> set (tl_abs l)" "\<forall>u\<in>set (tl_abs l'). tx_nonce u < tx_nonce t"
    "distinct invalids" "set invalids = {u \<in> set (tl_abs l). tx_nonce u > tx_nonce t}"
    using tl_Remove_strict [of l t] l assms(4,5) by auto
  let ?m = "AList.update (sender t) l' (p_pending p)" and ?X = "set (tl_abs l) - set (tl_abs l')"
  have r: "pool_ok ?X (p\<lparr>p_pending := ?m\<rparr>)" using pending_take [OF assms(1,3) l'(1-3)] by simp
  obtain v where v: "v \<in> set (tl_abs l)" "tx_nonce v = tx_nonce t" using overlaps_iff l assms(4) by blast
  have "t \<notin> held ?m"
    using l'(4) held_at [of True ?m t "sender t"] r ks unfolding pool_ok_def book_def by (auto simp: alist_simps)
  moreover have "t \<notin> held (p_queue p)"
  proof
    assume "t \<in> held (p_queue p)"
    moreover have "v \<in> held (p_pending p)" using v(1) assms(3) by (rule heldI [rotated])
    ultimately show False using assms(1) v l ks slot_eq [of "held (p_pending p) \<union> held (p_queue p) \<union> {}" v t]
      unfolding pool_ok_def book_def by auto
  qed
  ultimately have "pool_ok (?X - {t}) q" using forget_any [OF r, of h t] assms(2) by (simp add: q_def)
  moreover have "set invalids \<subseteq> ?X - {t}"
    using l'(4,6) by (auto dest: less_asym)
  ultimately show ?thesis using l'(5) by blast
qed

lemma removeTx_ok:
  assumes "pool_ok {} p"
  shows "\<exists>p'. removeTx env h p = Some p' \<and> pool_ok {} p' \<and> tidy p p' \<and> map_of (p_all p') = (map_of (p_all p))(h := None)"
proof (cases "map_of (p_all p) h")
  case None
  then show ?thesis using assms by (auto simp: removeTx_def)
next
  case (Some t)
  show ?thesis
  proof (cases "map_of (p_pending p) (sender t)")
    case none: None
    then have "t \<notin> held (p_pending p)"
      using held_at [of True "p_pending p" t "sender t"] assms keyed_sender [OF assms Some]
      unfolding pool_ok_def book_def by auto
    then show ?thesis using remove_queued_ok [OF assms Some] Some none by (auto simp: removeTx_def)
  next
    case l: (Some l)
    note ok = pool_ok_lists(1) [OF assms l]
    show ?thesis
    proof (cases "tl_Overlaps l t")
      case False
      then obtain l' where l': "tl_Remove l t = Some (l', False, [])" "tl_inv l'" "tl_strict l'"
        "tl_abs l' = tl_abs l"
        using tl_Remove_gapped [of l t] ok overlaps_iff [of l t] by (auto simp: filter_id_conv)
      let ?q = "p\<lparr>p_pending := AList.update (sender t) l' (p_pending p)\<rparr>"
      have q: "pool_ok {} ?q" using pending_take [OF assms l l'(2,3)] l'(4) by simp
      have "t \<notin> held (p_pending ?q)"
        using held_at [of True "p_pending ?q" t "sender t"] q keyed_sender [OF assms Some] False ok l'(4) overlaps_iff [of l t]
        unfolding pool_ok_def book_def by (auto simp: alist_simps)
      then show ?thesis using remove_queued_ok [OF q, of h t] Some l l'(1) by (auto simp: removeTx_def forget_lists)
    next
      case True
      obtain l' invalids where l': "tl_Remove l t = Some (l', True, invalids)" using tl_Remove_strict [of l t] ok True by blast
      let ?m = "AList.update (sender t) l' (p_pending p)"
      let ?q = "forget h (p\<lparr>p_pending := ?m\<rparr>)"
      obtain X where X: "pool_ok X ?q" "set invalids \<subseteq> X" "distinct invalids"
        using remove_pending_ok [OF assms Some l True l'] by blast
      note e = enqueue_all_ok [OF X]
      have d: "tl_Empty l' \<Longrightarrow> pool_ok {} (?q\<lparr>p_pending := AList.delete (sender t) ?m\<rparr>)"
        using pending_delete [OF pool_ok_leak [OF X(1)], of "{}" "sender t" l'] by (simp add: tl_Empty_abs alist_simps)
      have "pool_ok {} (enqueue_all invalids ?q)" "tidy p (enqueue_all invalids ?q)"
        using e pool_ok_leak tidy_trans [OF forget_lists_tidy(1)] by blast+
      then show ?thesis using Some l l' d e
        by (auto simp: removeTx_def forget_lists alist_simps Let_def)
    qed
  qed
qed

lemma remove_all_ok:
  assumes "pool_ok {} p"
  shows "\<exists>p'. remove_all env ts p = Some p' \<and> pool_ok {} p' \<and> tidy p p'
    \<and> map_of (p_all p') = map_of (p_all p) |` (- tx_hash ` set ts)"
  using assms
proof (induction ts arbitrary: p)
  case (Cons t ts)
  obtain q where q: "removeTx env (tx_hash t) p = Some q" "pool_ok {} q" "tidy p q"
    "map_of (p_all q) = (map_of (p_all p))(tx_hash t := None)"
    using removeTx_ok [OF Cons.prems] by metis
  have "map_of (p_all q) |` (- tx_hash ` set ts) = map_of (p_all p) |` (- tx_hash ` set (t # ts))"
    unfolding q(4) by (auto simp: restrict_map_def)
  then show ?case using Cons.IH [OF q(2)] q(1) tidy_trans [OF q(3)] by auto
qed (simp add: restrict_map_def)

section \<open>Adding\<close>

lemma tl_Add_taken:
  assumes "tl_inv l" "old \<in> set (tl_abs l)" "tx_nonce old = tx_nonce t"
  shows "tl_Add l t bump = (l, False, None)
    \<or> (\<exists>l'. tl_Add l t bump = (l', True, Some old) \<and> tl_inv l' \<and> tl_strict l' = tl_strict l
        \<and> set (tl_abs l') = insert t (set (tl_abs l) - {old}))"
proof -
  have g: "sm_Get (tl_txs l) (tx_nonce t) = Some old"
    using assms sm_Get_abs [OF tl_invD [OF assms(1)]] by (auto simp: tl_abs_def)
  show ?thesis
  proof (cases "fst (snd (tl_Add l t bump))")
    case False
    then show ?thesis using g by (auto simp: tl_Add_def Let_def split: if_splits)
  next
    case True
    have "set (tl_abs (fst (tl_Add l t bump))) = insert t {u \<in> set (tl_abs l). tx_nonce u \<noteq> tx_nonce t}"
      using tl_Add_abs [OF assms(1), of t bump] True by (simp add: set_insort_key)
    also have "{u \<in> set (tl_abs l). tx_nonce u \<noteq> tx_nonce t} = set (tl_abs l) - {old}"
      using tl_abs_slots [OF assms(1) _ assms(2)] assms(3) by auto
    finally have "set (tl_abs (fst (tl_Add l t bump))) = insert t (set (tl_abs l) - {old})" .
    moreover have "snd (tl_Add l t bump) = (True, Some old)" "tl_strict (fst (tl_Add l t bump)) = tl_strict l"
      using True g by (auto simp: tl_Add_def Let_def split: if_splits)
    ultimately show ?thesis using tl_Add_inv [OF assms(1), of t bump] by (metis prod.collapse)
  qed
qed

text \<open>A new transaction that the queue takes or refuses.\<close>

lemma enqueueTx_new:
  assumes "pool_ok {} p" "map_of (p_all p) (tx_hash t) = None" "tx_sender t = Some a"
    "\<forall>u\<in>held (p_pending p). \<not> (tx_sender u = Some a \<and> tx_nonce u = tx_nonce t)"
  shows "\<exists>r q. enqueueTx (tx_hash t) t p = (r, q) \<and> pool_ok {} q \<and> core q = core p
    \<and> (\<forall>D. priced_ok D p \<longrightarrow> priced_ok D q) \<and> p_pending q = p_pending p"
proof -
  let ?l = "list_at False (p_queue p) a" and ?bump = "PriceBump (p_config p)"
  have b: "book False (p_queue p) True (p_pending p) {} (p_all p)"
    using assms(1) unfolding pool_ok_def by (subst book_sym)
  then have ok: "lists_ok False (p_queue p)" by (simp add: book_def)
  note l = list_at_ok [OF ok, of a] and s = sender_Some [OF assms(3)]
  have e: "enqueueTx (tx_hash t) t p = (case tl_Add ?l t ?bump of (l', inserted, old) \<Rightarrow>
      let q = p\<lparr>p_queue := AList.update a l' (p_queue p)\<rparr> in
      if \<not> inserted then (Inl ErrReplaceUnderpriced, q)
      else (Inr (old \<noteq> None), remember (tx_hash t) t (case old of None \<Rightarrow> q | Some o' \<Rightarrow> forget (tx_hash o') q)))"
    by (simp add: enqueueTx_def list_at_def Let_def s split: prod.split)
  have pr: "priced_ok D p \<longrightarrow> priced_ok D (p\<lparr>p_queue := m\<rparr>)" for D m by (simp add: priced_ok_def)
  show ?thesis
  proof (cases "\<exists>old\<in>set (tl_abs ?l). tx_nonce old = tx_nonce t")
    case True
    then obtain old where old: "old \<in> set (tl_abs ?l)" "tx_nonce old = tx_nonce t" by blast
    then have q: "map_of (p_queue p) a = Some ?l" using tl_new_inv(2) [of False] by (auto simp: list_at_def split: option.splits)
    from tl_Add_taken [of ?l old t ?bump] old l consider "tl_Add ?l t ?bump = (?l, False, None)"
      | l' where "tl_Add ?l t ?bump = (l', True, Some old)" "tl_inv l'" "\<not> tl_strict l'"
        "set (tl_abs l') = insert t (set (tl_abs ?l) - {old})" by auto
    then show ?thesis
    proof cases
      case 1
      then show ?thesis using queue_take [OF assms(1) q, of ?l] l pr unfolding e by (auto simp: core_def)
    next
      case 2
      have "book False (AList.update a l' (p_queue p)) True (p_pending p) {}
          (AList.update (tx_hash t) t (AList.delete (tx_hash old) (p_all p)))"
        using book_replace [OF b q old assms(3,2) 2(2) _ 2(4)] 2(3) by simp
      then show ?thesis using 2(1) pr unfolding e pool_ok_def
        by (simp add: book_sym [of True] priced_remember priced_forget) (simp add: core_def)
    qed
  next
    case False
    then have "\<forall>u\<in>held (p_queue p) \<union> held (p_pending p) \<union> {}. \<not> (tx_sender u = tx_sender t \<and> tx_nonce u = tx_nonce t)"
      using assms(3,4) unfolding held_list_at [OF ok] by auto
    then have "book False (p_queue p) True (p_pending p) {t} (AList.update (tx_hash t) t (p_all p))"
      using book_new [OF b assms(2)] assms(3) by simp
    from book_put [OF this, of t a ?bump] assms(3) obtain l' where "tl_Add ?l t ?bump = (l', True, None)"
      "book False (AList.update a l' (p_queue p)) True (p_pending p) {} (AList.update (tx_hash t) t (p_all p))" by auto
    then show ?thesis using pr unfolding e pool_ok_def
      by (simp add: book_sym [of True] priced_remember) (simp add: core_def)
  qed
qed

lemma journalTx_frame [simp]:
  "pool_ok X (journalTx env a t p) = pool_ok X p" "priced_ok D (journalTx env a t p) = priced_ok D p"
  "p_config (journalTx env a t p) = p_config p" "p_all (journalTx env a t p) = p_all p"
  "p_pending (journalTx env a t p) = p_pending p" "p_queue (journalTx env a t p) = p_queue p"
  by (simp_all add: journalTx_def priced_ok_def split: option.splits)

lemma priced_frame [simp]:
  "priced_ok D (p\<lparr>p_locals := as\<rparr>) = priced_ok D p" "priced_ok D (p\<lparr>p_feed := f\<rparr>) = priced_ok D p"
  "priced_ok D (p\<lparr>p_pending := m\<rparr>) = priced_ok D p" "priced_ok D (p\<lparr>p_queue := m\<rparr>) = priced_ok D p"
  "priced_ok D (p\<lparr>p_gasPrice := g\<rparr>) = priced_ok D p" "priced_ok D (p\<lparr>p_journal := j\<rparr>) = priced_ok D p"
  "priced_ok D (p\<lparr>p_pendingState := ms\<rparr>) = priced_ok D p"
  by (simp_all add: priced_ok_def)

text \<open>The invariant of the pool between calls.\<close>

definition pool_inv :: "('s, 'm) TxPool \<Rightarrow> bool" where
  "pool_inv p \<longleftrightarrow> pool_ok {} p \<and> priced_ok {} p"

lemma pool_inv_frame [simp]:
  "pool_inv (p\<lparr>p_locals := as\<rparr>) = pool_inv p" "pool_inv (p\<lparr>p_feed := f\<rparr>) = pool_inv p"
  "pool_inv (p\<lparr>p_gasPrice := g\<rparr>) = pool_inv p" "pool_inv (p\<lparr>p_journal := j\<rparr>) = pool_inv p"
  "pool_inv (p\<lparr>p_pendingState := ms\<rparr>) = pool_inv p" "pool_inv (journalTx env a t p) = pool_inv p"
  "pool_inv (p\<lparr>p_pangu := b\<rparr>) = pool_inv p" "pool_inv (p\<lparr>p_currentState := st\<rparr>) = pool_inv p"
  "pool_inv (p\<lparr>p_currentMaxGas := g\<rparr>) = pool_inv p"
  by (simp_all add: pool_inv_def) (simp_all add: pool_ok_def priced_ok_def)

lemma pool_inv_tidy: "pool_inv p \<Longrightarrow> pool_ok {} p' \<Longrightarrow> tidy p p' \<Longrightarrow> pool_inv p'"
  by (simp add: pool_inv_def tidy_def)

lemma live_known: "pool_ok X p \<Longrightarrow> map_of (p_all p) h = Some t \<Longrightarrow> live (p_all p) t"
  using keyed_sender [of X p h t] by (simp add: live_def)

text \<open>Dropping what the price heap gave up restores its cover.\<close>

lemma remove_dropped:
  assumes "pool_ok {} p" "pl_ok pr"
    "\<forall>h t. map_of (p_all p) h = Some t \<longrightarrow> t \<in> set (pl_items pr) \<or> t \<in> set drops"
  shows "\<exists>p'. remove_all env drops (p\<lparr>p_priced := pr\<rparr>) = Some p' \<and> pool_inv p' \<and> core p' = core p
    \<and> map_of (p_all p') = map_of (p_all p) |` (- tx_hash ` set drops)"
proof -
  let ?q = "p\<lparr>p_priced := pr\<rparr>"
  obtain p' where p': "remove_all env drops ?q = Some p'" "pool_ok {} p'" "tidy ?q p'"
    "map_of (p_all p') = map_of (p_all p) |` (- tx_hash ` set drops)"
    using remove_all_ok [of ?q env drops] assms(1) by auto
  have "priced_ok (set drops) ?q" using assms(2,3) by (simp add: priced_ok_def)
  then have "priced_ok (set drops) p'" using p'(3) by (simp add: tidy_def)
  moreover have "t \<notin> set drops" if "map_of (p_all p') h = Some t" for h t
    using that p'(4) keyed_sender [OF p'(2) that] by (auto simp: restrict_map_def split: if_splits)
  ultimately have "priced_ok {} p'" unfolding priced_ok_def by blast
  then show ?thesis using p' by (simp add: pool_inv_def tidy_def core_def)
qed

lemma uint_pred: "(w :: u64) \<noteq> 0 \<Longrightarrow> uint (w - 1) = uint w - 1"
  using unat_minus_one [of w] unat_gt_0 [of w] unfolding uint_nat by linarith

lemma sint_le_uint: "sint (w :: u64) \<le> uint w"
  unfolding sint_uint signed_take_bit_int_less_eq_self_iff using uint_ge_0 [of w]
  by (rule order_trans [rotated]) simp

lemma make_room_ok:
  assumes "pool_inv p"
  shows "\<exists>e p'. make_room env t p = Some (e, p') \<and> pool_inv p' \<and> core p' = core p \<and> map_of (p_all p') \<subseteq>\<^sub>m map_of (p_all p)"
proof -
  let ?lim = "GlobalSlots (p_config p) + GlobalQueue (p_config p)" and ?n = "int (length (p_all p))"
  have ok: "pool_ok {} p" "pl_ok (p_priced p)" and cov: "\<forall>h t. map_of (p_all p) h = Some t \<longrightarrow> t \<in> set (pl_items (p_priced p))"
    using assms by (auto simp: pool_inv_def priced_ok_def)
  obtain pr u where u: "pl_Underpriced (p_all p) (p_priced p) t (p_locals p) = Some (pr, u)" "pl_ok pr"
    "live_items (p_all p) (pl_items pr) = live_items (p_all p) (pl_items (p_priced p))"
    using pl_Underpriced_iff [OF ok(2)] by metis
  have lv: "\<forall>h t. map_of (p_all p) h = Some t \<longrightarrow> t \<in># live_items (p_all p) (pl_items pr)"
    using cov live_known [OF ok(1)] unfolding u(3) by (auto simp: live_items_def)
  have inv: "pool_inv (p\<lparr>p_priced := pr\<rparr>)"
    using ok(1) u(2) lv by (simp add: pool_inv_def priced_ok_def live_items_def)
  have pos: "0 \<le> ?n - sint (?lim - 1)" if "uint ?lim \<le> ?n"
  proof (cases "?lim = 0")
    case False
    then have "uint (?lim - 1) = uint ?lim - 1" by (rule uint_pred)
    moreover have "sint (?lim - 1) \<le> uint (?lim - 1)" by (rule sint_le_uint)
    ultimately show ?thesis using that by linarith
  qed simp
  obtain pr' drops where d: "uint ?lim \<le> ?n \<Longrightarrow> pl_Discard (p_all p) pr (?n - sint (?lim - 1)) (p_locals p) = Some (pr', drops)"
    "uint ?lim \<le> ?n \<Longrightarrow> pl_ok pr'"
    "uint ?lim \<le> ?n \<Longrightarrow> live_items (p_all p) (pl_items pr) = live_items (p_all p) (pl_items pr') + mset drops"
    using pl_Discard_spec [OF u(2) pos] by metis
  show ?thesis
  proof (cases "uint ?lim \<le> ?n \<and> \<not> u")
    case True
    have "\<forall>h t. map_of (p_all p) h = Some t \<longrightarrow> t \<in> set (pl_items pr') \<or> t \<in> set drops"
    proof (intro allI impI)
      fix h t assume "map_of (p_all p) h = Some t"
      then have "t \<in># live_items (p_all p) (pl_items pr') + mset drops" using lv d(3) True by simp
      then show "t \<in> set (pl_items pr') \<or> t \<in> set drops" by (auto simp: live_items_def)
    qed
    then obtain p' where p': "remove_all env drops (p\<lparr>p_priced := pr'\<rparr>) = Some p'" "pool_inv p'" "core p' = core p"
      "map_of (p_all p') = map_of (p_all p) |` (- tx_hash ` set drops)"
      using remove_dropped [OF ok(1) d(2)] True by blast
    then have "make_room env t p = Some (None, p')" using True u(1) d(1) by (simp add: make_room_def Let_def)
    moreover have "map_of (p_all p') \<subseteq>\<^sub>m map_of (p_all p)" unfolding p'(4) by (simp add: map_le_def)
    ultimately show ?thesis using p'(2,3) by blast
  next
    case False
    then show ?thesis using u(1) inv assms by (auto simp: make_room_def Let_def core_def)
  qed
qed

lemma place_queued_ok:
  assumes "pool_inv p" "map_of (p_all p) (tx_hash t) = None" "tx_sender t = Some a"
    "\<forall>u\<in>held (p_pending p). \<not> (tx_sender u = Some a \<and> tx_nonce u = tx_nonce t)"
  shows "pool_inv (snd (place_queued env t local p)) \<and> p_config (snd (place_queued env t local p)) = p_config p"
proof -
  obtain r q where q: "enqueueTx (tx_hash t) t p = (r, q)" "pool_ok {} q" "core q = core p"
    "\<forall>D. priced_ok D p \<longrightarrow> priced_ok D q"
    using enqueueTx_new [of p t a] assms by (auto simp: pool_inv_def)
  then have "pool_inv q" "p_config q = p_config p" using assms(1) coreD [OF q(3)] by (auto simp: pool_inv_def)
  then show ?thesis using q(1) by (auto simp: place_queued_def Let_def split: sum.splits)
qed

lemma place_tx_ok:
  assumes "pool_inv p" "map_of (p_all p) (tx_hash t) = None" "tx_sender t = Some a"
  shows "pool_inv (snd (place_tx env t local p)) \<and> p_config (snd (place_tx env t local p)) = p_config p"
proof -
  note s = sender_Some [OF assms(3)] and ok = assms(1) [unfolded pool_inv_def, THEN conjunct1]
  have pl: "lists_ok True (p_pending p)" using ok by (simp add: pool_ok_def book_def)
  show ?thesis
  proof (cases "\<exists>l. map_of (p_pending p) a = Some l \<and> tl_Overlaps l t")
    case False
    then have "\<forall>u\<in>held (p_pending p). \<not> (tx_sender u = Some a \<and> tx_nonce u = tx_nonce t)"
      using held_at [OF pl, of _ a] overlaps_iff pool_ok_lists(1) [OF ok] by metis
    note q = place_queued_ok [OF assms this]
    then show ?thesis using False s by (auto simp: place_tx_def split: option.splits)
  next
    case True
    then obtain l old where l: "map_of (p_pending p) a = Some l" "tl_Overlaps l t"
      and old: "old \<in> set (tl_abs l)" "tx_nonce old = tx_nonce t"
      using overlaps_iff pool_ok_lists(1) [OF ok] by metis
    note lo = pool_ok_lists(1) [OF ok l(1)]
    from tl_Add_taken [OF _ old, of "PriceBump (p_config p)"] lo
    consider "tl_Add l t (PriceBump (p_config p)) = (l, False, None)"
      | l' where "tl_Add l t (PriceBump (p_config p)) = (l', True, Some old)" "tl_inv l'" "tl_strict l'"
        "set (tl_abs l') = insert t (set (tl_abs l) - {old})" by auto
    then show ?thesis
    proof cases
      case 1
      have "pool_ok {} (p\<lparr>p_pending := AList.update a l (p_pending p)\<rparr>)" using pending_take [OF ok l(1), of l] lo by simp
      then show ?thesis using 1 l s assms(1) by (simp add: place_tx_def pool_inv_def)
    next
      case 2
      let ?q = "remember (tx_hash t) t (forget (tx_hash old) (p\<lparr>p_pending := AList.update a l' (p_pending p)\<rparr>))"
      have "pool_ok {} ?q"
        using book_replace [OF ok [unfolded pool_ok_def] l(1) old assms(3,2) 2(2) _ 2(4)] 2(3) by (simp add: pool_ok_def)
      moreover have "priced_ok {} ?q" using assms(1) by (simp add: pool_inv_def priced_remember priced_forget)
      moreover have "p_config ?q = p_config p" by (simp add: remember_def forget_def Let_def)
      ultimately show ?thesis using 2(1) l s by (simp add: place_tx_def Let_def pool_inv_def)
    qed
  qed
qed

lemma validateTx_sender: "validateTx env t local p = None \<Longrightarrow> tx_sender t \<noteq> None"
  by (auto simp: validateTx_def split: if_splits option.splits)

lemma pool_add_ok:
  assumes "pool_inv p"
  shows "\<exists>r p'. pool_add env t local p = Some (r, p') \<and> pool_inv p' \<and> p_config p' = p_config p"
proof (cases "map_of (p_all p) (tx_hash t) = None \<and> validateTx env t local p = None")
  case False
  then show ?thesis using assms by (auto simp: pool_add_def)
next
  case True
  then obtain a where a: "tx_sender t = Some a" using validateTx_sender by blast
  obtain e q where q: "make_room env t p = Some (e, q)" "pool_inv q" "core q = core p" "map_of (p_all q) \<subseteq>\<^sub>m map_of (p_all p)"
    using make_room_ok [OF assms] by metis
  have "map_of (p_all q) (tx_hash t) = None" using q(4) True by (metis domIff map_le_def)
  then show ?thesis using place_tx_ok [OF q(2) _ a, of env local] True q coreD [OF q(3)]
    by (cases e; cases "place_tx env t local q") (auto simp: pool_add_def)
qed

section \<open>Promotion and demotion\<close>

lemma tl_abs_distinct: "tl_inv l \<Longrightarrow> distinct (tl_abs l)"
  using sm_abs_strict [OF tl_invD] by (simp add: tl_abs_def distinct_map)

text \<open>When an operation splits a list into what stays and what it returns.\<close>

lemma split_list:
  assumes "tl_inv l" "mset (tl_abs l) = mset (tl_abs l') + mset ts"
  shows "distinct ts \<and> set (tl_abs l') \<subseteq> set (tl_abs l) \<and> set (tl_abs l) - set (tl_abs l') = set ts"
proof -
  have m: "mset (tl_abs l) = mset (tl_abs l' @ ts)" using assms(2) by simp
  have "distinct (tl_abs l' @ ts)" using tl_abs_distinct [OF assms(1)] mset_eq_imp_distinct_iff [OF m] by simp
  then show ?thesis using mset_eq_setD [OF m] by auto
qed

lemma queue_split:
  assumes "pool_ok X p" "map_of (p_queue p) a = Some l" "tl_inv l'" "tl_strict l' = tl_strict l"
    "mset (tl_abs l) = mset (tl_abs l') + mset ts"
  shows "pool_ok (X \<union> set ts) (p\<lparr>p_queue := AList.update a l' (p_queue p)\<rparr>) \<and> distinct ts \<and> (\<forall>t\<in>set ts. sender t = a)"
proof -
  note l = pool_ok_lists(2) [OF assms(1,2)] and sp = split_list [OF _ assms(5)]
  then have "set ts \<subseteq> set (tl_abs l)" by auto
  then have "\<forall>t\<in>set ts. sender t = a" using l by (auto intro!: sender_Some)
  then show ?thesis using queue_take [OF assms(1-3)] assms(4) l sp by auto
qed

lemma pending_split:
  assumes "pool_ok X p" "map_of (p_pending p) a = Some l" "tl_inv l'" "tl_strict l' = tl_strict l"
    "mset (tl_abs l) = mset (tl_abs l') + mset ts"
  shows "pool_ok (X \<union> set ts) (p\<lparr>p_pending := AList.update a l' (p_pending p)\<rparr>) \<and> distinct ts"
  using pending_take [OF assms(1-3)] pool_ok_lists(1) [OF assms(1,2)] assms(4) split_list [OF _ assms(5)] by auto

lemma queue_drop:
  assumes "pool_ok {} p" "map_of (p_queue p) a = Some l" "tl_inv l'" "tl_strict l' = tl_strict l"
    "mset (tl_abs l) = mset (tl_abs l') + mset ts"
  shows "\<exists>p'. forget_all (map Some ts) (p\<lparr>p_queue := AList.update a l' (p_queue p)\<rparr>) = Some p' \<and> pool_ok {} p' \<and> tidy p p'
    \<and> map_of (p_queue p') a = Some l' \<and> p_pending p' = p_pending p \<and> p_pendingState p' = p_pendingState p"
  using forget_all_ok [of "{} \<union> set ts" "p\<lparr>p_queue := AList.update a l' (p_queue p)\<rparr>" ts] queue_split [OF assms]
  by (auto simp: alist_simps)

lemma pending_drop:
  assumes "pool_ok X p" "map_of (p_pending p) a = Some l" "tl_inv l'" "tl_strict l' = tl_strict l"
    "mset (tl_abs l) = mset (tl_abs l') + mset ts + mset us"
  shows "\<exists>p'. forget_all (map Some ts) (p\<lparr>p_pending := AList.update a l' (p_pending p)\<rparr>) = Some p'
    \<and> pool_ok (X \<union> set us) p' \<and> tidy p p' \<and> p_pending p' = AList.update a l' (p_pending p) \<and> distinct us"
proof -
  have m: "mset (tl_abs l) = mset (tl_abs l') + mset (ts @ us)" using assms(5) by simp
  note sp = pending_split [OF assms(1-4) m]
  have "pool_ok (X \<union> set (ts @ us)) (p\<lparr>p_pending := AList.update a l' (p_pending p)\<rparr>)" "distinct ts" "set ts \<subseteq> X \<union> set (ts @ us)"
    using sp by auto
  note f = forget_all_ok [OF this(1,3,2)]
  have "set (ts @ us) \<subseteq> held (p_pending p)"
    using pool_ok_lists(1) [OF assms(1,2)] split_list [OF _ m] heldI [OF assms(2)] by blast
  then have "set ts \<inter> set us = {}" "set ts \<inter> X = {}"
    using sp assms(1) unfolding pool_ok_def book_def by auto
  then have "X \<union> set (ts @ us) - set ts = X \<union> set us" by auto
  then show ?thesis using f sp by auto
qed

text \<open>The four stages of \<open>promote_account\<close>.\<close>

lemma queue_forward:
  assumes "pool_ok {} p" "map_of (p_queue p) a = Some l"
  shows "\<exists>l' old p'. tl_Forward l th = Some (l', old) \<and> forget_all old (p\<lparr>p_queue := AList.update a l' (p_queue p)\<rparr>) = Some p'
    \<and> pool_ok {} p' \<and> tidy p p' \<and> map_of (p_queue p') a = Some l'"
proof -
  obtain l' where l': "tl_Forward l th = Some (l', map Some (takeWhile (\<lambda>t. tx_nonce t < th) (tl_abs l)))"
    "tl_inv l'" "tl_abs l' = dropWhile (\<lambda>t. tx_nonce t < th) (tl_abs l)" "tl_strict l' = tl_strict l"
    using tl_Forward_correct pool_ok_lists(2) [OF assms] by blast
  have "mset (tl_abs l) = mset (tl_abs l') + mset (takeWhile (\<lambda>t. tx_nonce t < th) (tl_abs l))"
    unfolding l'(3) by (metis mset_append takeWhile_dropWhile_id union_commute)
  from queue_drop [OF assms l'(2,4) this] show ?thesis using l'(1) by blast
qed

lemma queue_filter:
  assumes "pool_ok {} p" "map_of (p_queue p) a = Some l" "tl_Filter l C G = (l', drops, invalids)"
  shows "\<exists>p'. forget_all (map Some drops) (p\<lparr>p_queue := AList.update a l' (p_queue p)\<rparr>) = Some p'
    \<and> pool_ok {} p' \<and> tidy p p' \<and> map_of (p_queue p') a = Some l'"
proof -
  note ok = pool_ok_lists(2) [OF assms(1,2)]
  have g: "tl_abs l' = filter (affordable C G) (tl_abs l)" "mset drops = mset (filter (\<lambda>t. \<not> affordable C G t) (tl_abs l))"
    "tl_inv l'" "tl_strict l' = tl_strict l"
    using tl_Filter_gapped_abs [OF _ _ assms(3)] tl_Filter_inv [of l C G] tl_Filter_strict_flag [of l C G] ok assms(3) by auto
  have "mset (tl_abs l) = mset (tl_abs l') + mset drops" unfolding g(1,2) by simp
  from queue_drop [OF assms(1,2) g(3,4) this] show ?thesis by blast
qed

lemma queue_ready:
  assumes "pool_ok {} p" "map_of (p_queue p) a = Some l"
  shows "\<exists>l' ready p'. tl_Ready l n = Some (l', ready) \<and> promote_all env a ready (p\<lparr>p_queue := AList.update a l' (p_queue p)\<rparr>) = Some p'
    \<and> pool_ok {} p' \<and> tidy p p' \<and> map_of (p_queue p') a = Some l'"
proof -
  let ?r = "take (ready_count n (tl_abs l)) (tl_abs l)"
  obtain l' where l': "tl_Ready l n = Some (l', map Some ?r)" "tl_inv l'"
    "tl_abs l' = drop (ready_count n (tl_abs l)) (tl_abs l)" "tl_strict l' = tl_strict l"
    using tl_Ready_correct pool_ok_lists(2) [OF assms] by blast
  have "mset (tl_abs l) = mset (tl_abs l') + mset ?r"
    unfolding l'(3) by (metis append_take_drop_id mset_append union_commute)
  note sp = queue_split [OF assms l'(2,4) this]
  show ?thesis
    using promote_all_ok [of "{} \<union> set ?r" "p\<lparr>p_queue := AList.update a l' (p_queue p)\<rparr>" ?r a env] sp l'(1)
    by (auto simp: alist_simps)
qed

lemma queue_cap:
  assumes "pool_ok {} p" "map_of (p_queue p) a = Some l" "0 \<le> k"
  shows "\<exists>l' drops p'. tl_Cap l k = Some (l', drops) \<and> forget_all drops (p\<lparr>p_queue := AList.update a l' (p_queue p)\<rparr>) = Some p'
    \<and> pool_ok {} p' \<and> tidy p p' \<and> map_of (p_queue p') a = Some l'"
proof -
  obtain l' where l': "tl_Cap l k = Some (l', map Some (rev (drop (nat k) (tl_abs l))))"
    "tl_inv l'" "tl_abs l' = take (nat k) (tl_abs l)" "tl_strict l' = tl_strict l"
    using tl_Cap_correct pool_ok_lists(2) [OF assms(1,2)] assms(3) by blast
  have "mset (tl_abs l) = mset (tl_abs l') + mset (rev (drop (nat k) (tl_abs l)))"
    unfolding l'(3) mset_rev by (metis append_take_drop_id mset_append)
  from queue_drop [OF assms(1,2) l'(2,4) this] show ?thesis using l'(1) by blast
qed

lemma promote_account_ok:
  assumes "pool_ok {} p" "0 \<le> sint (AccountQueue (p_config p))"
  shows "\<exists>p'. promote_account env a p = Some p' \<and> pool_ok {} p' \<and> tidy p p'"
proof (cases "map_of (p_queue p) a")
  case None
  then show ?thesis using assms(1) by (simp add: promote_account_def)
next
  case (Some l)
  obtain l1 old p1 where 1: "tl_Forward l (GetNonce (pe_db env) (p_currentState p) a) = Some (l1, old)"
    "forget_all old (p\<lparr>p_queue := AList.update a l1 (p_queue p)\<rparr>) = Some p1" "pool_ok {} p1" "tidy p p1" "map_of (p_queue p1) a = Some l1"
    using queue_forward [OF assms(1) Some] by metis
  obtain l2 drops invalids where l2: "tl_Filter l1 (GetBalance (pe_db env) (p_currentState p1) a) (p_currentMaxGas p1) = (l2, drops, invalids)"
    by (metis prod_cases3)
  from queue_filter [OF 1(3,5) this] obtain p2 where 2: "forget_all (map Some drops) (p1\<lparr>p_queue := AList.update a l2 (p_queue p1)\<rparr>) = Some p2"
    "pool_ok {} p2" "tidy p1 p2" "map_of (p_queue p2) a = Some l2" by metis
  obtain l3 ready p3 where 3: "tl_Ready l2 (pe_GetNonce env (p_pendingState p2) a) = Some (l3, ready)"
    "promote_all env a ready (p2\<lparr>p_queue := AList.update a l3 (p_queue p2)\<rparr>) = Some p3" "pool_ok {} p3" "tidy p2 p3" "map_of (p_queue p3) a = Some l3"
    using queue_ready [OF 2(2,4)] by metis
  have t3: "tidy p p3" using tidy_trans [OF tidy_trans [OF 1(4) 2(3)] 3(4)] .
  have "0 \<le> sint (AccountQueue (p_config p3))" using assms(2) tidyD [OF t3] by simp
  from queue_cap [OF 3(3,5) this] obtain l4 over p4 where 4: "tl_Cap l3 (sint (AccountQueue (p_config p3))) = Some (l4, over)"
    "forget_all over (p3\<lparr>p_queue := AList.update a l4 (p_queue p3)\<rparr>) = Some p4" "pool_ok {} p4" "tidy p3 p4" "map_of (p_queue p4) a = Some l4"
    by metis
  define l5 p5 where "l5 = (if as_contains (p_locals p3) a then l3 else l4)" and "p5 = (if as_contains (p_locals p3) a then p3 else p4)"
  have 5: "pool_ok {} p5" "tidy p p5" "map_of (p_queue p5) a = Some l5"
    using 3(3,5) 4(3,5) t3 tidy_trans [OF t3 4(4)] by (simp_all add: l5_def p5_def)
  have "promote_account env a p = Some (if tl_Empty l5 then p5\<lparr>p_queue := AList.delete a (p_queue p5)\<rparr> else p5)"
    using Some 1(1,2) l2 2(1) 3(1,2) 4(1,2) by (simp add: promote_account_def l5_def p5_def)
  then show ?thesis using 5 queue_delete [OF 5(1,3)] by (simp add: tl_Empty_abs)
qed

lemma promote_accounts_ok:
  assumes "pool_ok {} p" "0 \<le> sint (AccountQueue (p_config p))"
  shows "\<exists>p'. promote_accounts env as p = Some p' \<and> pool_ok {} p' \<and> tidy p p'"
  using assms
proof (induction as arbitrary: p)
  case (Cons a as)
  obtain q where q: "promote_account env a p = Some q" "pool_ok {} q" "tidy p q"
    using promote_account_ok [OF Cons.prems] by metis
  then show ?case using Cons.IH [OF q(2)] Cons.prems(2) tidyD [OF q(3)] tidy_trans [OF q(3)] by auto
qed simp

text \<open>Demotion of one account: whatever leaves the pending list is forgotten or queued.\<close>

lemma pending_forward:
  assumes "pool_ok {} p" "map_of (p_pending p) a = Some l"
  shows "\<exists>l' old p'. tl_Forward l th = Some (l', old) \<and> forget_all old (p\<lparr>p_pending := AList.update a l' (p_pending p)\<rparr>) = Some p'
    \<and> pool_ok {} p' \<and> tidy p p' \<and> p_pending p' = AList.update a l' (p_pending p)"
proof -
  obtain l' where l': "tl_Forward l th = Some (l', map Some (takeWhile (\<lambda>t. tx_nonce t < th) (tl_abs l)))"
    "tl_inv l'" "tl_abs l' = dropWhile (\<lambda>t. tx_nonce t < th) (tl_abs l)" "tl_strict l' = tl_strict l"
    using tl_Forward_correct pool_ok_lists(1) [OF assms] by blast
  have "mset (tl_abs l) = mset (tl_abs l') + mset (takeWhile (\<lambda>t. tx_nonce t < th) (tl_abs l)) + mset []"
    unfolding l'(3) by (simp, metis mset_append takeWhile_dropWhile_id union_commute)
  from pending_drop [OF assms l'(2,4) this] show ?thesis using l'(1) by auto
qed

lemma pending_filter:
  assumes "pool_ok {} p" "map_of (p_pending p) a = Some l" "tl_Filter l C G = (l', drops, invalids)"
  shows "\<exists>p'. forget_all (map Some drops) (p\<lparr>p_pending := AList.update a l' (p_pending p)\<rparr>) = Some p'
    \<and> pool_ok {} (enqueue_all invalids p') \<and> tidy p (enqueue_all invalids p')
    \<and> p_pending (enqueue_all invalids p') = AList.update a l' (p_pending p)"
proof -
  note ok = pool_ok_lists(1) [OF assms(1,2)]
  have g: "tl_abs l' = takeWhile (affordable C G) (tl_abs l)" "mset drops = mset (filter (\<lambda>t. \<not> affordable C G t) (tl_abs l))"
    "mset invalids = mset (filter (affordable C G) (dropWhile (affordable C G) (tl_abs l)))"
    "tl_inv l'" "tl_strict l' = tl_strict l"
    using tl_Filter_strict_abs [OF _ _ assms(3)] tl_Filter_inv [of l C G] tl_Filter_strict_flag [of l C G] ok assms(3) by auto
  have "mset (tl_abs l) = mset (tl_abs l') + mset drops + mset invalids"
    unfolding g(1-3) by (rule mset_prefix_split)
  from pending_drop [OF assms(1,2) g(4,5) this] obtain p' where p':
    "forget_all (map Some drops) (p\<lparr>p_pending := AList.update a l' (p_pending p)\<rparr>) = Some p'"
    "pool_ok (set invalids) p'" "tidy p p'" "p_pending p' = AList.update a l' (p_pending p)" "distinct invalids" by auto
  show ?thesis using enqueue_all_ok [OF p'(2) _ p'(5)] p'(1,3,4) tidy_trans [OF p'(3)] by auto
qed

lemma pending_gap:
  assumes "pool_ok {} p" "map_of (p_pending p) a = Some l"
  shows "\<exists>l' gapped txs. tl_Cap l 0 = Some (l', gapped) \<and> those gapped = Some txs \<and> tl_abs l' = []
    \<and> pool_ok {} (enqueue_all txs (p\<lparr>p_pending := AList.update a l' (p_pending p)\<rparr>))
    \<and> tidy p (enqueue_all txs (p\<lparr>p_pending := AList.update a l' (p_pending p)\<rparr>))
    \<and> p_pending (enqueue_all txs (p\<lparr>p_pending := AList.update a l' (p_pending p)\<rparr>)) = AList.update a l' (p_pending p)"
proof -
  obtain l' where l': "tl_Cap l 0 = Some (l', map Some (rev (tl_abs l)))" "tl_inv l'" "tl_abs l' = []" "tl_strict l' = tl_strict l"
    using tl_Cap_correct [of l 0] pool_ok_lists(1) [OF assms] by auto
  have "mset (tl_abs l) = mset (tl_abs l') + mset (rev (tl_abs l))" unfolding l'(3) by simp
  note sp = pending_split [OF assms l'(2,4) this]
  have th: "those (map Some xs) = Some xs" for xs :: "tx list" by (induction xs) simp_all
  let ?q = "p\<lparr>p_pending := AList.update a l' (p_pending p)\<rparr>"
  have "pool_ok (set (rev (tl_abs l))) ?q" "distinct (rev (tl_abs l))" using sp by auto
  note e = enqueue_all_ok [OF this(1) order_refl this(2)]
  show ?thesis using l'(1,3) th e by auto
qed

lemma demote_account_ok:
  assumes "pool_ok {} p" "map_of (p_pending p) a = Some l"
  shows "\<exists>p'. demote_account env a p = Some p' \<and> pool_ok {} p' \<and> tidy p p'
    \<and> (\<forall>b. b \<noteq> a \<longrightarrow> map_of (p_pending p') b = map_of (p_pending p) b)
    \<and> (\<forall>k. map_of (p_pending p') a = Some k \<longrightarrow> tl_abs k \<noteq> [])"
proof -
  let ?n = "GetNonce (pe_db env) (p_currentState p) a"
  obtain l1 old p1 where 1: "tl_Forward l ?n = Some (l1, old)" "forget_all old (p\<lparr>p_pending := AList.update a l1 (p_pending p)\<rparr>) = Some p1"
    "pool_ok {} p1" "tidy p p1" "p_pending p1 = AList.update a l1 (p_pending p)"
    using pending_forward [OF assms] by metis
  have m1: "map_of (p_pending p1) a = Some l1" by (simp add: 1(5) alist_simps)
  obtain l2 drops invalids where l2: "tl_Filter l1 (GetBalance (pe_db env) (p_currentState p1) a) (p_currentMaxGas p1) = (l2, drops, invalids)"
    by (metis prod_cases3)
  from pending_filter [OF 1(3) m1 this] obtain p2 where 2: "forget_all (map Some drops) (p1\<lparr>p_pending := AList.update a l2 (p_pending p1)\<rparr>) = Some p2"
    "pool_ok {} (enqueue_all invalids p2)" "tidy p1 (enqueue_all invalids p2)" "p_pending (enqueue_all invalids p2) = AList.update a l2 (p_pending p1)"
    by metis
  define q where "q = enqueue_all invalids p2"
  have q: "pool_ok {} q" "tidy p q" "map_of (p_pending q) a = Some l2" "\<forall>b. b \<noteq> a \<longrightarrow> map_of (p_pending q) b = map_of (p_pending p) b"
    using 2(2,4) tidy_trans [OF 1(4) 2(3)] 1(5) by (simp_all add: q_def alist_simps)
  obtain l3 gapped txs where 3: "tl_Cap l2 0 = Some (l3, gapped)" "those gapped = Some txs" "tl_abs l3 = []"
    "pool_ok {} (enqueue_all txs (q\<lparr>p_pending := AList.update a l3 (p_pending q)\<rparr>))"
    "tidy q (enqueue_all txs (q\<lparr>p_pending := AList.update a l3 (p_pending q)\<rparr>))"
    "p_pending (enqueue_all txs (q\<lparr>p_pending := AList.update a l3 (p_pending q)\<rparr>)) = AList.update a l3 (p_pending q)"
    using pending_gap [OF q(1,3)] by metis
  define gap where "gap \<longleftrightarrow> tl_Len l2 > 0 \<and> sm_Get (tl_txs l2) ?n = None"
  define l4 p4 where "l4 = (if gap then l3 else l2)"
    and "p4 = (if gap then enqueue_all txs (q\<lparr>p_pending := AList.update a l3 (p_pending q)\<rparr>) else q)"
  have 4: "pool_ok {} p4" "tidy p p4" "map_of (p_pending p4) a = Some l4" "\<forall>b. b \<noteq> a \<longrightarrow> map_of (p_pending p4) b = map_of (p_pending p) b"
    using q 3(4,6) tidy_trans [OF q(2) 3(5)] by (simp_all add: l4_def p4_def alist_simps)
  have "demote_account env a p = Some (if tl_Empty l4
      then p4\<lparr>p_pending := AList.delete a (p_pending p4), p_beats := AList.delete a (p_beats p4)\<rparr> else p4)"
    using assms(2) 1(1,2) l2 2(1) 3(1,2) by (simp add: demote_account_def l4_def p4_def gap_def q_def Let_def)
  then show ?thesis using 4 pending_delete [OF 4(1,3)] by (auto simp: tl_Empty_abs alist_simps)
qed

lemma demote_accounts_ok:
  assumes "pool_ok {} p" "distinct as" "set as \<subseteq> dom (map_of (p_pending p))"
  shows "\<exists>p'. demote_accounts env as p = Some p' \<and> pool_ok {} p' \<and> tidy p p'
    \<and> (\<forall>b. b \<notin> set as \<longrightarrow> map_of (p_pending p') b = map_of (p_pending p) b)
    \<and> (\<forall>a\<in>set as. \<forall>k. map_of (p_pending p') a = Some k \<longrightarrow> tl_abs k \<noteq> [])"
  using assms
proof (induction as arbitrary: p)
  case (Cons a as)
  then obtain l where "map_of (p_pending p) a = Some l" by auto
  from demote_account_ok [OF Cons.prems(1) this, of env] obtain q where q: "demote_account env a p = Some q" "pool_ok {} q" "tidy p q"
    "\<forall>b. b \<noteq> a \<longrightarrow> map_of (p_pending q) b = map_of (p_pending p) b" "\<forall>k. map_of (p_pending q) a = Some k \<longrightarrow> tl_abs k \<noteq> []" by metis
  have "distinct as" "a \<notin> set as" using Cons.prems(2) by auto
  moreover have "b \<in> dom (map_of (p_pending q))" if "b \<in> set as" for b
    using Cons.prems(2,3) q(4) that by (metis domIff distinct.simps(2) insert_iff list.simps(15) subsetD)
  ultimately obtain r where r: "demote_accounts env as q = Some r" "pool_ok {} r" "tidy q r"
    "\<forall>b. b \<notin> set as \<longrightarrow> map_of (p_pending r) b = map_of (p_pending q) b"
    "\<forall>a\<in>set as. \<forall>k. map_of (p_pending r) a = Some k \<longrightarrow> tl_abs k \<noteq> []" using Cons.IH [OF q(2)] by (metis subsetI)
  then show ?case using q tidy_trans [OF q(3) r(3)] \<open>a \<notin> set as\<close> by auto
qed simp

text \<open>The order of a \<open>range\<close> is some order of the keys; the queue pops by descending priority.\<close>

definition range_law :: "(address list \<Rightarrow> address list) \<Rightarrow> bool" where
  "range_law f \<longleftrightarrow> (\<forall>as. mset (f as) = mset as)"

definition prque_law :: "((address \<times> int) list \<Rightarrow> address list) \<Rightarrow> bool" where
  "prque_law f \<longleftrightarrow> (\<forall>xs. distinct (map fst xs) \<longrightarrow> mset (f xs) = mset (map fst xs)
     \<and> sorted_wrt (\<lambda>a b. \<forall>x y. (a, x) \<in> set xs \<and> (b, y) \<in> set xs \<longrightarrow> y \<le> x) (f xs))"

definition pool_laws :: "('s, 'm) pool_env \<Rightarrow> bool" where
  "pool_laws env \<longleftrightarrow> range_law (pe_range env) \<and> prque_law (pe_prque env)"

lemma range_lawD: "pool_laws env \<Longrightarrow> set (pe_range env as) = set as \<and> (distinct as \<longrightarrow> distinct (pe_range env as))"
  unfolding pool_laws_def range_law_def by (metis mset_eq_setD mset_eq_imp_distinct_iff)

lemma demoteUnexecutables_ok:
  assumes "pool_ok {} p" "pool_laws env"
  shows "\<exists>p'. demoteUnexecutables env p = Some p' \<and> pool_ok {} p' \<and> tidy p p'
    \<and> (\<forall>a l. map_of (p_pending p') a = Some l \<longrightarrow> tl_abs l \<noteq> [])"
proof -
  let ?as = "pe_range env (map fst (p_pending p))"
  have g: "go_ok (p_pending p)" using assms(1) by (simp add: pool_ok_def book_def lists_ok_def)
  have as: "set ?as = dom (map_of (p_pending p))" "distinct ?as"
    using range_lawD [OF assms(2)] g by (auto simp: dom_map_of_conv_image_fst)
  obtain p' where p': "demote_accounts env ?as p = Some p'" "pool_ok {} p'" "tidy p p'"
    "\<forall>b. b \<notin> set ?as \<longrightarrow> map_of (p_pending p') b = map_of (p_pending p) b"
    "\<forall>a\<in>set ?as. \<forall>k. map_of (p_pending p') a = Some k \<longrightarrow> tl_abs k \<noteq> []"
    using demote_accounts_ok [OF assms(1) as(2)] as(1) by (metis subset_refl)
  have "tl_abs l \<noteq> []" if "map_of (p_pending p') a = Some l" for a l
    using p'(4,5) as(1) that by (metis domIff option.distinct(1))
  then show ?thesis using p' by (auto simp: demoteUnexecutables_def)
qed

lemma flatten_same:
  assumes "pool_ok X p" "map_of (p_pending p) a = Some l"
  shows "pool_ok X (p\<lparr>p_pending := AList.update a (fst (tl_Flatten l)) (p_pending p)\<rparr>)" "snd (tl_Flatten l) = tl_abs l"
    "tl_abs (fst (tl_Flatten l)) = tl_abs l"
proof -
  note l = pool_ok_lists(1) [OF assms] and f = tl_Flatten_correct [of l]
  moreover have "tl_strict (fst (tl_Flatten l)) = tl_strict l" by (simp add: tl_Flatten_def split: prod.splits)
  ultimately show "pool_ok X (p\<lparr>p_pending := AList.update a (fst (tl_Flatten l)) (p_pending p)\<rparr>)"
    using pending_take [OF assms, of "fst (tl_Flatten l)"] by simp
qed (use tl_Flatten_correct pool_ok_lists(1) [OF assms] in auto)

lemma pending_nonces_ok:
  assumes "pool_ok {} p" "set as \<subseteq> dom (map_of (p_pending p))" "\<forall>a l. map_of (p_pending p) a = Some l \<longrightarrow> tl_abs l \<noteq> []"
  shows "\<exists>p'. pending_nonces env as p = Some p' \<and> pool_ok {} p' \<and> tidy p p'"
  using assms
proof (induction as arbitrary: p)
  case (Cons a as)
  then obtain l where l: "map_of (p_pending p) a = Some l" by auto
  note f = flatten_same [OF Cons.prems(1) l]
  let ?t = "tl_abs l ! nat (int (length (tl_abs l)) - 1)"
  let ?q = "p\<lparr>p_pendingState := pe_SetNonce env (p_pendingState p) a (tx_nonce ?t + 1), p_pending := AList.update a (fst (tl_Flatten l)) (p_pending p)\<rparr>"
  have "slice_at (tl_abs l) (int (length (tl_abs l)) - 1) = Some ?t"
    using Cons.prems(3) l by (cases "tl_abs l") (auto simp: slice_at_def)
  then have e: "pending_nonces env (a # as) p = pending_nonces env as ?q"
    using l f(2) by (simp add: split_beta)
  have "pool_ok {} ?q" using f(1) by (simp add: pool_ok_def)
  moreover have "set as \<subseteq> dom (map_of (p_pending ?q))" using Cons.prems(2) by (auto simp: alist_simps)
  moreover have "\<forall>b k. map_of (p_pending ?q) b = Some k \<longrightarrow> tl_abs k \<noteq> []" using Cons.prems(3) l f(3) by (auto simp: alist_simps)
  ultimately obtain p' where "pending_nonces env as ?q = Some p'" "pool_ok {} p'" "tidy ?q p'" using Cons.IH by metis
  then show ?case using e tidy_trans [of p ?q p'] by simp
qed simp

end
