(* ===== verification/Tx_Pool_Limits.thy ===== *)
theory Tx_Pool_Limits
  imports Tx_Pool_Inv
begin

text \<open>
  The limits that \<open>promoteExecutables\<close> enforces: the loops that shrink the largest senders and
  the loop that drops queued transactions, with what they leave.
\<close>

section \<open>Counting\<close>

lemma len_at_cases:
  "map_of m a = None \<Longrightarrow> len_at m a = 0" "map_of m a = Some l \<Longrightarrow> len_at m a = int (length (tl_abs l))"
  by (simp_all add: len_at_def tl_Len_length)

lemma len_at_nonneg: "0 \<le> len_at m a"
  by (simp add: len_at_def split: option.splits)

lemma len_at_pos: "0 < len_at m a \<Longrightarrow> \<exists>l. map_of m a = Some l \<and> len_at m a = int (length (tl_abs l)) \<and> tl_abs l \<noteq> []"
  by (auto simp: len_at_def tl_Len_length split: option.splits)

lemma count_txs_sum: "go_ok m \<Longrightarrow> count_txs m = (\<Sum>a\<in>fst ` set m. len_at m a)"
proof (induction m)
  case (Cons p m)
  obtain a l where p: "p = (a, l)" by (cases p)
  have a: "a \<notin> fst ` set m" using Cons.prems p by simp
  then have "len_at ((a, l) # m) b = len_at m b" if "b \<in> fst ` set m" for b
    using that by (auto simp: len_at_def)
  then have "(\<Sum>b\<in>fst ` set m. len_at ((a, l) # m) b) = (\<Sum>b\<in>fst ` set m. len_at m b)" by (rule sum.cong [OF refl])
  moreover have "count_txs ((a, l) # m) = len_at ((a, l) # m) a + count_txs m" by (simp add: count_txs_def len_at_def)
  ultimately show ?case using Cons p a by simp
qed (simp add: count_txs_def)

lemma count_without:
  assumes "go_ok m"
  shows "count_txs m - len_at m a = (\<Sum>b\<in>fst ` set m - {a}. len_at m b)"
proof (cases "a \<in> fst ` set m")
  case True
  then show ?thesis using sum.remove [of "fst ` set m" a "len_at m"] by (simp add: count_txs_sum [OF assms])
next
  case False
  then have "len_at m a = 0" by (simp add: len_at_def map_of_eq_None_iff [THEN iffD2])
  then show ?thesis using False by (simp add: count_txs_sum [OF assms])
qed

lemma count_change:
  assumes "go_ok m" "go_ok m'" "\<forall>b. b \<noteq> a \<longrightarrow> map_of m' b = map_of m b"
  shows "count_txs m' = count_txs m - len_at m a + len_at m' a"
proof -
  have "fst ` set m' - {a} = fst ` set m - {a}"
    using assms(3) by (metis (no_types, lifting) dom_fun_upd dom_map_of_conv_image_fst fun_upd_idem_iff fun_upd_other fun_upd_upd ext fun_upd_def)
  moreover have "len_at m' b = len_at m b" if "b \<in> fst ` set m - {a}" for b
    using assms(3) that by (simp add: len_at_def)
  ultimately show ?thesis using count_without [OF assms(1), of a] count_without [OF assms(2), of a] by simp
qed

lemma count_same:
  assumes "go_ok m" "go_ok m'" "\<forall>a. len_at m' a = len_at m a"
  shows "count_txs m' = count_txs m"
proof -
  let ?K = "fst ` set m \<union> fst ` set m'"
  have e: "(\<Sum>a\<in>fst ` set n. len_at n a) = (\<Sum>a\<in>?K. len_at n a)" if "fst ` set n \<subseteq> ?K" for n
    using that by (intro sum.mono_neutral_left) (auto simp: len_at_def map_of_eq_None_iff [THEN iffD2])
  have "(\<Sum>a\<in>?K. len_at m' a) = (\<Sum>a\<in>?K. len_at m a)" using assms(3) by simp
  then show ?thesis using e [of m] e [of m'] by (simp add: count_txs_sum assms(1,2))
qed

lemma pool_go: "pool_ok X p \<Longrightarrow> go_ok (p_pending p) \<and> go_ok (p_queue p) \<and> go_ok (p_all p)"
  by (simp add: pool_ok_def book_def lists_ok_def keyed_def)

lemma list_known:
  assumes "pool_ok {} p" "map_of (p_pending p) a = Some l \<or> map_of (p_queue p) a = Some l"
  shows "length (tl_abs l) \<le> length (p_all p)"
proof -
  have d: "distinct (tl_abs l)" using assms tl_abs_distinct pool_ok_lists by blast
  have "set (tl_abs l) \<subseteq> snd ` set (p_all p)"
  proof
    fix t assume "t \<in> set (tl_abs l)"
    then have "t \<in> held (p_pending p) \<union> held (p_queue p)" using assms(2) heldI by blast
    then have "map_of (p_all p) (tx_hash t) = Some t" using assms(1) by (auto simp: pool_ok_def book_def)
    then show "t \<in> snd ` set (p_all p)" using map_of_SomeD by force
  qed
  then have "card (set (tl_abs l)) \<le> card (set (map snd (p_all p)))" by (simp add: card_mono)
  also have "\<dots> \<le> length (p_all p)" using card_length [of "map snd (p_all p)"] by simp
  finally show ?thesis using distinct_card [OF d] by simp
qed

lemma all_length:
  fixes p q :: "('s, 'm) TxPool"
  assumes "pool_ok X p" "pool_ok Y q" "map_of (p_all q) \<subseteq>\<^sub>m map_of (p_all p)"
  shows "length (p_all q) \<le> length (p_all p)"
proof -
  have "length (p_all r) = card (dom (map_of (p_all r)))" if "go_ok (p_all r)" for r :: "('s, 'm) TxPool"
    using distinct_card [OF that] by (simp add: dom_map_of_conv_image_fst)
  moreover have "card (dom (map_of (p_all q))) \<le> card (dom (map_of (p_all p)))"
    using assms(3) by (intro card_mono finite_dom_map_of) (simp add: map_le_implies_dom_le)
  ultimately show ?thesis using pool_go [OF assms(1)] pool_go [OF assms(2)] by simp
qed

lemma tidy_length: "pool_ok X p \<Longrightarrow> pool_ok Y q \<Longrightarrow> tidy p q \<Longrightarrow> length (p_all q) \<le> length (p_all p)"
  by (rule all_length) (simp_all add: tidy_def)

lemma len_known: "pool_ok {} p \<Longrightarrow> len_at (p_pending p) a \<le> int (length (p_all p))"
  using list_known [of p a] by (auto simp: len_at_def tl_Len_length split: option.splits)

section \<open>Shrinking the largest senders\<close>

lemma forget_lowering_ok:
  assumes "pool_ok X p" "set ts \<subseteq> X" "distinct ts"
  shows "\<exists>p'. forget_lowering env a (map Some ts) p = Some p' \<and> pool_ok (X - set ts) p' \<and> tidy p p'
    \<and> p_pending p' = p_pending p \<and> p_queue p' = p_queue p"
  using assms
proof (induction ts arbitrary: X p)
  case (Cons t ts)
  let ?q = "lower_nonce env a (tx_nonce t) (forget (tx_hash t) p)"
  have q: "pool_ok (X - {t}) ?q" "set ts \<subseteq> X - {t}" "distinct ts" using Cons.prems forget_ok by auto
  have t: "tidy p ?q" using forget_tidy by simp
  show ?case using Cons.IH [OF q] tidy_trans [OF t] by (auto simp: Diff_insert2 [symmetric])
qed simp

lemma cap_one_ok:
  assumes "pool_ok {} p" "0 < len_at (p_pending p) a"
  shows "\<exists>p'. cap_one env a p = Some p' \<and> pool_ok {} p' \<and> tidy p p' \<and> p_queue p' = p_queue p
    \<and> (\<forall>b. b \<noteq> a \<longrightarrow> map_of (p_pending p') b = map_of (p_pending p) b)
    \<and> len_at (p_pending p') a = len_at (p_pending p) a - 1 \<and> dom (map_of (p_pending p')) = dom (map_of (p_pending p))
    \<and> count_txs (p_pending p') = count_txs (p_pending p) - 1"
proof -
  obtain l where l: "map_of (p_pending p) a = Some l" "len_at (p_pending p) a = int (length (tl_abs l))" "tl_abs l \<noteq> []"
    using len_at_pos [OF assms(2)] by blast
  let ?n = "length (tl_abs l) - 1" and ?k = "int (tl_Len l) - 1"
  have k: "0 \<le> ?k" "nat ?k = ?n" using l(3) by (auto simp: tl_Len_length Suc_leI)
  obtain l' where l': "tl_Cap l ?k = Some (l', map Some (rev (drop ?n (tl_abs l))))" "tl_inv l'"
    "tl_abs l' = take ?n (tl_abs l)" "tl_strict l' = tl_strict l"
    using tl_Cap_correct [of l ?k] pool_ok_lists(1) [OF assms(1) l(1)] k by metis
  have "mset (tl_abs l) = mset (tl_abs l') + mset (rev (drop ?n (tl_abs l)))"
    unfolding l'(3) mset_rev by (metis append_take_drop_id mset_append)
  note sp = pending_split [OF assms(1) l(1) l'(2,4) this]
  let ?q = "p\<lparr>p_pending := AList.update a l' (p_pending p)\<rparr>"
  obtain p' where p': "forget_lowering env a (map Some (rev (drop ?n (tl_abs l)))) ?q = Some p'" "pool_ok {} p'" "tidy p p'"
    "p_pending p' = AList.update a l' (p_pending p)" "p_queue p' = p_queue p"
    using forget_lowering_ok [of "{} \<union> set (rev (drop ?n (tl_abs l)))" ?q "rev (drop ?n (tl_abs l))" env a] sp by auto
  have len: "len_at (p_pending p') a = len_at (p_pending p) a - 1"
    using l l' p'(4) by (simp add: len_at_def tl_Len_length alist_simps of_nat_diff Suc_leI)
  moreover have oth: "\<forall>b. b \<noteq> a \<longrightarrow> map_of (p_pending p') b = map_of (p_pending p) b" by (simp add: p'(4) alist_simps)
  ultimately have "count_txs (p_pending p') = count_txs (p_pending p) - 1"
    using count_change [OF _ _ oth] pool_go [OF assms(1)] pool_go [OF p'(2)] by simp
  moreover have "dom (map_of (p_pending p')) = dom (map_of (p_pending p))" using l(1) by (auto simp: p'(4) alist_simps)
  ultimately show ?thesis using p' l(1) l'(1) len oth by (simp add: cap_one_def)
qed

lemma cap_each_ok:
  assumes "pool_ok {} p" "distinct as" "\<forall>a\<in>set as. 0 < len_at (p_pending p) a"
  shows "\<exists>p'. cap_each env as p = Some p' \<and> pool_ok {} p' \<and> tidy p p' \<and> p_queue p' = p_queue p
    \<and> (\<forall>b. len_at (p_pending p') b = len_at (p_pending p) b - (if b \<in> set as then 1 else 0))
    \<and> dom (map_of (p_pending p')) = dom (map_of (p_pending p))
    \<and> count_txs (p_pending p') = count_txs (p_pending p) - int (length as)"
  using assms
proof (induction as arbitrary: p)
  case (Cons a as)
  obtain q where q: "cap_one env a p = Some q" "pool_ok {} q" "tidy p q" "p_queue q = p_queue p"
    "\<forall>b. b \<noteq> a \<longrightarrow> map_of (p_pending q) b = map_of (p_pending p) b"
    "len_at (p_pending q) a = len_at (p_pending p) a - 1" "count_txs (p_pending q) = count_txs (p_pending p) - 1"
    "dom (map_of (p_pending q)) = dom (map_of (p_pending p))"
    using cap_one_ok [OF Cons.prems(1), of a env] Cons.prems(3) by auto
  have len: "len_at (p_pending q) b = len_at (p_pending p) b - (if b = a then 1 else 0)" for b
    using q(5,6) by (auto simp: len_at_def)
  have "distinct as" "\<forall>b\<in>set as. 0 < len_at (p_pending q) b" using Cons.prems(2,3) len by auto
  from Cons.IH [OF q(2) this] obtain p' where p': "cap_each env as q = Some p'" "pool_ok {} p'" "tidy q p'" "p_queue p' = p_queue q"
    "\<forall>b. len_at (p_pending p') b = len_at (p_pending q) b - (if b \<in> set as then 1 else 0)"
    "dom (map_of (p_pending p')) = dom (map_of (p_pending q))"
    "count_txs (p_pending p') = count_txs (p_pending q) - int (length as)" by metis
  then show ?case using q(1,4,7,8) len tidy_trans [OF q(3) p'(3)] Cons.prems(2) by auto
qed simp

text \<open>All offenders have the same number of transactions; a round takes one from each.\<close>

lemma shrink_loop_ok:
  assumes "pool_ok {} p" "as \<noteq> []" "distinct as" "\<forall>a\<in>set as. a \<in> dom (map_of (p_pending p)) \<and> len_at (p_pending p) a = c"
    "0 \<le> th" "pending = count_txs (p_pending p)"
  shows "\<exists>p' c'. shrink_loop env as th pending p = Some (count_txs (p_pending p'), p') \<and> pool_ok {} p' \<and> tidy p p'
    \<and> p_queue p' = p_queue p \<and> (\<forall>a\<in>set as. a \<in> dom (map_of (p_pending p')) \<and> len_at (p_pending p') a = c')
    \<and> (\<forall>b. b \<notin> set as \<longrightarrow> len_at (p_pending p') b = len_at (p_pending p) b) \<and> c' \<le> c
    \<and> dom (map_of (p_pending p')) = dom (map_of (p_pending p))
    \<and> (count_txs (p_pending p') \<le> uint (GlobalSlots (p_config p)) \<or> c' = min c th)"
  using assms
proof (induction "nat pending" arbitrary: p pending c rule: less_induct)
  case less
  note unfold = shrink_loop.simps [of env as th pending p]
  let ?gs = "uint (GlobalSlots (p_config p))"
  obtain l where l: "map_of (p_pending p) (last as) = Some l" "len_at (p_pending p) (last as) = c" "int (tl_Len l) = c"
    using less.prems(2,4) last_in_set [of as] by (force simp: len_at_def)
  show ?case
  proof (cases "pending \<le> ?gs \<or> c \<le> th")
    case True
    then show ?thesis using less.prems l unfolding unfold
      by (intro exI [of _ p] exI [of _ c]) (auto simp: min_def)
  next
    case False
    have "\<forall>a\<in>set as. 0 < len_at (p_pending p) a" using False less.prems(4,5) by auto
    from cap_each_ok [OF less.prems(1,3) this, of env] obtain q where q: "cap_each env as p = Some q" "pool_ok {} q" "tidy p q"
      "p_queue q = p_queue p" "\<forall>b. len_at (p_pending q) b = len_at (p_pending p) b - (if b \<in> set as then 1 else 0)"
      "count_txs (p_pending q) = pending - int (length as)" "dom (map_of (p_pending q)) = dom (map_of (p_pending p))"
      using less.prems(6) by metis
    have A: "\<forall>a\<in>set as. a \<in> dom (map_of (p_pending q)) \<and> len_at (p_pending q) a = c - 1" using q(5,7) less.prems(4) by auto
    have "0 < pending" using False uint_ge_0 [of "GlobalSlots (p_config p)"] by linarith
    then have B: "nat (count_txs (p_pending q)) < nat pending" using q(6) less.prems(2) by (cases as) auto
    obtain p' c' where p': "shrink_loop env as th (count_txs (p_pending q)) q = Some (count_txs (p_pending p'), p')"
      "pool_ok {} p'" "tidy q p'" "p_queue p' = p_queue q" "\<forall>a\<in>set as. a \<in> dom (map_of (p_pending p')) \<and> len_at (p_pending p') a = c'"
      "\<forall>b. b \<notin> set as \<longrightarrow> len_at (p_pending p') b = len_at (p_pending q) b" "c' \<le> c - 1" "dom (map_of (p_pending p')) = dom (map_of (p_pending q))"
      "count_txs (p_pending p') \<le> uint (GlobalSlots (p_config q)) \<or> c' = min (c - 1) th"
      using less.hyps [OF B q(2) less.prems(2,3) A less.prems(5) refl] by (elim exE conjE) (rule that)
    have "shrink_loop env as th pending p = Some (count_txs (p_pending p'), p')"
      using False less.prems(2) l q(1,6) p'(1) unfolding unfold by simp
    moreover have "min (c - 1) th = min c th" using False by (simp add: min_def)
    ultimately show ?thesis using p' q(4,5,7) tidy_trans [OF q(3) p'(3)] tidyD [OF q(3)]
      by (intro exI [of _ p'] exI [of _ c']) simp
  qed
qed

lemma spam_loop_ok:
  assumes "pool_ok {} p" "distinct (offenders @ spammers)" "set (offenders @ spammers) \<subseteq> dom (map_of (p_pending p))"
    "sorted_wrt (\<lambda>a b. len_at (p_pending p) b \<le> len_at (p_pending p) a) spammers"
    "count_txs (p_pending p) > uint (GlobalSlots (p_config p)) \<longrightarrow>
       (\<forall>a\<in>set offenders. len_at (p_pending p) a = c \<and> (\<forall>b\<in>set spammers. len_at (p_pending p) b \<le> c))"
  shows "\<exists>offs p'. spam_loop env spammers offenders (count_txs (p_pending p)) p = Some (offs, count_txs (p_pending p'), p')
    \<and> pool_ok {} p' \<and> tidy p p' \<and> p_queue p' = p_queue p \<and> dom (map_of (p_pending p')) = dom (map_of (p_pending p))
    \<and> (\<forall>b. b \<notin> set (offenders @ spammers) \<longrightarrow> len_at (p_pending p') b = len_at (p_pending p) b)
    \<and> (count_txs (p_pending p') > uint (GlobalSlots (p_config p)) \<longrightarrow>
        offs = offenders @ spammers \<and> (\<exists>c'. \<forall>a\<in>set offs. len_at (p_pending p') a = c'))"
  using assms
proof (induction spammers arbitrary: offenders p c)
  case Nil
  then show ?case by (intro exI [of _ offenders] exI [of _ p]) auto
next
  case (Cons o1 spammers)
  let ?gs = "uint (GlobalSlots (p_config p))"
  show ?case
  proof (cases "count_txs (p_pending p) \<le> ?gs")
    case True
    then show ?thesis using Cons.prems(1) by (intro exI [of _ offenders] exI [of _ p]) auto
  next
    case big: False
    note eq = Cons.prems(5) [THEN mp, OF big [unfolded not_le]]
    show ?thesis
    proof (cases "offenders = []")
      case True
      have s: "distinct ([o1] @ spammers)" "set ([o1] @ spammers) \<subseteq> dom (map_of (p_pending p))"
        "sorted_wrt (\<lambda>a b. len_at (p_pending p) b \<le> len_at (p_pending p) a) spammers"
        using Cons.prems(2-4) True by auto
      have "\<forall>a\<in>set [o1]. len_at (p_pending p) a = len_at (p_pending p) o1 \<and> (\<forall>b\<in>set spammers. len_at (p_pending p) b \<le> len_at (p_pending p) o1)"
        using Cons.prems(4) by simp
      note IH = Cons.IH [OF Cons.prems(1) s impI [OF this]]
      have e: "spam_loop env (o1 # spammers) [] (count_txs (p_pending p)) p = spam_loop env spammers [o1] (count_txs (p_pending p)) p"
        using big by simp
      show ?thesis using IH unfolding True e by (simp only: append.simps)
    next
      case False
      obtain l where l: "map_of (p_pending p) o1 = Some l" "len_at (p_pending p) o1 = int (tl_Len l)"
        using Cons.prems(3) by (auto simp: len_at_def)
      have pre: "\<forall>a\<in>set offenders. a \<in> dom (map_of (p_pending p)) \<and> len_at (p_pending p) a = c" "len_at (p_pending p) o1 \<le> c"
        using eq Cons.prems(3) False by (auto simp: neq_Nil_conv)
      have "distinct offenders" using Cons.prems(2) by simp
      from shrink_loop_ok [OF Cons.prems(1) False this pre(1) len_at_nonneg [of "p_pending p" o1] refl, of env]
      obtain q c' where q: "shrink_loop env offenders (len_at (p_pending p) o1) (count_txs (p_pending p)) p = Some (count_txs (p_pending q), q)"
        "pool_ok {} q" "tidy p q" "p_queue q = p_queue p" "\<forall>a\<in>set offenders. a \<in> dom (map_of (p_pending q)) \<and> len_at (p_pending q) a = c'"
        "\<forall>b. b \<notin> set offenders \<longrightarrow> len_at (p_pending q) b = len_at (p_pending p) b"
        "dom (map_of (p_pending q)) = dom (map_of (p_pending p))" "count_txs (p_pending q) \<le> ?gs \<or> c' = len_at (p_pending p) o1"
        unfolding min_absorb2 [OF pre(2)] by (elim exE conjE) (rule that)
      have gs: "GlobalSlots (p_config q) = GlobalSlots (p_config p)" using tidyD [OF q(3)] by simp
      have d: "distinct ((offenders @ [o1]) @ spammers)" "set ((offenders @ [o1]) @ spammers) \<subseteq> dom (map_of (p_pending q))"
        using Cons.prems(2,3) q(7) by auto
      have same: "len_at (p_pending q) b = len_at (p_pending p) b" if "b \<in> set (o1 # spammers)" for b
        using that Cons.prems(2) q(6) by auto
      have srt: "sorted_wrt (\<lambda>a b. len_at (p_pending q) b \<le> len_at (p_pending q) a) spammers"
        using Cons.prems(4) same by (auto intro: sorted_wrt_mono_rel [rotated])
      have e: "count_txs (p_pending q) > uint (GlobalSlots (p_config q)) \<longrightarrow>
          (\<forall>a\<in>set (offenders @ [o1]). len_at (p_pending q) a = len_at (p_pending p) o1 \<and> (\<forall>b\<in>set spammers. len_at (p_pending q) b \<le> len_at (p_pending p) o1))"
        using q(5,8) same Cons.prems(4) gs by auto
      from Cons.IH [OF q(2) d srt e] obtain offs p' where p':
        "spam_loop env spammers (offenders @ [o1]) (count_txs (p_pending q)) q = Some (offs, count_txs (p_pending p'), p')"
        "pool_ok {} p'" "tidy q p'" "p_queue p' = p_queue q" "dom (map_of (p_pending p')) = dom (map_of (p_pending q))"
        "\<forall>b. b \<notin> set ((offenders @ [o1]) @ spammers) \<longrightarrow> len_at (p_pending p') b = len_at (p_pending q) b"
        "count_txs (p_pending p') > uint (GlobalSlots (p_config q)) \<longrightarrow>
          offs = (offenders @ [o1]) @ spammers \<and> (\<exists>c'. \<forall>a\<in>set offs. len_at (p_pending p') a = c')" by metis
      have "spam_loop env (o1 # spammers) offenders (count_txs (p_pending p)) p = Some (offs, count_txs (p_pending p'), p')"
        using big False l q(1) p'(1) by simp
      then show ?thesis using p' q(4,6,7) tidy_trans [OF q(3) p'(3)] gs by (intro exI [of _ offs] exI [of _ p']) auto
    qed
  qed
qed

lemma go_float_exact:
  assumes "0 \<le> n" "n < 2 ^ precision"
  shows "go_float precision n = n"
proof -
  have "bitlen n \<le> int precision" using assms by (simp add: bitlen_le_iff_power)
  then show ?thesis by (simp add: go_float_def)
qed

lemma prque_lawD:
  assumes "pool_laws env" "distinct (map fst xs)"
  shows "mset (pe_prque env xs) = mset (map fst xs)"
    "sorted_wrt (\<lambda>a b. \<forall>x y. (a, x) \<in> set xs \<and> (b, y) \<in> set xs \<longrightarrow> y \<le> x) (pe_prque env xs)"
  using assms unfolding pool_laws_def prque_law_def by blast+

lemma limit_pending_ok:
  assumes "pool_ok {} p" "pool_laws env" "length (p_all p) < 2 ^ 24"
  shows "\<exists>p'. limit_pending env p = Some p' \<and> pool_ok {} p' \<and> tidy p p' \<and> p_queue p' = p_queue p
    \<and> (count_txs (p_pending p') \<le> uint (GlobalSlots (p_config p))
       \<or> (\<forall>a. \<not> as_contains (p_locals p) a \<longrightarrow> len_at (p_pending p') a \<le> uint (AccountSlots (p_config p))))"
proof (cases "count_txs (p_pending p) \<le> uint (GlobalSlots (p_config p))")
  case True
  then show ?thesis using assms(1) by (simp add: limit_pending_def)
next
  case False
  let ?gs = "uint (GlobalSlots (p_config p))" and ?as = "uint (AccountSlots (p_config p))" and ?len = "len_at (p_pending p)"
  define rollers where "rollers = filter (\<lambda>a. \<not> as_contains (p_locals p) a \<and> ?len a > ?as) (pe_range env (map fst (p_pending p)))"
  let ?xs = "map (\<lambda>a. (a, go_float 24 (?len a))) rollers"
  define spammers where "spammers = pe_prque env ?xs"
  have fl: "go_float 24 (?len a) = ?len a" for a
    using len_known [OF assms(1), of a] assms(3) len_at_nonneg by (intro go_float_exact) auto
  have r: "distinct rollers" "set rollers = {a \<in> dom (map_of (p_pending p)). \<not> as_contains (p_locals p) a \<and> ?len a > ?as}"
    using range_lawD [OF assms(2), of "map fst (p_pending p)"] pool_go [OF assms(1)]
    by (auto simp: rollers_def dom_map_of_conv_image_fst)
  have "distinct (map fst ?xs)" using r(1) by (simp add: o_def)
  note law = prque_lawD [OF assms(2) this, folded spammers_def]
  have m: "mset spammers = mset rollers" using law(1) by (simp only: map_map o_def fst_conv map_ident)
  have s: "distinct spammers" "set spammers = set rollers" using r(1) mset_eq_imp_distinct_iff [OF m] mset_eq_setD [OF m] by auto
  have "sorted_wrt (\<lambda>a b. ?len b \<le> ?len a) spammers"
  proof (rule sorted_wrt_mono_rel [OF _ law(2)])
    fix a b assume "a \<in> set spammers" "b \<in> set spammers"
      "\<forall>x y. (a, x) \<in> set ?xs \<and> (b, y) \<in> set ?xs \<longrightarrow> y \<le> x"
    then show "?len b \<le> ?len a" using s(2) fl by force
  qed
  from spam_loop_ok [OF assms(1), of "[]" spammers 0 env] this s r(2) obtain offs q where
    q: "spam_loop env spammers [] (count_txs (p_pending p)) p = Some (offs, count_txs (p_pending q), q)" "pool_ok {} q" "tidy p q"
      "p_queue q = p_queue p" "dom (map_of (p_pending q)) = dom (map_of (p_pending p))"
      "\<forall>b. b \<notin> set spammers \<longrightarrow> len_at (p_pending q) b = ?len b"
      "count_txs (p_pending q) > ?gs \<longrightarrow> offs = spammers \<and> (\<exists>c. \<forall>a\<in>set offs. len_at (p_pending q) a = c)" by auto
  have cfg: "p_config q = p_config p" using tidyD [OF q(3)] by simp
  have rest: "len_at (p_pending q) a \<le> ?as" if "\<not> as_contains (p_locals p) a" "a \<notin> set spammers" for a
    using that q(6) s(2) r(2) len_at_cases(1) [of "p_pending p" a] uint_ge_0 [of "AccountSlots (p_config p)"] by force
  have run: "limit_pending env p = (if count_txs (p_pending q) > ?gs \<and> offs \<noteq> []
      then map_option snd (shrink_loop env offs ?as (count_txs (p_pending q)) q) else Some q)"
    using False q(1) cfg by (simp add: limit_pending_def Let_def rollers_def [symmetric] spammers_def [symmetric])
  show ?thesis
  proof (cases "count_txs (p_pending q) > ?gs \<and> offs \<noteq> []")
    case False
    then have "limit_pending env p = Some q" using run by argo
    moreover have "\<forall>a. \<not> as_contains (p_locals p) a \<longrightarrow> len_at (p_pending q) a \<le> ?as" if "\<not> count_txs (p_pending q) \<le> ?gs"
    proof -
      have "spammers = []" using that False q(7) by (metis not_le)
      then show ?thesis using rest by simp
    qed
    ultimately show ?thesis using q(2-4) by blast
  next
    case True
    then obtain c where c: "offs = spammers" "\<forall>a\<in>set offs. len_at (p_pending q) a = c" using q(7) by blast
    have A: "\<forall>a\<in>set offs. a \<in> dom (map_of (p_pending q)) \<and> len_at (p_pending q) a = c" using c s(2) r(2) q(5) by auto
    have B: "distinct offs" using s(1) c(1) by simp
    obtain p' c' where p': "shrink_loop env offs ?as (count_txs (p_pending q)) q = Some (count_txs (p_pending p'), p')" "pool_ok {} p'" "tidy q p'"
      "p_queue p' = p_queue q" "\<forall>a\<in>set offs. a \<in> dom (map_of (p_pending p')) \<and> len_at (p_pending p') a = c'"
      "\<forall>b. b \<notin> set offs \<longrightarrow> len_at (p_pending p') b = len_at (p_pending q) b"
      "count_txs (p_pending p') \<le> ?gs \<or> c' = min c ?as"
      using shrink_loop_ok [OF q(2) conjunct2 [OF True] B A uint_ge_0 [of "AccountSlots (p_config p)"] refl, of env]
      unfolding cfg by (elim exE conjE) (rule that)
    have "len_at (p_pending p') a \<le> ?as" if "\<not> count_txs (p_pending p') \<le> ?gs" "\<not> as_contains (p_locals p) a" for a
      using p'(5-7) rest [OF that(2)] that(1) c(1) by (cases "a \<in> set offs") auto
    moreover have "limit_pending env p = Some p'" using True run p'(1) by simp
    ultimately show ?thesis using p'(2,4) q(4) tidy_trans [OF q(3) p'(3)] by metis
  qed
qed

section \<open>Dropping queued transactions\<close>

definition txs_at :: "(address \<times> txList) list \<Rightarrow> address \<Rightarrow> tx list" where
  "txs_at m a = (case map_of m a of None \<Rightarrow> [] | Some l \<Rightarrow> tl_abs l)"

lemma len_txs_at: "len_at m a = int (length (txs_at m a))"
  by (simp add: len_at_def txs_at_def tl_Len_length split: option.splits)

lemma remove_queued_effect:
  assumes "map_of (p_queue q) a = Some l" "tl_inv l" "\<not> tl_strict l"
    "\<forall>u\<in>set (tl_abs l). tx_nonce u = tx_nonce t \<longrightarrow> u = t"
  shows "\<exists>p'. remove_queued a t q = Some p' \<and> p_pending p' = p_pending q
    \<and> (\<forall>b. b \<noteq> a \<longrightarrow> map_of (p_queue p') b = map_of (p_queue q) b)
    \<and> txs_at (p_queue p') a = filter (\<lambda>u. u \<noteq> t) (tl_abs l)"
proof -
  obtain l' where l': "tl_Remove l t = Some (l', tl_Overlaps l t, [])" "tl_abs l' = filter (\<lambda>u. tx_nonce u \<noteq> tx_nonce t) (tl_abs l)"
    using tl_Remove_gapped [of l t] assms(2,3) by blast
  have "filter (\<lambda>u. tx_nonce u \<noteq> tx_nonce t) (tl_abs l) = filter (\<lambda>u. u \<noteq> t) (tl_abs l)"
    using assms(4) by (intro filter_cong) auto
  then show ?thesis using assms(1) l' by (simp add: remove_queued_def alist_simps txs_at_def tl_Empty_abs)
qed

text \<open>Removing a queued transaction takes nothing else out of the queue and leaves the pending
  lists alone.\<close>

lemma removeTx_queued:
  assumes "pool_ok {} p" "map_of (p_queue p) a = Some l" "t \<in> set (tl_abs l)"
  shows "\<exists>p'. removeTx env (tx_hash t) p = Some p' \<and> pool_ok {} p' \<and> tidy p p'
    \<and> (\<forall>b. b \<noteq> a \<longrightarrow> map_of (p_queue p') b = map_of (p_queue p) b)
    \<and> txs_at (p_queue p') a = filter (\<lambda>u. u \<noteq> t) (tl_abs l)
    \<and> (\<forall>b. txs_at (p_pending p') b = txs_at (p_pending p) b)"
proof -
  note l = pool_ok_lists(2) [OF assms(1,2)]
  have t: "t \<in> held (p_queue p)" "tx_sender t = Some a" "sender t = a" using assms(2,3) l by (auto intro: heldI sender_Some)
  have k: "map_of (p_all p) (tx_hash t) = Some t" and slots: "one_per_slot (held (p_pending p) \<union> held (p_queue p) \<union> {})"
    and dis: "held (p_pending p) \<inter> held (p_queue p) = {}"
    using assms(1) t(1) unfolding pool_ok_def book_def by auto
  have one: "\<forall>u\<in>set (tl_abs l). tx_nonce u = tx_nonce t \<longrightarrow> u = t" using tl_abs_slots [of l] l assms(3) by blast
  let ?q = "forget (tx_hash t) p"
  have run: "\<exists>q. removeTx env (tx_hash t) p = remove_queued a t q \<and> p_queue q = p_queue p \<and> (\<forall>b. txs_at (p_pending q) b = txs_at (p_pending p) b)"
  proof (cases "map_of (p_pending p) a")
    case None
    then show ?thesis using k t(3) by (auto simp: removeTx_def intro!: exI [of _ ?q])
  next
    case (Some pl)
    note pl = pool_ok_lists(1) [OF assms(1) Some]
    have free: "\<forall>u\<in>set (tl_abs pl). tx_nonce u \<noteq> tx_nonce t"
    proof (intro ballI notI)
      fix u assume u: "u \<in> set (tl_abs pl)" "tx_nonce u = tx_nonce t"
      then have "u \<in> held (p_pending p)" using Some by (auto intro: heldI)
      then show False using slot_eq [OF slots, of u t] t pl u dis by auto
    qed
    then have no: "\<not> tl_Overlaps pl t" using overlaps_iff pl by blast
    obtain pl' where pl': "tl_Remove pl t = Some (pl', False, [])" "tl_abs pl' = tl_abs pl"
      using tl_Remove_gapped [of pl t] no pl free by (auto simp: filter_id_conv)
    then show ?thesis using k t(3) Some no
      by (auto simp: removeTx_def txs_at_def alist_simps intro!: exI [of _ "?q\<lparr>p_pending := AList.update a pl' (p_pending p)\<rparr>"])
  qed
  then obtain q where q: "removeTx env (tx_hash t) p = remove_queued a t q" "p_queue q = p_queue p"
    "\<forall>b. txs_at (p_pending q) b = txs_at (p_pending p) b" by blast
  from remove_queued_effect [of q a l t] q(2) assms(2) l one obtain p' where p': "remove_queued a t q = Some p'"
    "p_pending p' = p_pending q" "\<forall>b. b \<noteq> a \<longrightarrow> map_of (p_queue p') b = map_of (p_queue p) b"
    "txs_at (p_queue p') a = filter (\<lambda>u. u \<noteq> t) (tl_abs l)" by auto
  show ?thesis using removeTx_ok [OF assms(1), of env "tx_hash t"] q p' by auto
qed

lemma remove_all_queued:
  assumes "pool_ok {} p" "distinct ts" "set ts \<subseteq> set (txs_at (p_queue p) a)"
  shows "\<exists>p'. remove_all env ts p = Some p' \<and> pool_ok {} p' \<and> tidy p p'
    \<and> (\<forall>b. b \<noteq> a \<longrightarrow> map_of (p_queue p') b = map_of (p_queue p) b)
    \<and> txs_at (p_queue p') a = filter (\<lambda>u. u \<notin> set ts) (txs_at (p_queue p) a)
    \<and> (\<forall>b. txs_at (p_pending p') b = txs_at (p_pending p) b)"
  using assms
proof (induction ts arbitrary: p)
  case (Cons t ts)
  have "t \<in> set (txs_at (p_queue p) a)" using Cons.prems(3) by simp
  then obtain l where l: "map_of (p_queue p) a = Some l" "txs_at (p_queue p) a = tl_abs l" "t \<in> set (tl_abs l)"
    by (cases "map_of (p_queue p) a") (auto simp: txs_at_def)
  obtain q where q: "removeTx env (tx_hash t) p = Some q" "pool_ok {} q" "tidy p q"
    "\<forall>b. b \<noteq> a \<longrightarrow> map_of (p_queue q) b = map_of (p_queue p) b" "txs_at (p_queue q) a = filter (\<lambda>u. u \<noteq> t) (tl_abs l)"
    "\<forall>b. txs_at (p_pending q) b = txs_at (p_pending p) b"
    using removeTx_queued [OF Cons.prems(1) l(1,3), of env] by (elim exE conjE) (rule that)
  have "distinct ts" "set ts \<subseteq> set (txs_at (p_queue q) a)" using Cons.prems(2,3) l(2) q(5) by auto
  from Cons.IH [OF q(2) this] obtain p' where p': "remove_all env ts q = Some p'" "pool_ok {} p'" "tidy q p'"
    "\<forall>b. b \<noteq> a \<longrightarrow> map_of (p_queue p') b = map_of (p_queue q) b"
    "txs_at (p_queue p') a = filter (\<lambda>u. u \<notin> set ts) (txs_at (p_queue q) a)"
    "\<forall>b. txs_at (p_pending p') b = txs_at (p_pending q) b" by blast
  have "filter (\<lambda>u. u \<notin> set ts) (filter (\<lambda>u. u \<noteq> t) (tl_abs l)) = filter (\<lambda>u. u \<notin> set (t # ts)) (tl_abs l)" by (auto intro: filter_cong)
  then show ?case using q(1,4,5,6) p' l(2) tidy_trans [OF q(3) p'(3)] by auto
qed simp

text \<open>The loop drops as many transactions as it is asked to, or empties every account it may touch.\<close>

lemma length_filter_out:
  assumes "distinct xs" "distinct ts" "set ts \<subseteq> set xs"
  shows "length (filter (\<lambda>u. u \<notin> set ts) xs) = length xs - length ts"
proof -
  have "length (filter (\<lambda>u. u \<notin> set ts) xs) = card (set xs - set ts)"
    using distinct_card [of "filter (\<lambda>u. u \<notin> set ts) xs"] assms(1) by (simp add: set_diff_eq)
  then show ?thesis using assms by (simp add: card_Diff_subset distinct_card)
qed

lemma drop_queue_ok:
  assumes "pool_ok {} p" "distinct as" "set as \<subseteq> dom (map_of (p_queue p))"
  shows "\<exists>p'. drop_queue env as over p = Some p' \<and> pool_ok {} p' \<and> tidy p p'
    \<and> (\<forall>b. txs_at (p_pending p') b = txs_at (p_pending p) b)
    \<and> (\<forall>b. b \<notin> set as \<longrightarrow> map_of (p_queue p') b = map_of (p_queue p) b)
    \<and> (count_txs (p_queue p') \<le> count_txs (p_queue p) - over \<or> (\<forall>a\<in>set as. txs_at (p_queue p') a = []))"
  using assms
proof (induction as arbitrary: p over)
  case (Cons a as)
  show ?case
  proof (cases "over \<le> 0")
    case True
    then show ?thesis using Cons.prems(1) by auto
  next
    case False
    obtain l where l: "map_of (p_queue p) a = Some l" using Cons.prems(3) by auto
    note lo = pool_ok_lists(2) [OF Cons.prems(1) l] and d = tl_abs_distinct [of l]
    let ?l = "fst (tl_Flatten l)"
    have f: "snd (tl_Flatten l) = tl_abs l" "tl_inv ?l" "tl_abs ?l = tl_abs l" "tl_strict ?l = tl_strict l"
      using tl_Flatten_correct [of l] lo by (auto simp: tl_Flatten_def split: prod.splits)
    let ?q = "p\<lparr>p_queue := AList.update a ?l (p_queue p)\<rparr>"
    have q: "pool_ok {} ?q" "txs_at (p_queue ?q) a = tl_abs l"
      using queue_take [OF Cons.prems(1) l f(2)] f(3,4) lo by (simp_all add: txs_at_def alist_simps)
    define ts where "ts = (if int (tl_Len l) \<le> over then tl_abs l else take (nat over) (rev (tl_abs l)))"
    have dts: "distinct ts" "set ts \<subseteq> set (txs_at (p_queue ?q) a)"
      using d lo q(2) by (auto simp: ts_def dest: in_set_takeD)
    from remove_all_queued [OF q(1) dts, of env] obtain r where r: "remove_all env ts ?q = Some r" "pool_ok {} r" "tidy ?q r"
      "\<forall>b. b \<noteq> a \<longrightarrow> map_of (p_queue r) b = map_of (p_queue ?q) b" "txs_at (p_queue r) a = filter (\<lambda>u. u \<notin> set ts) (tl_abs l)"
      "\<forall>b. txs_at (p_pending r) b = txs_at (p_pending ?q) b" unfolding q(2) by (elim exE conjE) (rule that)
    have oth: "\<forall>b. b \<noteq> a \<longrightarrow> map_of (p_queue r) b = map_of (p_queue p) b" using r(4) by (simp add: alist_simps)
    have cnt: "count_txs (p_queue r) = count_txs (p_queue p) - int (tl_Len l) + int (length (txs_at (p_queue r) a))"
      using count_change [OF _ _ oth] pool_go [OF Cons.prems(1)] pool_go [OF r(2)] l
      by (simp add: len_txs_at) (simp add: txs_at_def tl_Len_length)
    have t: "tidy p r" using r(3) by simp
    show ?thesis
    proof (cases "int (tl_Len l) \<le> over")
      case True
      have as: "distinct as" "a \<notin> set as" using Cons.prems(2) by auto
      have "b \<in> dom (map_of (p_queue r))" if "b \<in> set as" for b
        using Cons.prems(3) oth as(2) that by (metis domIff insert_iff list.simps(15) subsetD)
      then have "set as \<subseteq> dom (map_of (p_queue r))" by blast
      from Cons.IH [OF r(2) as(1) this, of "over - int (tl_Len l)"] obtain p' where
        p': "drop_queue env as (over - int (tl_Len l)) r = Some p'" "pool_ok {} p'" "tidy r p'"
        "\<forall>b. txs_at (p_pending p') b = txs_at (p_pending r) b" "\<forall>b. b \<notin> set as \<longrightarrow> map_of (p_queue p') b = map_of (p_queue r) b"
        "count_txs (p_queue p') \<le> count_txs (p_queue r) - (over - int (tl_Len l)) \<or> (\<forall>a\<in>set as. txs_at (p_queue p') a = [])"
        by (elim exE conjE) (rule that)
      have e: "txs_at (p_queue r) a = []" using r(5) True by (simp add: ts_def)
      then have "txs_at (p_queue p') a = []" using p'(5) as(2) by (simp add: txs_at_def)
      moreover have "drop_queue env (a # as) over p = Some p'"
        using False l True f(1) r(1) p'(1) by (simp add: ts_def split_beta)
      moreover have "\<forall>b. txs_at (p_pending p') b = txs_at (p_pending p) b" using p'(4) r(6) by simp
      moreover have "\<forall>b. b \<notin> set (a # as) \<longrightarrow> map_of (p_queue p') b = map_of (p_queue p) b" using p'(5) oth by simp
      moreover have "count_txs (p_queue p') \<le> count_txs (p_queue p) - over \<or> (\<forall>b\<in>set (a # as). txs_at (p_queue p') b = [])"
        using p'(6) cnt e calculation(1) by auto
      ultimately show ?thesis using p'(2) tidy_trans [OF t p'(3)] by metis
    next
      case big: False
      have "nat over \<le> length (tl_abs l)" using big False unfolding tl_Len_length by linarith
      then have "length ts = nat over" using big by (simp add: ts_def)
      then have "int (length (txs_at (p_queue r) a)) = int (tl_Len l) - over"
        using length_filter_out [of "tl_abs l" ts] d lo dts q(2) big False unfolding r(5) by (simp add: tl_Len_length of_nat_diff)
      moreover have "drop_queue env (a # as) over p = Some r"
        using False l big f(1) r(1) by (simp add: ts_def split_beta)
      moreover have "\<forall>b. txs_at (p_pending r) b = txs_at (p_pending p) b" using r(6) by simp
      moreover have "\<forall>b. b \<notin> set (a # as) \<longrightarrow> map_of (p_queue r) b = map_of (p_queue p) b" using oth by simp
      ultimately show ?thesis using r(2) t cnt by (intro exI [of _ r]) simp
    qed
  qed
qed auto

lemma limit_queue_ok:
  assumes "pool_ok {} p" "pool_laws env"
  shows "\<exists>p'. limit_queue env p = Some p' \<and> pool_ok {} p' \<and> tidy p p'
    \<and> (\<forall>b. txs_at (p_pending p') b = txs_at (p_pending p) b)
    \<and> (count_txs (p_queue p') \<le> uint (GlobalQueue (p_config p))
       \<or> (\<forall>a. \<not> as_contains (p_locals p) a \<longrightarrow> txs_at (p_queue p') a = []))"
proof (cases "count_txs (p_queue p) \<le> uint (GlobalQueue (p_config p))")
  case True
  then show ?thesis using assms(1) by (simp add: limit_queue_def)
next
  case False
  let ?as = "rev (sort_key (beat p) (filter (\<lambda>a. \<not> as_contains (p_locals p) a) (pe_range env (map fst (p_queue p)))))"
  have r: "set (pe_range env (map fst (p_queue p))) = dom (map_of (p_queue p))" "distinct (pe_range env (map fst (p_queue p)))"
    using range_lawD [OF assms(2)] pool_go [OF assms(1)] by (auto simp: dom_map_of_conv_image_fst)
  have as: "distinct ?as" "set ?as \<subseteq> dom (map_of (p_queue p))" using r by auto
  obtain p' where p': "drop_queue env ?as (count_txs (p_queue p) - uint (GlobalQueue (p_config p))) p = Some p'" "pool_ok {} p'" "tidy p p'"
    "\<forall>b. txs_at (p_pending p') b = txs_at (p_pending p) b" "\<forall>b. b \<notin> set ?as \<longrightarrow> map_of (p_queue p') b = map_of (p_queue p) b"
    "count_txs (p_queue p') \<le> count_txs (p_queue p) - (count_txs (p_queue p) - uint (GlobalQueue (p_config p)))
      \<or> (\<forall>a\<in>set ?as. txs_at (p_queue p') a = [])"
    using drop_queue_ok [OF assms(1) as, of env "count_txs (p_queue p) - uint (GlobalQueue (p_config p))"]
    by (elim exE conjE) (rule that)
  have "txs_at (p_queue p') a = []" if "\<not> count_txs (p_queue p') \<le> uint (GlobalQueue (p_config p))" "\<not> as_contains (p_locals p) a" for a
  proof (cases "a \<in> set ?as")
    case True
    then show ?thesis using p'(6) that(1) by auto
  next
    case False
    then have "map_of (p_queue p) a = None" using that(2) r(1) by auto
    then show ?thesis using p'(5) False by (simp add: txs_at_def)
  qed
  then show ?thesis using p'(1-4) False by (auto simp: limit_queue_def Let_def)
qed

lemma promoteExecutables_ok:
  assumes "pool_ok {} p" "pool_laws env" "0 \<le> sint (AccountQueue (p_config p))" "length (p_all p) < 2 ^ 24"
  shows "\<exists>p'. promoteExecutables env accounts p = Some p' \<and> pool_ok {} p' \<and> tidy p p'
    \<and> (count_txs (p_pending p') \<le> uint (GlobalSlots (p_config p))
       \<or> (\<forall>a. \<not> as_contains (p_locals p) a \<longrightarrow> len_at (p_pending p') a \<le> uint (AccountSlots (p_config p))))
    \<and> (count_txs (p_queue p') \<le> uint (GlobalQueue (p_config p))
       \<or> (\<forall>a. \<not> as_contains (p_locals p) a \<longrightarrow> len_at (p_queue p') a = 0))"
proof -
  let ?as = "case accounts of None \<Rightarrow> pe_range env (map fst (p_queue p)) | Some as \<Rightarrow> as"
  obtain q where q: "promote_accounts env ?as p = Some q" "pool_ok {} q" "tidy p q"
    using promote_accounts_ok [OF assms(1,3)] by metis
  have "length (p_all q) \<le> length (p_all p)" by (rule tidy_length [OF assms(1) q(2,3)])
  then have small: "length (p_all q) < 2 ^ 24" using assms(4) by linarith
  obtain r where r: "limit_pending env q = Some r" "pool_ok {} r" "tidy q r"
    "count_txs (p_pending r) \<le> uint (GlobalSlots (p_config q))
       \<or> (\<forall>a. \<not> as_contains (p_locals q) a \<longrightarrow> len_at (p_pending r) a \<le> uint (AccountSlots (p_config q)))"
    using limit_pending_ok [OF q(2) assms(2) small] by (elim exE conjE) (rule that)
  obtain p' where p': "limit_queue env r = Some p'" "pool_ok {} p'" "tidy r p'"
    "\<forall>b. txs_at (p_pending p') b = txs_at (p_pending r) b"
    "count_txs (p_queue p') \<le> uint (GlobalQueue (p_config r))
       \<or> (\<forall>a. \<not> as_contains (p_locals r) a \<longrightarrow> txs_at (p_queue p') a = [])"
    using limit_queue_ok [OF r(2) assms(2)] by (elim exE conjE) (rule that)
  have same: "len_at (p_pending p') b = len_at (p_pending r) b" for b using p'(4) by (simp add: len_txs_at)
  have cnt: "count_txs (p_pending p') = count_txs (p_pending r)"
    using count_same [of "p_pending r" "p_pending p'"] pool_go [OF r(2)] pool_go [OF p'(2)] same by simp
  have run: "promoteExecutables env accounts p = Some p'" using q(1) r(1) p'(1) by (simp add: promoteExecutables_def)
  have t: "tidy p r" "tidy p p'" using tidy_trans [OF q(3) r(3)] tidy_trans [OF tidy_trans [OF q(3) r(3)] p'(3)] by auto
  show ?thesis using run p'(2,5) r(4) cnt same tidyD [OF q(3)] tidyD [OF t(1)] t(2) by (simp add: len_txs_at)
qed

end
