(* ===== verification/Tx_Pool_Safe.thy ===== *)
theory Tx_Pool_Safe
  imports Tx_Pool_Limits
begin

text \<open>
  The pool as a machine: every call keeps the books, whatever it finds, and on a pool of a size
  that \<open>float32\<close> counts exactly no call panics.
\<close>

section \<open>Limits without a bound on the size\<close>

lemma cap_one_inv:
  assumes "pool_ok {} p" "cap_one env a p = Some p'"
  shows "pool_ok {} p' \<and> tidy p p'"
proof (cases "0 < len_at (p_pending p) a")
  case True
  then show ?thesis using cap_one_ok [OF assms(1), of a env] assms(2) by auto
next
  case False
  then obtain l where "map_of (p_pending p) a = Some l" "tl_Len l = 0"
    using assms(2) by (auto simp: cap_one_def len_at_def split: Option.bind_splits)
  then have "cap_one env a p = None" by (simp add: cap_one_def tl_Cap_negative)
  then show ?thesis using assms(2) by simp
qed

lemma cap_each_inv: "pool_ok {} p \<Longrightarrow> cap_each env as p = Some p' \<Longrightarrow> pool_ok {} p' \<and> tidy p p'"
proof (induction as arbitrary: p)
  case (Cons a as)
  obtain q where q: "cap_one env a p = Some q" "cap_each env as q = Some p'"
    using Cons.prems(2) by (auto split: Option.bind_splits)
  note ok = cap_one_inv [OF Cons.prems(1) q(1)]
  show ?case using Cons.IH [OF _ q(2)] ok tidy_trans [of p q] by blast
qed simp

lemma shrink_loop_inv:
  "pool_ok {} p \<Longrightarrow> shrink_loop env as th pending p = Some (n, p') \<Longrightarrow> pool_ok {} p' \<and> tidy p p'"
proof (induction env as th pending p rule: shrink_loop.induct)
  case (1 env as th pending p)
  show ?case
  proof (cases "pending \<le> uint (GlobalSlots (p_config p))")
    case True
    then show ?thesis using 1 by (simp add: shrink_loop.simps [of env as th pending p])
  next
    case False
    then obtain l where l: "as \<noteq> []" "map_of (p_pending p) (last as) = Some l"
      using 1(3) by (auto simp: shrink_loop.simps [of env as th pending p] split: if_splits option.splits)
    show ?thesis
    proof (cases "int (tl_Len l) \<le> th")
      case True
      then show ?thesis using 1 False l by (simp add: shrink_loop.simps [of env as th pending p])
    next
      case big: False
      obtain q where q: "cap_each env as p = Some q" "shrink_loop env as th (pending - int (length as)) q = Some (n, p')"
        using 1(3) False l big by (auto simp: shrink_loop.simps [of env as th pending p] split: option.splits)
      note c = cap_each_inv [OF 1(2) q(1)]
      show ?thesis using 1(1) [OF False l big q(1) _ q(2)] c tidy_trans [of p q p'] by blast
    qed
  qed
qed

lemma spam_loop_inv:
  "pool_ok {} p \<Longrightarrow> spam_loop env ss offenders pending p = Some (offs, n, p') \<Longrightarrow> pool_ok {} p' \<and> tidy p p'"
proof (induction ss arbitrary: offenders pending p)
  case (Cons s ss)
  consider "pending \<le> uint (GlobalSlots (p_config p))" | "\<not> pending \<le> uint (GlobalSlots (p_config p))" "offenders = []"
    | "\<not> pending \<le> uint (GlobalSlots (p_config p))" "offenders \<noteq> []" by blast
  then show ?case
  proof cases
    case 3
    then obtain l k q where q: "shrink_loop env offenders (int (tl_Len l)) pending p = Some (k, q)"
      "spam_loop env ss (offenders @ [s]) k q = Some (offs, n, p')"
      using Cons.prems(2) by (auto split: Option.bind_splits)
    note c = shrink_loop_inv [OF Cons.prems(1) q(1)]
    show ?thesis using Cons.IH [OF _ q(2)] c tidy_trans [of p q p'] by blast
  qed (use Cons in auto)
qed simp

lemma limit_pending_inv:
  assumes "pool_ok {} p" "limit_pending env p = Some p'"
  shows "pool_ok {} p' \<and> tidy p p'"
proof (cases "count_txs (p_pending p) \<le> uint (GlobalSlots (p_config p))")
  case True
  then show ?thesis using assms by (simp add: limit_pending_def)
next
  case False
  then obtain ss offs n q where q: "spam_loop env ss [] (count_txs (p_pending p)) p = Some (offs, n, q)"
    "p' = q \<or> (\<exists>k. shrink_loop env offs (uint (AccountSlots (p_config q))) n q = Some (k, p'))"
    using assms(2) by (auto simp: limit_pending_def Let_def split: if_splits Option.bind_splits)
  note c = spam_loop_inv [OF assms(1) q(1)]
  then show ?thesis using q(2) shrink_loop_inv tidy_trans [of p q p'] by blast
qed

text \<open>What the configuration must satisfy: \<open>int(AccountQueue)\<close> is a slice bound.\<close>

definition config_safe :: "TxPoolConfig \<Rightarrow> bool" where
  "config_safe c \<longleftrightarrow> 0 \<le> sint (AccountQueue c)"

lemma promoteExecutables_inv:
  assumes "pool_ok {} p" "pool_laws env" "config_safe (p_config p)" "promoteExecutables env accounts p = Some p'"
  shows "pool_ok {} p' \<and> tidy p p'"
proof -
  let ?as = "case accounts of None \<Rightarrow> pe_range env (map fst (p_queue p)) | Some as \<Rightarrow> as"
  obtain q where q: "promote_accounts env ?as p = Some q" "pool_ok {} q" "tidy p q"
    using promote_accounts_ok [OF assms(1)] assms(3) unfolding config_safe_def by metis
  then obtain r where r: "limit_pending env q = Some r" "limit_queue env r = Some p'"
    using assms(4) by (auto simp: promoteExecutables_def split: Option.bind_splits)
  note rr = limit_pending_inv [OF q(2) r(1)]
  have "pool_ok {} p' \<and> tidy r p'" using limit_queue_ok [of r env] rr assms(2) r(2) by auto
  then show ?thesis using tidy_trans [OF q(3)] rr tidy_trans [of p r p'] by blast
qed

section \<open>Every call\<close>

lemma promote_pool_inv:
  assumes "pool_inv p" "pool_laws env" "config_safe (p_config p)" "promoteExecutables env accounts p = Some p'"
  shows "pool_inv p' \<and> p_config p' = p_config p"
  using promoteExecutables_inv [OF _ assms(2-4)] assms(1) pool_inv_tidy [OF assms(1)] tidyD [of p p']
  by (simp add: pool_inv_def)

lemma addTx_inv:
  assumes "pool_inv p" "pool_laws env" "config_safe (p_config p)" "addTx env t local p = Some (e, p')"
  shows "pool_inv p' \<and> p_config p' = p_config p"
proof (cases "tx_sender t")
  case None
  then show ?thesis using assms(1,4) by (simp add: addTx_def)
next
  case (Some a)
  obtain r q where q: "pool_add env t local p = Some (r, q)" "pool_inv q" "p_config q = p_config p"
    using pool_add_ok [OF assms(1)] by metis
  show ?thesis
  proof (cases "r = Inr False")
    case True
    then have "promoteExecutables env (Some [a]) q = Some p'"
      using assms(4) Some q(1) by (auto simp: addTx_def split: Option.bind_splits)
    from promote_pool_inv [OF q(2) assms(2) _ this] q(3) assms(3) show ?thesis by simp
  next
    case False
    then show ?thesis using assms(4) Some q by (auto simp: addTx_def split: sum.splits if_splits)
  qed
qed

lemma add_batch_ok:
  "pool_inv p \<Longrightarrow> \<exists>ds p'. add_batch env txs local dirty p = Some (ds, p') \<and> pool_inv p' \<and> p_config p' = p_config p"
proof (induction txs arbitrary: dirty p)
  case (Cons t txs)
  obtain r q where q: "pool_add env t local p = Some (r, q)" "pool_inv q" "p_config q = p_config p"
    using pool_add_ok [OF Cons.prems] by metis
  then show ?case using Cons.IH [OF q(2)] by auto
qed simp

lemma addTxsLocked_inv:
  assumes "pool_inv p" "pool_laws env" "config_safe (p_config p)" "addTxsLocked env txs local p = Some p'"
  shows "pool_inv p' \<and> p_config p' = p_config p"
proof -
  obtain ds q where q: "add_batch env txs local [] p = Some (ds, q)" "pool_inv q" "p_config q = p_config p"
    using add_batch_ok [OF assms(1)] by metis
  show ?thesis
  proof (cases "ds = []")
    case False
    then have "promoteExecutables env (Some (pe_range env ds)) q = Some p'" using assms(4) q(1) by (simp add: addTxsLocked_def)
    from promote_pool_inv [OF q(2) assms(2) _ this] q(3) assms(3) show ?thesis by simp
  qed (use assms(4) q in \<open>simp add: addTxsLocked_def\<close>)
qed

lemma SetGasPrice_ok:
  assumes "pool_inv p"
  shows "\<exists>p'. SetGasPrice env price p = Some p' \<and> pool_inv p' \<and> p_config p' = p_config p
    \<and> map_of (p_all p') = map_of (p_all p) |` (- tx_hash ` {t. t \<in># live_items (p_all p) (pl_items (p_priced p)) \<and> tx_gasPrice t < price \<and> remote (p_locals p) t})"
proof -
  have ok: "pool_ok {} p" "pl_ok (p_priced p)" and cov: "\<forall>h t. map_of (p_all p) h = Some t \<longrightarrow> t \<in> set (pl_items (p_priced p))"
    using assms by (auto simp: pool_inv_def priced_ok_def)
  let ?L = "live_items (p_all p) (pl_items (p_priced p))"
  obtain pr drops where c: "pl_Cap (p_all p) (p_priced p) price (p_locals p) = Some (pr, drops)" "pl_ok pr"
    "mset drops = filter_mset (\<lambda>t. tx_gasPrice t < price \<and> remote (p_locals p) t) ?L"
    "live_items (p_all p) (pl_items pr) = filter_mset (\<lambda>t. \<not> (tx_gasPrice t < price \<and> remote (p_locals p) t)) ?L"
    using pl_Cap_exact [OF ok(2)] by metis
  have "t \<in> set (pl_items pr) \<or> t \<in> set drops" if "map_of (p_all p) h = Some t" for h t
  proof -
    have t: "t \<in># ?L" using cov that live_known [OF ok(1) that] by (auto simp: live_items_def)
    show ?thesis
    proof (cases "tx_gasPrice t < price \<and> remote (p_locals p) t")
      case True
      then have "t \<in># mset drops" using t unfolding c(3) by simp
      then show ?thesis by simp
    next
      case False
      then have "t \<in># live_items (p_all p) (pl_items pr)" using t unfolding c(4) by simp
      then show ?thesis by (simp add: live_items_def)
    qed
  qed
  then have "\<forall>h t. map_of (p_all (p\<lparr>p_gasPrice := price\<rparr>)) h = Some t \<longrightarrow> t \<in> set (pl_items pr) \<or> t \<in> set drops" by simp
  from remove_dropped [OF _ c(2) this, of env] ok(1) obtain p' where p': "remove_all env drops (p\<lparr>p_gasPrice := price, p_priced := pr\<rparr>) = Some p'"
    "pool_inv p'" "core p' = core (p\<lparr>p_gasPrice := price\<rparr>)" "map_of (p_all p') = map_of (p_all p) |` (- tx_hash ` set drops)" by auto
  moreover have "set drops = {t. t \<in># ?L \<and> tx_gasPrice t < price \<and> remote (p_locals p) t}"
    using arg_cong [OF c(3), of set_mset] by auto
  ultimately show ?thesis using c(1) coreD [OF p'(3)] by (simp add: SetGasPrice_def)
qed

lemma flatten_remove:
  assumes "pool_ok {} p" "map_of (p_queue p) a = Some l"
  shows "\<exists>r. remove_all env (snd (tl_Flatten l)) (p\<lparr>p_queue := AList.update a (fst (tl_Flatten l)) (p_queue p)\<rparr>) = Some r
    \<and> pool_ok {} r \<and> tidy p r \<and> (\<forall>b. b \<noteq> a \<longrightarrow> map_of (p_queue r) b = map_of (p_queue p) b)"
proof -
  note l = pool_ok_lists(2) [OF assms]
  let ?l = "fst (tl_Flatten l)" and ?q = "p\<lparr>p_queue := AList.update a (fst (tl_Flatten l)) (p_queue p)\<rparr>"
  have f: "snd (tl_Flatten l) = tl_abs l" "tl_inv ?l" "tl_abs ?l = tl_abs l" "tl_strict ?l = tl_strict l"
    using tl_Flatten_correct [of l] l by (auto simp: tl_Flatten_def split: prod.splits)
  have q: "pool_ok {} ?q" "set (tl_abs l) \<subseteq> set (txs_at (p_queue ?q) a)" "distinct (tl_abs l)"
    using queue_take [OF assms f(2)] f(3,4) l tl_abs_distinct by (auto simp: txs_at_def alist_simps)
  from remove_all_queued [OF q(1,3,2), of env] show ?thesis unfolding f(1) by (auto simp: alist_simps)
qed

lemma evict_accounts_ok:
  assumes "pool_ok {} p" "distinct as" "set as \<subseteq> dom (map_of (p_queue p))"
  shows "\<exists>p'. evict_accounts env as p = Some p' \<and> pool_ok {} p' \<and> tidy p p'"
  using assms
proof (induction as arbitrary: p)
  case (Cons a as)
  let ?skip = "as_contains (p_locals p) a \<or> \<not> min (pe_now env - beat p a) (2 ^ 63 - 1) > Lifetime (p_config p)"
  show ?case
  proof (cases ?skip)
    case True
    then show ?thesis using Cons by auto
  next
    case False
    obtain l where l: "map_of (p_queue p) a = Some l" using Cons.prems(3) by auto
    obtain r where r: "remove_all env (snd (tl_Flatten l)) (p\<lparr>p_queue := AList.update a (fst (tl_Flatten l)) (p_queue p)\<rparr>) = Some r"
      "pool_ok {} r" "tidy p r" "\<forall>b. b \<noteq> a \<longrightarrow> map_of (p_queue r) b = map_of (p_queue p) b"
      using flatten_remove [OF Cons.prems(1) l, of env] by blast
    have "b \<in> dom (map_of (p_queue r))" if "b \<in> set as" for b
      using Cons.prems(2,3) r(4) that by (metis domIff distinct.simps(2) insert_iff list.simps(15) subsetD)
    then obtain p' where "evict_accounts env as r = Some p'" "pool_ok {} p'" "tidy r p'"
      using Cons.IH [OF r(2)] Cons.prems(2) by auto
    then show ?thesis using False l r(1) tidy_trans [OF r(3)] by (auto simp: split_beta)
  qed
qed simp

lemma on_evict_ok:
  assumes "pool_inv p" "pool_laws env"
  shows "\<exists>p'. on_evict env p = Some p' \<and> pool_inv p' \<and> p_config p' = p_config p"
proof -
  have ok: "pool_ok {} p" using assms(1) by (simp add: pool_inv_def)
  have r: "set (pe_range env (map fst (p_queue p))) \<subseteq> dom (map_of (p_queue p))" "distinct (pe_range env (map fst (p_queue p)))"
    using range_lawD [OF assms(2)] pool_go [OF ok] by (auto simp: dom_map_of_conv_image_fst)
  obtain p' where p': "on_evict env p = Some p'" "pool_ok {} p'" "tidy p p'"
    using evict_accounts_ok [OF ok r(2,1), of env] unfolding on_evict_def by blast
  then show ?thesis using pool_inv_tidy [OF assms(1)] tidyD [OF p'(3)] by simp
qed

lemma flatten_map_ok:
  assumes "lists_ok s m"
  shows "lists_ok s (fst (flatten_map m)) \<and> held (fst (flatten_map m)) = held m"
proof -
  have mo: "map_of (fst (flatten_map m)) = (\<lambda>a. map_option (\<lambda>l. fst (tl_Flatten l)) (map_of m a))"
    by (simp add: flatten_map_def map_of_map) (simp add: fun_eq_iff)
  have f: "tl_inv (fst (tl_Flatten l)) \<and> tl_abs (fst (tl_Flatten l)) = tl_abs l \<and> tl_strict (fst (tl_Flatten l)) = tl_strict l"
    if "tl_inv l" for l using tl_Flatten_correct [OF that] by (auto simp: tl_Flatten_def split: prod.splits)
  have "go_ok (fst (flatten_map m)) = go_ok m" by (simp add: flatten_map_def o_def split_beta)
  then have "lists_ok s (fst (flatten_map m))" using assms f unfolding lists_ok_def mo by auto
  moreover have "held (fst (flatten_map m)) = held m"
    using assms f unfolding held_def mo lists_ok_def by (auto; metis)
  ultimately show ?thesis by simp
qed

lemma content_inv:
  assumes "pool_inv p"
  shows "pool_inv (fst (Content p))" "pool_inv (fst (Pending p))"
proof -
  have "lists_ok True (p_pending p)" "lists_ok False (p_queue p)" using assms by (auto simp: pool_inv_def pool_ok_def book_def)
  note f = this [THEN flatten_map_ok]
  show "pool_inv (fst (Content p))" "pool_inv (fst (Pending p))"
    using assms f unfolding pool_inv_def Content_def Pending_def
    by (auto simp: pool_ok_def book_def priced_ok_def split_beta Let_def)
qed

section \<open>Following the chain\<close>

text \<open>\<open>GetBlock\<close> returns a block with the number asked for, and no block has the largest number.\<close>

definition blocks_law :: "(hash \<Rightarrow> u64 \<Rightarrow> block option) \<Rightarrow> bool" where
  "blocks_law GetBlock \<longleftrightarrow> (\<forall>h n b. GetBlock h n = Some b \<longrightarrow> NumberU64 b = n) \<and> (\<forall>h. GetBlock h (- 1) = None)"

text \<open>The blocks of a branch, from its head down to just above its root.\<close>

fun branch :: "(hash \<Rightarrow> u64 \<Rightarrow> block option) \<Rightarrow> block \<Rightarrow> block list \<Rightarrow> block \<Rightarrow> bool" where
  "branch GetBlock head [] base \<longleftrightarrow> head = base"
| "branch GetBlock head (b # bs) base \<longleftrightarrow> head = b
     \<and> (\<exists>b'. GetBlock (h_parentHash (b_header b)) (NumberU64 b - 1) = Some b' \<and> branch GetBlock b' bs base)"

lemma branch_append:
  "branch G a (xs @ ys) c \<longleftrightarrow> (\<exists>b. branch G a xs b \<and> branch G b ys c)"
  by (induction xs arbitrary: a) auto

lemma less_le_pred: "(m :: u64) < n \<Longrightarrow> m \<le> n - 1"
  using unat_minus_one [of n] by (cases "n = 0") (simp_all add: word_le_nat_alt word_less_nat_alt)

lemma walk_back_returns:
  assumes "blocks_law GetBlock"
  shows "\<exists>r. walk_back GetBlock target b txs = Some r
    \<and> (\<forall>base ts. r = Some (base, ts) \<longrightarrow> (\<exists>bs. branch GetBlock b bs base \<and> ts = txs @ concat (map b_txs bs)
          \<and> NumberU64 base = min (NumberU64 b) target))"
proof (induction "unat (NumberU64 b)" arbitrary: b txs rule: less_induct)
  case less
  show ?case
  proof (cases "NumberU64 b > target")
    case False
    then show ?thesis by (subst walk_back.simps) (auto intro!: exI [of _ "[]"] simp: min_def)
  next
    case True
    show ?thesis
    proof (cases "GetBlock (h_parentHash (b_header b)) (NumberU64 b - 1)")
      case None
      then show ?thesis using True by (subst walk_back.simps) simp
    next
      case (Some b')
      have n: "NumberU64 b' = NumberU64 b - 1" using assms Some unfolding blocks_law_def by blast
      have nz: "NumberU64 b \<noteq> 0" using True by auto
      then have "unat (NumberU64 b') < unat (NumberU64 b)" unfolding n by (simp add: unat_minus_one unat_gt_0)
      from less.hyps [OF this, of "txs @ b_txs b"] obtain r where r: "walk_back GetBlock target b' (txs @ b_txs b) = Some r"
        "\<forall>base ts. r = Some (base, ts) \<longrightarrow> (\<exists>bs. branch GetBlock b' bs base \<and> ts = (txs @ b_txs b) @ concat (map b_txs bs)
           \<and> NumberU64 base = min (NumberU64 b') target)" by blast
      have "min (NumberU64 b') target = min (NumberU64 b) target" unfolding n using True nz
        using less_le_pred [OF True] by (simp add: min_absorb2)
      then have "\<exists>bs. branch GetBlock b bs base \<and> ts = txs @ concat (map b_txs bs) \<and> NumberU64 base = min (NumberU64 b) target"
        if "r = Some (base, ts)" for base ts
        using r(2) that Some by (metis append.assoc branch.simps(2) concat.simps(2) list.simps(9))
      then show ?thesis using r(1) True Some by (subst walk_back.simps) simp
    qed
  qed
qed

lemma walk_both_returns:
  assumes "blocks_law GetBlock" "NumberU64 rem = NumberU64 add"
  shows "\<exists>r. walk_both GetBlock rem add discarded included = Some r
    \<and> (\<forall>d i. r = Some (d, i) \<longrightarrow> (\<exists>bs cs b c. branch GetBlock rem bs b \<and> branch GetBlock add cs c
          \<and> h_hash (b_header b) = h_hash (b_header c)
          \<and> d = discarded @ concat (map b_txs bs) \<and> i = included @ concat (map b_txs cs)))"
  using assms(2)
proof (induction "unat (NumberU64 rem)" arbitrary: rem add discarded included rule: less_induct)
  case less
  show ?case
  proof (cases "h_hash (b_header rem) = h_hash (b_header add)")
    case True
    then show ?thesis by (subst walk_both.simps) (auto intro!: exI [of _ "[]"])
  next
    case False
    show ?thesis
    proof (cases "GetBlock (h_parentHash (b_header rem)) (NumberU64 rem - 1) = None
        \<or> GetBlock (h_parentHash (b_header add)) (NumberU64 add - 1) = None")
      case True
      then show ?thesis using False by (subst walk_both.simps) (auto split: option.split)
    next
      case known: False
      then obtain rem' add' where n: "GetBlock (h_parentHash (b_header rem)) (NumberU64 rem - 1) = Some rem'"
        "GetBlock (h_parentHash (b_header add)) (NumberU64 add - 1) = Some add'" by auto
      have e: "NumberU64 rem' = NumberU64 rem - 1" "NumberU64 add' = NumberU64 add - 1"
        using assms(1) n unfolding blocks_law_def by blast+
      have "NumberU64 rem \<noteq> 0" using assms(1) n(1) unfolding blocks_law_def by auto
      then have "unat (NumberU64 rem') < unat (NumberU64 rem)" unfolding e by (simp add: unat_minus_one unat_gt_0)
      from less.hyps [OF this, of add' "discarded @ b_txs rem" "included @ b_txs add"] e less.prems obtain r where
        r: "walk_both GetBlock rem' add' (discarded @ b_txs rem) (included @ b_txs add) = Some r"
        "\<forall>d i. r = Some (d, i) \<longrightarrow> (\<exists>bs cs b c. branch GetBlock rem' bs b \<and> branch GetBlock add' cs c
          \<and> h_hash (b_header b) = h_hash (b_header c)
          \<and> d = (discarded @ b_txs rem) @ concat (map b_txs bs) \<and> i = (included @ b_txs add) @ concat (map b_txs cs))" by auto
      have "\<exists>bs cs b c. branch GetBlock rem bs b \<and> branch GetBlock add cs c \<and> h_hash (b_header b) = h_hash (b_header c)
          \<and> d = discarded @ concat (map b_txs bs) \<and> i = included @ concat (map b_txs cs)" if di: "r = Some (d, i)" for d i
      proof -
        obtain bs cs b c where bc: "branch GetBlock rem' bs b" "branch GetBlock add' cs c" "h_hash (b_header b) = h_hash (b_header c)"
          "d = (discarded @ b_txs rem) @ concat (map b_txs bs)" "i = (included @ b_txs add) @ concat (map b_txs cs)"
          using r(2) di by blast
        then show ?thesis using n by (intro exI [of _ "rem # bs"] exI [of _ "add # cs"] exI [of _ b] exI [of _ c]) simp
      qed
      then show ?thesis using r(1) False n by (subst walk_both.simps) simp
    qed
  qed
qed

lemma reorg_returns:
  assumes "blocks_law (pe_GetBlock env)" "pe_GetBlock env (h_hash old) (big_Uint64 (h_number old)) = Some ob"
    "pe_GetBlock env (h_hash new) (big_Uint64 (h_number new)) = Some nb"
  shows "\<exists>r. reorg_txs env old new = Some r
    \<and> (\<forall>ts. r = Some ts \<longrightarrow> ts = [] \<or> (\<exists>bs cs b c. branch (pe_GetBlock env) ob bs b \<and> branch (pe_GetBlock env) nb cs c
          \<and> h_hash (b_header b) = h_hash (b_header c)
          \<and> ts = pe_TxDifference env (concat (map b_txs bs)) (concat (map b_txs cs))))"
proof -
  let ?G = "pe_GetBlock env"
  obtain r1 where r1: "walk_back ?G (NumberU64 nb) ob [] = Some r1"
    "\<forall>b ts. r1 = Some (b, ts) \<longrightarrow> (\<exists>bs. branch ?G ob bs b \<and> ts = concat (map b_txs bs) \<and> NumberU64 b = min (NumberU64 ob) (NumberU64 nb))"
    using walk_back_returns [OF assms(1), of "NumberU64 nb" ob "[]"] by auto
  show ?thesis
  proof (cases "\<bar>go_float 53 (uint (big_Uint64 (h_number old))) - go_float 53 (uint (big_Uint64 (h_number new)))\<bar> > 64 \<or> r1 = None")
    case True
    then show ?thesis using r1(1) assms(2,3) by (auto simp: reorg_txs_def Let_def)
  next
    case near: False
    then obtain b ts where b: "r1 = Some (b, ts)" by auto
    from r1(2) this obtain bs where bs: "branch ?G ob bs b" "ts = concat (map b_txs bs)" "NumberU64 b = min (NumberU64 ob) (NumberU64 nb)" by blast
    obtain r2 where r2: "walk_back ?G (NumberU64 b) nb [] = Some r2"
      "\<forall>c us. r2 = Some (c, us) \<longrightarrow> (\<exists>cs. branch ?G nb cs c \<and> us = concat (map b_txs cs) \<and> NumberU64 c = min (NumberU64 nb) (NumberU64 b))"
      using walk_back_returns [OF assms(1), of "NumberU64 b" nb "[]"] by auto
    show ?thesis
    proof (cases r2)
      case None
      then show ?thesis using near r1(1) r2(1) b assms(2,3) by (auto simp: reorg_txs_def Let_def)
    next
      case (Some cu)
      obtain c us where c: "r2 = Some (c, us)" using Some by (cases cu) auto
      from r2(2) this obtain cs where cs: "branch ?G nb cs c" "us = concat (map b_txs cs)" "NumberU64 c = min (NumberU64 nb) (NumberU64 b)" by blast
      have "NumberU64 b = NumberU64 c" unfolding cs(3) bs(3) by (simp add: min_def)
      from walk_both_returns [OF assms(1) this, of ts us] obtain r3 where r3: "walk_both ?G b c ts us = Some r3"
        "\<forall>d i. r3 = Some (d, i) \<longrightarrow> (\<exists>bs' cs' b' c'. branch ?G b bs' b' \<and> branch ?G c cs' c'
           \<and> h_hash (b_header b') = h_hash (b_header c') \<and> d = ts @ concat (map b_txs bs') \<and> i = us @ concat (map b_txs cs'))" by blast
      have run: "reorg_txs env old new = Some (map_option (\<lambda>(d, i). pe_TxDifference env d i) r3)"
        using near r1(1) r2(1) b c r3(1) assms(2,3) by (cases r3) (auto simp: reorg_txs_def Let_def)
      have "\<exists>bs cs b c. branch ?G ob bs b \<and> branch ?G nb cs c \<and> h_hash (b_header b) = h_hash (b_header c)
          \<and> vs = pe_TxDifference env (concat (map b_txs bs)) (concat (map b_txs cs))" if vs: "map_option (\<lambda>(d, i). pe_TxDifference env d i) r3 = Some vs" for vs
      proof -
        obtain d i where di: "r3 = Some (d, i)" "vs = pe_TxDifference env d i" using vs by auto
        then obtain bs' cs' b' c' where e: "branch ?G b bs' b'" "branch ?G c cs' c'" "h_hash (b_header b') = h_hash (b_header c')"
          "d = ts @ concat (map b_txs bs')" "i = us @ concat (map b_txs cs')" using r3(2) by blast
        have "branch ?G ob (bs @ bs') b'" "branch ?G nb (cs @ cs') c'" using bs(1) cs(1) e(1,2) branch_append by blast+
        then show ?thesis using e(3-5) di(2) bs(2) cs(2)
          by (intro exI [of _ "bs @ bs'"] exI [of _ "cs @ cs'"] exI [of _ b'] exI [of _ c']) simp
      qed
      then show ?thesis using run by blast
    qed
  qed
qed

section \<open>Resets and the life of a pool\<close>

lemma reset_to_inv:
  assumes "pool_inv p" "pool_laws env" "config_safe (p_config p)" "reset_to env ts h p = Some p'"
  shows "pool_inv p' \<and> p_config p' = p_config p"
proof (cases "pe_StateAt env (h_root h) (h_number h)")
  case None
  then show ?thesis using assms(1,4) by (simp add: reset_to_def)
next
  case (Some st)
  let ?p = "p\<lparr>p_currentState := st, p_pendingState := pe_ManageState env st, p_currentMaxGas := h_gasLimit h\<rparr>"
  obtain q where q: "addTxsLocked env ts False ?p = Some q"
    using assms(4) Some by (auto simp: reset_to_def split: Option.bind_splits)
  from addTxsLocked_inv [OF _ assms(2) _ this] assms(1,3) have qi: "pool_inv q" "p_config q = p_config p" by simp_all
  obtain r where r: "demoteUnexecutables env q = Some r" "pool_ok {} r" "tidy q r" "\<forall>a l. map_of (p_pending r) a = Some l \<longrightarrow> tl_abs l \<noteq> []"
    using demoteUnexecutables_ok [OF _ assms(2)] qi(1) unfolding pool_inv_def by metis
  have "set (pe_range env (map fst (p_pending r))) \<subseteq> dom (map_of (p_pending r))"
    using range_lawD [OF assms(2)] by (auto simp: dom_map_of_conv_image_fst)
  then obtain u where u: "pending_nonces env (pe_range env (map fst (p_pending r))) r = Some u" "pool_ok {} u" "tidy r u"
    using pending_nonces_ok [OF r(2) _ r(4)] by metis
  note t = tidy_trans [OF r(3) u(3)]
  have "promoteExecutables env None u = Some p'" using assms(4) Some q r(1) u(1) by (simp add: reset_to_def)
  from promote_pool_inv [OF pool_inv_tidy [OF qi(1) u(2) t] assms(2) _ this] assms(3) qi(2) tidyD [OF t]
  show ?thesis by simp
qed

lemma pool_reset_inv:
  assumes "pool_inv p" "pool_laws env" "config_safe (p_config p)" "pool_reset env old h p = Some p'"
  shows "pool_inv p' \<and> p_config p' = p_config p"
  using assms(4) reset_to_inv [OF assms(1-3)] assms(1)
  by (auto simp: pool_reset_def split: option.splits if_splits Option.bind_splits)

lemma on_head_inv:
  assumes "pool_inv p" "pool_laws env" "config_safe (p_config p)" "on_head env head b p = Some p'"
  shows "pool_inv p' \<and> p_config p' = p_config p"
  using pool_reset_inv [OF _ assms(2) _ assms(4) [unfolded on_head_def]] assms(1,3) by (simp split: if_splits)

lemma rejournal_inv: "pool_inv (on_rejournal env p) = pool_inv p" "p_config (on_rejournal env p) = p_config p"
  by (simp_all add: on_rejournal_def split: option.split)

lemma load_inv:
  assumes "pool_laws env"
  shows "load_loop (\<lambda>tx p. map_option (\<lambda>(e, p). (e = None, p)) (AddLocal env tx p)) rs p = Some (e, p') \<Longrightarrow>
    pool_inv p \<Longrightarrow> config_safe (p_config p) \<Longrightarrow> pool_inv p' \<and> p_config p' = p_config p"
proof (induction rs arbitrary: p)
  case (Cons r rs)
  show ?case
  proof (cases r)
    case (Some t)
    then obtain e1 q where q: "AddLocal env t p = Some (e1, q)" using Cons.prems(1) by (auto split: option.splits)
    from addTx_inv [OF Cons.prems(2) assms Cons.prems(3) this [unfolded AddLocal_def]]
    have "pool_inv q" "p_config q = p_config p" by simp_all
    then show ?thesis using Cons.IH [of q] Cons.prems q Some by simp
  qed (use Cons.prems in simp)
qed simp

lemma NewTxPool_inv:
  assumes "pool_laws env" "config_safe config" "NewTxPool env config file = Some p"
  shows "pool_inv p \<and> config_safe (p_config p)"
proof -
  let ?c = "sanitize config" and ?h = "pe_CurrentHeader env"
  obtain st where st: "pe_StateAt env (h_root ?h) (h_number ?h) = Some st" using assms(3) by (auto simp: NewTxPool_def Let_def split: option.splits)
  let ?p = "\<lparr>p_config = ?c, p_gasPrice = uint (PriceLimit ?c), p_currentState = st,
     p_pendingState = pe_ManageState env st, p_currentMaxGas = h_gasLimit ?h,
     p_locals = [], p_journal = None, p_pending = [], p_queue = [], p_beats = [], p_all = [],
     p_priced = newTxPricedList, p_pangu = False, p_feed = []\<rparr>"
  have safe: "config_safe ?c" using assms(2) by (simp add: config_safe_def sanitize_def Let_def)
  have "pool_inv ?p"
    by (simp add: pl_new_ok pool_inv_def pool_ok_def book_def lists_ok_def held_def one_per_slot_def keyed_def priced_ok_def)
  moreover obtain q where q: "pool_reset env None ?h ?p = Some q" using assms(3) st
    by (auto simp: NewTxPool_def Let_def split: Option.bind_splits)
  ultimately have qi: "pool_inv q" "p_config q = ?c" using pool_reset_inv [OF _ assms(1) _ q] safe by simp_all
  show ?thesis
  proof (cases "\<not> NoLocals ?c \<and> Journal ?c")
    case False
    then have "p = q" using assms(3) st q by (auto simp: NewTxPool_def Let_def)
    then show ?thesis using qi safe by simp
  next
    case True
    let ?q = "q\<lparr>p_journal := Some (newTxJournal file)\<rparr>"
    obtain e r where r: "journal_load (pe_io env) (\<lambda>tx p. map_option (\<lambda>(e, p). (e = None, p)) (AddLocal env tx p)) (newTxJournal file) ?q = Some (e, r)"
      "p = on_rejournal env r" using assms(3) st q True by (auto simp: NewTxPool_def Let_def split: Option.bind_splits)
    have "pool_inv r \<and> p_config r = ?c"
      using r(1) load_inv [OF assms(1), of _ ?q] qi safe by (auto simp: journal_load_def split: option.splits if_splits)
    then show ?thesis using r(2) rejournal_inv safe by metis
  qed
qed

definition pool_start :: "('s, 'm) TxPool \<Rightarrow> bool" where
  "pool_start p \<longleftrightarrow> (\<exists>env config file. pool_laws env \<and> config_safe config \<and> NewTxPool env config file = Some p)"

interpretation pool_machine: invariant_machine pool_start "pool_step pool_laws" "\<lambda>p. pool_inv p \<and> config_safe (p_config p)"
proof
  show "pool_inv p \<and> config_safe (p_config p)" if "pool_start p" for p :: "('s, 'm) TxPool"
    using that NewTxPool_inv unfolding pool_start_def by blast
  show "pool_inv p' \<and> config_safe (p_config p')" if i: "pool_inv p \<and> config_safe (p_config p)" and st: "pool_step pool_laws p p'" for p p' :: "('s, 'm) TxPool"
    using st
  proof (cases rule: pool_step.cases)
    case (step_add env tx local e) then show ?thesis using addTx_inv i by metis
  next
    case (step_addTxs env txs local) then show ?thesis using addTxsLocked_inv i by metis
  next
    case (step_price env price) then show ?thesis using SetGasPrice_ok [of p env price] i by auto
  next
    case (step_head env head block) then show ?thesis using on_head_inv i by metis
  next
    case (step_evict env) then show ?thesis using on_evict_ok [of p env] i by auto
  next
    case (step_rejournal env) then show ?thesis using rejournal_inv i by metis
  qed (use i content_inv [of p] in \<open>simp_all add: Content_def Pending_def split_beta\<close>)
qed

section \<open>Every call returns on a pool of less than \<open>2 ^ 24\<close> transactions\<close>

text \<open>The halving loops of \<open>promoteExecutables\<close> divide by a count rounded to 24 bits; below that bound
  the count is exact.  A pool holds its limits and, of each added transaction, at most one more.\<close>

lemma update_le: "length (AList.update k v xs) \<le> Suc (length xs)"
  by (induction xs) auto

lemma delete_le: "length (AList.delete k xs) \<le> length xs"
  by (simp add: AList.delete_eq)

lemma forget_le: "length (p_all (forget h p)) \<le> length (p_all p)"
  by (simp add: forget_def Let_def delete_le)

lemma remember_le: "length (p_all (remember h t p)) \<le> Suc (length (p_all p))"
  by (simp add: remember_def update_le)

lemma replace_le: "length (p_all (remember h t (forget h' p))) \<le> Suc (length (p_all p))"
  using remember_le [of h t "forget h' p"] forget_le [of h' p] by linarith

lemma enqueueTx_le: "length (p_all (snd (enqueueTx h t p))) \<le> Suc (length (p_all p))"
  using remember_le [of h t] replace_le [of h t] by (force simp: enqueueTx_def Let_def split: prod.split option.split)

lemma journalTx_all [simp]: "p_all (journalTx env a t p) = p_all p"
  by (simp add: journalTx_def split: option.split)

lemma place_queued_le: "length (p_all (snd (place_queued env t local p))) \<le> Suc (length (p_all p))"
  using enqueueTx_le [of "tx_hash t" t p] by (auto simp: place_queued_def Let_def split: prod.split sum.split)

lemma place_tx_le: "length (p_all (snd (place_tx env t local p))) \<le> Suc (length (p_all p))"
  using place_queued_le [of env t local p] remember_le [of "tx_hash t" t] replace_le [of "tx_hash t" t]
  by (force simp: place_tx_def Let_def split: prod.split option.split)

lemma pool_add_le:
  assumes "pool_inv p" "pool_add env t local p = Some (r, q)"
  shows "length (p_all q) \<le> Suc (length (p_all p))"
proof -
  obtain e u where u: "make_room env t p = Some (e, u)" "pool_inv u" "core u = core p" "map_of (p_all u) \<subseteq>\<^sub>m map_of (p_all p)"
    using make_room_ok [OF assms(1)] by metis
  have "length (p_all u) \<le> length (p_all p)"
    using all_length [OF _ _ u(4), of "{}" "{}"] assms(1) u(2) by (simp add: pool_inv_def)
  then show ?thesis using assms(2) u(1) place_tx_le [of env t local u]
    by (auto simp: pool_add_def split: if_splits option.splits)
qed

lemma add_batch_le:
  "pool_inv p \<Longrightarrow> add_batch env txs local dirty p = Some (ds, q) \<Longrightarrow> length (p_all q) \<le> length (p_all p) + length txs"
proof (induction txs arbitrary: dirty p)
  case (Cons t txs)
  obtain r u where u: "pool_add env t local p = Some (r, u)" "pool_inv u" using pool_add_ok [OF Cons.prems(1)] by metis
  then show ?case using Cons.IH [OF u(2)] Cons.prems(2) pool_add_le [OF Cons.prems(1) u(1)] by force
qed simp

lemma promote_total:
  assumes "pool_inv p" "pool_laws env" "config_safe (p_config p)" "length (p_all p) < 2 ^ 24"
  shows "promoteExecutables env accounts p \<noteq> None"
  using promoteExecutables_ok [OF _ assms(2) _ assms(4)] assms(1,3) by (fastforce simp: pool_inv_def config_safe_def)

lemma addTx_total:
  assumes "pool_inv p" "pool_laws env" "config_safe (p_config p)" "length (p_all p) + 1 < 2 ^ 24"
  shows "addTx env t local p \<noteq> None"
proof -
  obtain r q where q: "pool_add env t local p = Some (r, q)" "pool_inv q" "p_config q = p_config p"
    using pool_add_ok [OF assms(1)] by metis
  have pr: "\<exists>q'. promoteExecutables env as q = Some q'" for as
    using promote_total [OF q(2) assms(2)] q(3) assms(3,4) pool_add_le [OF assms(1) q(1)] by simp
  show ?thesis
  proof (cases "tx_sender t")
    case (Some a)
    obtain q' where "promoteExecutables env (Some [a]) q = Some q'" using pr by blast
    then show ?thesis using q(1) Some by (simp add: addTx_def split: sum.split)
  qed (simp add: addTx_def)
qed

lemma addTxsLocked_total:
  assumes "pool_inv p" "pool_laws env" "config_safe (p_config p)" "length (p_all p) + length txs < 2 ^ 24"
  shows "addTxsLocked env txs local p \<noteq> None"
proof -
  obtain ds q where q: "add_batch env txs local [] p = Some (ds, q)" "pool_inv q" "p_config q = p_config p"
    using add_batch_ok [OF assms(1)] by metis
  have "promoteExecutables env as q \<noteq> None" for as
    using promote_total [OF q(2) assms(2)] q(3) assms(3,4) add_batch_le [OF assms(1) q(1)] by simp
  then show ?thesis using q(1) by (simp add: addTxsLocked_def)
qed

lemma addTxsLocked_le:
  assumes "pool_inv p" "pool_laws env" "config_safe (p_config p)" "addTxsLocked env txs local p = Some q"
  shows "length (p_all q) \<le> length (p_all p) + length txs"
proof -
  obtain ds u where u: "add_batch env txs local [] p = Some (ds, u)" "pool_inv u" "p_config u = p_config p"
    using add_batch_ok [OF assms(1)] by metis
  have "length (p_all q) \<le> length (p_all u)"
  proof (cases "ds = []")
    case False
    then have "promoteExecutables env (Some (pe_range env ds)) u = Some q" using assms(4) u(1) by (simp add: addTxsLocked_def)
    then show ?thesis
      using promoteExecutables_inv [OF _ assms(2)] tidy_length [of "{}" u "{}" q] u(2,3) assms(3) by (simp add: pool_inv_def)
  qed (use assms(4) u(1) in \<open>simp add: addTxsLocked_def\<close>)
  then show ?thesis using add_batch_le [OF assms(1) u(1)] by linarith
qed

lemma reset_to_total:
  assumes "pool_inv p" "pool_laws env" "config_safe (p_config p)" "length (p_all p) + length ts < 2 ^ 24"
  shows "reset_to env ts h p \<noteq> None"
proof (cases "pe_StateAt env (h_root h) (h_number h)")
  case (Some st)
  let ?p = "p\<lparr>p_currentState := st, p_pendingState := pe_ManageState env st, p_currentMaxGas := h_gasLimit h\<rparr>"
  have p: "pool_inv ?p" "config_safe (p_config ?p)" "length (p_all ?p) + length ts < 2 ^ 24" using assms by simp_all
  obtain q where q: "addTxsLocked env ts False ?p = Some q" using addTxsLocked_total [OF p(1) assms(2) p(2,3)] by blast
  note qi = addTxsLocked_inv [OF p(1) assms(2) p(2) q] and ql = addTxsLocked_le [OF p(1) assms(2) p(2) q]
  obtain r where r: "demoteUnexecutables env q = Some r" "pool_ok {} r" "tidy q r" "\<forall>a l. map_of (p_pending r) a = Some l \<longrightarrow> tl_abs l \<noteq> []"
    using demoteUnexecutables_ok [OF _ assms(2)] qi unfolding pool_inv_def by metis
  have "set (pe_range env (map fst (p_pending r))) \<subseteq> dom (map_of (p_pending r))"
    using range_lawD [OF assms(2)] by (auto simp: dom_map_of_conv_image_fst)
  then obtain u where u: "pending_nonces env (pe_range env (map fst (p_pending r))) r = Some u" "pool_ok {} u" "tidy r u"
    using pending_nonces_ok [OF r(2) _ r(4)] by metis
  note t = tidy_trans [OF r(3) u(3)]
  have "length (p_all u) < 2 ^ 24" using tidy_length [OF _ u(2) t, of "{}"] qi ql p(3) by (simp add: pool_inv_def)
  then have "promoteExecutables env None u \<noteq> None"
    using promote_total [of u env] pool_inv_tidy [OF _ u(2) t] qi assms(2,3) tidyD [OF t] by simp
  then show ?thesis using Some q r(1) u(1) by (simp add: reset_to_def)
qed (simp add: reset_to_def)

text \<open>The two heads are in the database, as they are when the chain announces a new head.\<close>

definition heads_known :: "('s, 'm) pool_env \<Rightarrow> header \<Rightarrow> header \<Rightarrow> bool" where
  "heads_known env old new \<longleftrightarrow>
     pe_GetBlock env (h_hash old) (big_Uint64 (h_number old)) \<noteq> None \<and> pe_GetBlock env (h_hash new) (big_Uint64 (h_number new)) \<noteq> None"

lemma on_head_total:
  assumes "pool_inv p" "pool_laws env" "config_safe (p_config p)" "blocks_law (pe_GetBlock env)" "heads_known env old new"
    "\<forall>ts. reorg_txs env old new = Some (Some ts) \<longrightarrow> length (p_all p) + length ts < 2 ^ 24" "length (p_all p) < 2 ^ 24"
  shows "on_head env old new p \<noteq> None"
proof -
  let ?p = "if pe_IsPangu env (h_number new) then p\<lparr>p_pangu := True\<rparr> else p"
  have p: "pool_inv ?p" "config_safe (p_config ?p)" "p_all ?p = p_all p" using assms(1,3) by simp_all
  obtain r where r: "reorg_txs env old new = Some r" using reorg_returns [OF assms(4)] assms(5) unfolding heads_known_def by blast
  then show ?thesis using reset_to_total [OF p(1) assms(2) p(2)] assms(6,7) p(3)
    by (auto simp: on_head_def pool_reset_def split: option.split)
qed

end
