(* ===== verification/Tx_Pool_Props.thy ===== *)
theory Tx_Pool_Props
  imports Tx_Pool_Safe
begin

text \<open>
  What the transaction pool promises its users: the properties of \<open>src/core/tx_pool.go\<close> and
  \<open>src/core/tx_journal.go\<close> on every pool that a sequence of calls can reach, each shown on a
  small pool that is evaluated.
\<close>

section \<open>A small pool\<close>

definition sample_io :: journal_io where
  "sample_io = \<lparr>jio_stat_open = True, jio_close = True, jio_create = True, jio_write = (\<lambda>t. ([Some t], True)),
     jio_rename = True, jio_reopen = True\<rparr>"

definition sample_pool_env :: "((address \<times> int) list \<times> (address \<times> u64) list, (address \<times> u64) list) pool_env" where
  "sample_pool_env = \<lparr>pe_db = ledger, pe_gas = sample_gas, pe_ManageState = snd,
     pe_GetNonce = (\<lambda>m a. case map_of m a of None \<Rightarrow> 0 | Some n \<Rightarrow> n), pe_SetNonce = (\<lambda>m a n. AList.update a n m),
     pe_MaximumTxSize = 1000, pe_MaxChainId = 100, pe_EnableClassicTx = 0, pe_IsPangu = (\<lambda>n. False),
     pe_CurrentHeader = sample_header, pe_GetBlock = (\<lambda>h n. None),
     pe_StateAt = (\<lambda>r n. Some ([(7, 5000), (8, 5000)], [])), pe_TxDifference = (\<lambda>as bs. filter (\<lambda>t. t \<notin> set bs) as),
     pe_now = 100, pe_range = id, pe_prque = (\<lambda>xs. map fst (rev (sort_key snd xs))), pe_io = sample_io\<rparr>"

definition sample_config :: TxPoolConfig where
  "sample_config = DefaultTxPoolConfig\<lparr>NoLocals := True, PriceLimit := 1\<rparr>"

definition sample_new where
  "sample_new = NewTxPool sample_pool_env sample_config None"

definition sample_txs :: "tx list" where
  "sample_txs = [sample_tx 1 7 0 20 100, sample_tx 2 7 1 30 100, sample_tx 3 7 3 25 100, sample_tx 4 8 0 5 50]"

definition pool_sample where
  "pool_sample = Option.bind sample_new (addTxsLocked sample_pool_env sample_txs False)"

lemma sample_pool_laws: "pool_laws sample_pool_env"
proof -
  have "sorted_wrt (\<lambda>a b. \<forall>x y. (a, x) \<in> set xs \<and> (b, y) \<in> set xs \<longrightarrow> y \<le> x) (map fst (rev (sort_key snd xs)))"
    if "distinct (map fst xs)" for xs :: "(address \<times> int) list"
  proof -
    have "sorted_wrt (\<lambda>a b. snd a \<le> snd b) (sort_key snd xs)" by (metis sorted_sort_key sorted_map)
    then have "sorted_wrt (\<lambda>a b. \<forall>x y. (fst b, x) \<in> set xs \<and> (fst a, y) \<in> set xs \<longrightarrow> y \<le> x) (sort_key snd xs)"
      by (rule sorted_wrt_mono_rel [rotated]) (metis eq_key_imp_eq_value prod.collapse set_sort that)
    then show ?thesis by (simp add: sorted_wrt_map sorted_wrt_rev)
  qed
  then show ?thesis by (simp add: pool_laws_def range_law_def prque_law_def sample_pool_env_def)
qed

lemma sample_pool_content:
  "map_option (\<lambda>p. (map (\<lambda>(a, ts). (a, map tx_hash ts)) (fst (snd (Content p))),
     map (\<lambda>(a, ts). (a, map tx_hash ts)) (snd (snd (Content p))), length (p_all p))) pool_sample = Some ([(8, [4]), (7, [1, 2])], [(7, [3])], 4)"
  by code_simp

lemma sample_reached:
  obtains p q where "sample_new = Some p" "pool_sample = Some q" "pool_start p" "(pool_step pool_laws)\<^sup>*\<^sup>* p q"
proof -
  obtain q where q: "pool_sample = Some q" using sample_pool_content by (cases pool_sample) auto
  then obtain p where p: "sample_new = Some p" "addTxsLocked sample_pool_env sample_txs False p = Some q"
    by (auto simp: pool_sample_def split: Option.bind_splits)
  have "config_safe sample_config" by (simp add: config_safe_def sample_config_def DefaultTxPoolConfig_def)
  then have "pool_start p" using p(1) sample_pool_laws unfolding pool_start_def sample_new_def by blast
  moreover have "(pool_step pool_laws)\<^sup>*\<^sup>* p q" using step_addTxs [of pool_laws, OF sample_pool_laws p(2)] by blast
  ultimately show ?thesis using that p(1) q by blast
qed

section \<open>What the pool shows\<close>

lemma content_lists:
  assumes "lists_ok s m"
  shows "(a, ts) \<in> set (snd (flatten_map m)) \<longleftrightarrow> (\<exists>l. map_of m a = Some l \<and> ts = tl_abs l)"
proof -
  have "snd (tl_Flatten l) = tl_abs l" if "(b, l) \<in> set m" for b l
    using assms tl_Flatten_correct map_of_eq_Some_iff [of m b l] that by (auto simp: lists_ok_def)
  moreover have "map_of m a = Some l \<longleftrightarrow> (a, l) \<in> set m" for l
    using assms by (simp add: lists_ok_def map_of_eq_Some_iff)
  ultimately show ?thesis by (force simp: flatten_map_def)
qed

lemma content_held: "lists_ok s m \<Longrightarrow> (\<exists>a ts. (a, ts) \<in> set (snd (flatten_map m)) \<and> t \<in> set ts) \<longleftrightarrow> t \<in> held m"
  by (auto simp: content_lists held_def)

lemma abs_ascending: "tl_inv l \<Longrightarrow> sorted_wrt (<) (map tx_nonce (tl_abs l))"
  using sm_abs_strict [OF tl_invD] by (simp add: tl_abs_def strict_sorted_iff)

text \<open>(C7) In every pool that the calls of the pool can reach, the lists that \<open>Content\<close> shows have one
  entry per account, each with strictly ascending nonces and only transactions of that account;
  every shown transaction is the one \<open>Get\<close> returns for its hash; no nonce of an account is both
  pending and queued; and every known transaction is in the price heap, under its own hash.\<close>

theorem pool_reachable:
  assumes "pool_start p" "(pool_step pool_laws)\<^sup>*\<^sup>* p q" "Content q = (q', pending, queued)"
  shows "distinct (map fst pending) \<and> distinct (map fst queued)
    \<and> (\<forall>a ts. (a, ts) \<in> set pending \<union> set queued \<longrightarrow> sorted_wrt (<) (map tx_nonce ts)
          \<and> (\<forall>t\<in>set ts. tx_sender t = Some a \<and> pool_Get (tx_hash t) q = Some t))
    \<and> (\<forall>a ts us. (a, ts) \<in> set pending \<and> (a, us) \<in> set queued \<longrightarrow> tx_nonce ` set ts \<inter> tx_nonce ` set us = {})
    \<and> (\<forall>h t. pool_Get h q = Some t \<longrightarrow> tx_hash t = h \<and> t \<in> set (pl_items (p_priced q)))"
proof -
  have inv: "pool_inv q" using pool_machine.inv_reachable [OF assms(1,2)] by simp
  then have b: "lists_ok True (p_pending q)" "lists_ok False (p_queue q)" "keyed (p_all q)"
    "\<forall>t\<in>held (p_pending q) \<union> held (p_queue q). map_of (p_all q) (tx_hash t) = Some t"
    "held (p_pending q) \<inter> held (p_queue q) = {}" "one_per_slot (held (p_pending q) \<union> held (p_queue q))"
    by (simp_all add: pool_inv_def pool_ok_def book_def)
  have e: "pending = snd (flatten_map (p_pending q))" "queued = snd (flatten_map (p_queue q))"
    using assms(3) by (simp_all add: Content_def Let_def split_beta)
  have d: "distinct (map fst (snd (flatten_map m))) = go_ok m" for m by (simp add: flatten_map_def o_def split_beta)
  have "tx_nonce ` set ts \<inter> tx_nonce ` set us = {}" if m: "(a, ts) \<in> set pending" "(a, us) \<in> set queued" for a ts us
  proof -
    have "t \<in> held (p_pending q)" "u \<in> held (p_queue q)" if "t \<in> set ts" "u \<in> set us" for t u
      using that m unfolding e content_held [OF b(1), symmetric] content_held [OF b(2), symmetric] by blast+
    moreover have "tx_sender t = tx_sender u" if "t \<in> set ts" "u \<in> set us" for t u
      using that m b(1,2) unfolding e content_lists [OF b(1)] content_lists [OF b(2)] lists_ok_def by fastforce
    ultimately show ?thesis using b(5,6) unfolding one_per_slot_def by blast
  qed
  moreover have "sorted_wrt (<) (map tx_nonce ts) \<and> (\<forall>t\<in>set ts. tx_sender t = Some a \<and> pool_Get (tx_hash t) q = Some t)"
    if "(a, ts) \<in> set pending \<union> set queued" for a ts
    using that b(1,2,4) unfolding e
    by (auto simp: content_lists [OF b(1)] content_lists [OF b(2)] lists_ok_def abs_ascending pool_Get_def heldI)
  moreover have "tx_hash t = h \<and> t \<in> set (pl_items (p_priced q))" if "pool_Get h q = Some t" for h t
    using that b(3) inv by (auto simp: pool_Get_def keyed_def pool_inv_def priced_ok_def)
  ultimately show ?thesis using b(1,2) unfolding e d lists_ok_def by blast
qed

theorem pool_reachable_witness:
  "\<exists>p q q' ts us. sample_new = Some p \<and> pool_sample = Some q \<and> Content q = (q', [(8, ts), (7, us)], [(7, [sample_tx 3 7 3 25 100])])
     \<and> sorted_wrt (<) (map tx_nonce us) \<and> 3 \<notin> tx_nonce ` set us \<and> (\<forall>t\<in>set us. tx_sender t = Some 7 \<and> pool_Get (tx_hash t) q = Some t)"
proof -
  obtain p q where p: "sample_new = Some p" "pool_sample = Some q" "pool_start p" "(pool_step pool_laws)\<^sup>*\<^sup>* p q"
    by (rule sample_reached)
  have "map_option (\<lambda>p. snd (Content p)) pool_sample
      = Some ([(8, [sample_tx 4 8 0 5 50]), (7, [sample_tx 1 7 0 20 100, sample_tx 2 7 1 30 100])], [(7, [sample_tx 3 7 3 25 100])])" by code_simp
  then obtain q' where c: "Content q = (q', [(8, [sample_tx 4 8 0 5 50]), (7, [sample_tx 1 7 0 20 100, sample_tx 2 7 1 30 100])], [(7, [sample_tx 3 7 3 25 100])])"
    unfolding p(2) by (cases "Content q") simp
  have "tx_nonce (sample_tx 3 7 3 25 100) = 3" by (simp add: sample_tx_def)
  then show ?thesis using pool_reachable [OF p(3,4) c] p(1,2) c by auto
qed

section \<open>No call gets stuck\<close>


text \<open>A fork of one block: heads 2 and 3 on the block 1.\<close>

definition fork_block :: "hash \<Rightarrow> hash \<Rightarrow> int \<Rightarrow> tx list \<Rightarrow> block" where
  "fork_block h parent n txs =
     \<lparr>b_header = sample_header\<lparr>h_hash := h, h_parentHash := parent, h_number := n\<rparr>, b_txs = txs, b_uncles = []\<rparr>"

definition fork_GetBlock :: "hash \<Rightarrow> u64 \<Rightarrow> block option" where
  "fork_GetBlock h n =
     (if h = 1 \<and> n = 5 then Some (fork_block 1 0 5 [])
      else if h = 2 \<and> n = 6 then Some (fork_block 2 1 6 [sample_tx 9 8 0 5 50, sample_tx 4 8 1 5 50])
      else if h = 3 \<and> n = 6 then Some (fork_block 3 1 6 [sample_tx 9 8 0 5 50]) else None)"

definition fork_env where
  "fork_env = sample_pool_env\<lparr>pe_GetBlock := fork_GetBlock\<rparr>"

lemma fork_laws: "pool_laws fork_env" "blocks_law (pe_GetBlock fork_env)"
  "heads_known fork_env (b_header (fork_block 2 1 6 [])) (b_header (fork_block 3 1 6 []))"
  using sample_pool_laws
  by (simp_all add: fork_env_def pool_laws_def blocks_law_def heads_known_def fork_GetBlock_def fork_block_def sample_header_def big_Uint64_def)

lemma fork_reorg: "reorg_txs fork_env (b_header (fork_block 2 1 6 [])) (b_header (fork_block 3 1 6 [])) = Some (Some [sample_tx 4 8 1 5 50])"
proof -
  let ?b = "fork_block 2 1 6 [sample_tx 9 8 0 5 50, sample_tx 4 8 1 5 50]" and ?c = "fork_block 3 1 6 [sample_tx 9 8 0 5 50]"
  have g: "fork_GetBlock 2 6 = Some ?b" "fork_GetBlock 3 6 = Some ?c" "fork_GetBlock 1 5 = Some (fork_block 1 0 5 [])"
    by (simp_all add: fork_GetBlock_def)
  have f: "b_header (fork_block h p n ts) = sample_header\<lparr>h_hash := h, h_parentHash := p, h_number := n\<rparr>" "b_txs (fork_block h p n ts) = ts" for h p n ts
    by (simp_all add: fork_block_def)
  have "walk_both fork_GetBlock ?b ?c [] [] = Some (Some (b_txs ?b, b_txs ?c))"
    by (subst walk_both.simps) (simp add: f g big_Uint64_def, subst walk_both.simps, simp)
  moreover have "walk_back fork_GetBlock 6 ?b [] = Some (Some (?b, []))" "walk_back fork_GetBlock 6 ?c [] = Some (Some (?c, []))"
    by (subst walk_back.simps, simp add: f big_Uint64_def)+
  ultimately show ?thesis
    by (simp add: reorg_txs_def fork_env_def sample_pool_env_def f g big_Uint64_def sample_tx_def)
qed


text \<open>(C19) After \<open>promoteExecutables\<close> on a reachable pool of less than \<open>2 ^ 24\<close> transactions, which returns,
  the pending transactions are within \<open>GlobalSlots\<close> or every account that is not local is within
  \<open>AccountSlots\<close>, and the queued ones are within \<open>GlobalQueue\<close> or only local accounts have any.\<close>

theorem pool_limits:
  assumes "pool_start p" "(pool_step pool_laws)\<^sup>*\<^sup>* p q" "pool_laws env" "length (p_all q) < 2 ^ 24"
  shows "\<exists>r. promoteExecutables env accounts q = Some r
    \<and> (fst (stats r) \<le> uint (GlobalSlots (p_config q))
       \<or> (\<forall>a. \<not> as_contains (p_locals q) a \<longrightarrow> len_at (p_pending r) a \<le> uint (AccountSlots (p_config q))))
    \<and> (snd (stats r) \<le> uint (GlobalQueue (p_config q))
       \<or> (\<forall>a. \<not> as_contains (p_locals q) a \<longrightarrow> len_at (p_queue r) a = 0))"
proof -
  have "pool_inv q" "config_safe (p_config q)" using pool_machine.inv_reachable [OF assms(1,2)] by simp_all
  then have "pool_ok {} q" "0 \<le> sint (AccountQueue (p_config q))" by (simp_all add: pool_inv_def config_safe_def)
  note promoteExecutables_ok [OF this(1) assms(3) this(2) assms(4), of accounts]
  then show ?thesis unfolding stats_def fst_conv snd_conv by (elim exE conjE) (intro exI conjI)
qed

theorem pool_limits_witness:
  "\<exists>q r. pool_sample = Some q \<and> promoteExecutables sample_pool_env None q = Some r
     \<and> (fst (stats r) \<le> 40960 \<or> (\<forall>a. len_at (p_pending r) a \<le> 8196))"
proof -
  obtain p q where p: "sample_new = Some p" "pool_sample = Some q" "pool_start p" "(pool_step pool_laws)\<^sup>*\<^sup>* p q"
    by (rule sample_reached)
  have "length (p_all q) < 2 ^ 24" using sample_pool_content unfolding p(2) by simp
  moreover have "map_option (\<lambda>p. (GlobalSlots (p_config p), AccountSlots (p_config p), p_locals p)) pool_sample = Some (40960, 8196, [])" by code_simp
  then have "GlobalSlots (p_config q) = 40960" "AccountSlots (p_config q) = 8196" "p_locals q = []" unfolding p(2) by simp_all
  ultimately show ?thesis using pool_limits [OF p(3,4) sample_pool_laws, of None] p(2) by (auto simp: as_contains_def)
qed

section \<open>Removals\<close>

lemma known_distinct: "pool_ok {} q \<Longrightarrow> t \<in> held (p_pending q) \<Longrightarrow> u \<in> held (p_pending q) \<Longrightarrow> t \<noteq> u \<Longrightarrow> tx_hash t \<noteq> tx_hash u"
  unfolding pool_ok_def book_def by (metis UnI1 option.inject)

text \<open>(C26) Removing the first pending transaction of an account removes its whole pending list; the later
  transactions of that list do not go back to the queue: they are in no list any more but are
  still known, so that they keep their place in the pool and cannot be added again.\<close>

theorem removeTx_strands:
  assumes "pool_start p" "(pool_step pool_laws)\<^sup>*\<^sup>* p q" "map_of (p_pending q) a = Some l" "tl_abs l = t # us"
  shows "\<exists>r. removeTx env (tx_hash t) q = Some r \<and> map_of (p_pending r) a = None \<and> p_queue r = p_queue q
    \<and> (\<forall>u\<in>set us. pool_Get (tx_hash u) r = Some u \<and> u \<notin> held (p_pending r) \<union> held (p_queue r)
          \<and> pool_add env u local r = Some (Inl errKnown, r))"
proof -
  have ok: "pool_ok {} q" using pool_machine.inv_reachable [OF assms(1,2)] by (simp add: pool_inv_def)
  note l = pool_ok_lists(1) [OF ok assms(3)] and st = abs_ascending [of l, unfolded assms(4)]
  have h: "v \<in> held (p_pending q)" "map_of (p_all q) (tx_hash v) = Some v" if "v \<in> set (t # us)" for v
    using heldI [OF assms(3), of v] that ok unfolding assms(4) pool_ok_def book_def by blast+
  have s: "sender t = a" using l assms(4) by (auto intro!: sender_Some)
  have "tl_Overlaps l t" using overlaps_iff [of l t] l assms(4) by auto
  then obtain l' inv where r: "tl_Remove l t = Some (l', True, inv)" "tl_abs l' = []"
    using tl_Remove_correct [of l t] l assms(4) by auto
  let ?f = "forget (tx_hash t) q"
  have f: "p_pending ?f = p_pending q" "p_queue ?f = p_queue q" "map_of (p_all ?f) = (map_of (p_all q))(tx_hash t := None)"
    by (simp_all add: forget_def Let_def alist_simps fun_eq_iff)
  let ?g = "?f\<lparr>p_pending := AList.delete a (AList.update a l' (p_pending q)), p_beats := AList.delete a (p_beats ?f)\<rparr>"
  have run: "removeTx env (tx_hash t) q = Some (lower_nonce env a (tx_nonce t) ?g)"
    using h(2) [of t] s r assms(3) by (simp add: removeTx_def f tl_Empty_abs)
  have m: "map_of (p_pending ?g) = (map_of (p_pending q))(a := None)" by (simp add: alist_simps fun_eq_iff)
  have "pool_Get (tx_hash u) ?g = Some u \<and> u \<notin> held (p_pending ?g) \<union> held (p_queue ?g)" if u: "u \<in> set us" for u
  proof -
    have "u \<noteq> t" using st l u by auto
    then have "tx_hash u \<noteq> tx_hash t" using known_distinct [OF ok] h(1) u by (metis list.set_intros)
    moreover have "tx_sender u = Some a" using l u assms(4) by auto
    then have "u \<notin> held (p_pending ?g)" using pool_ok_lists(1) [OF ok] unfolding held_def m by (auto split: if_splits)
    moreover have "u \<notin> held (p_queue q)" using h(1) u ok unfolding pool_ok_def book_def by auto
    ultimately show ?thesis using h(2) u by (simp add: pool_Get_def f)
  qed
  moreover have e: "p_all (lower_nonce env a n x) = p_all x" "p_pending (lower_nonce env a n x) = p_pending x" "p_queue (lower_nonce env a n x) = p_queue x" for n x
    by (simp_all add: lower_nonce_def)
  ultimately show ?thesis using run m by (intro exI [of _ "lower_nonce env a (tx_nonce t) ?g"]) (auto simp: pool_Get_def pool_add_def f)
qed

theorem removeTx_strands_witness:
  "\<exists>q r. pool_sample = Some q \<and> removeTx sample_pool_env 1 q = Some r \<and> map_of (p_pending r) 7 = None
     \<and> pool_Get 2 r = Some (sample_tx 2 7 1 30 100) \<and> sample_tx 2 7 1 30 100 \<notin> held (p_pending r) \<union> held (p_queue r)"
proof -
  obtain p q where p: "sample_new = Some p" "pool_sample = Some q" "pool_start p" "(pool_step pool_laws)\<^sup>*\<^sup>* p q"
    by (rule sample_reached)
  have "map_option (\<lambda>p. map_option tl_abs (map_of (p_pending p) 7)) pool_sample = Some (Some [sample_tx 1 7 0 20 100, sample_tx 2 7 1 30 100])"
    by code_simp
  then obtain l where l: "map_of (p_pending q) 7 = Some l" "tl_abs l = [sample_tx 1 7 0 20 100, sample_tx 2 7 1 30 100]" unfolding p(2) by auto
  have "tx_hash (sample_tx 1 7 0 20 100) = 1" "tx_hash (sample_tx 2 7 1 30 100) = 2" by (simp_all add: sample_tx_def)
  then show ?thesis using removeTx_strands [OF p(3,4) l, of sample_pool_env False] p(2) by auto
qed

text \<open>(C24) Raising the price limit of a reachable pool removes exactly the transactions below the new price
  whose account is not local, when no two transactions of the price heap share a hash.\<close>

theorem SetGasPrice_exact:
  assumes "pool_start p" "(pool_step pool_laws)\<^sup>*\<^sup>* p q" "inj_on tx_hash (set (pl_items (p_priced q)))"
  shows "\<exists>r. SetGasPrice env price q = Some r \<and> (\<forall>h. pool_Get h r =
    (case pool_Get h q of None \<Rightarrow> None
     | Some t \<Rightarrow> if tx_gasPrice t < price \<and> \<not> as_contains (p_locals q) (sender t) then None else Some t))"
proof -
  have inv: "pool_inv q" using pool_machine.inv_reachable [OF assms(1,2)] by simp
  let ?D = "{t. t \<in># live_items (p_all q) (pl_items (p_priced q)) \<and> tx_gasPrice t < price \<and> remote (p_locals q) t}"
  obtain r where r: "SetGasPrice env price q = Some r" "map_of (p_all r) = map_of (p_all q) |` (- tx_hash ` ?D)"
    using SetGasPrice_ok [OF inv, of env price] by blast
  have "h \<in> tx_hash ` ?D \<longleftrightarrow> tx_gasPrice t < price \<and> \<not> as_contains (p_locals q) (sender t)" if t: "map_of (p_all q) h = Some t" for h t
  proof -
    have k: "tx_hash t = h" "t \<in> set (pl_items (p_priced q))" "tx_sender t \<noteq> None"
      using inv t by (auto simp: pool_inv_def priced_ok_def pool_ok_def book_def keyed_def)
    have lv: "t \<in># live_items (p_all q) (pl_items (p_priced q))" using t k by (simp add: live_items_def live_def)
    have rm: "remote (p_locals q) t \<longleftrightarrow> \<not> as_contains (p_locals q) (sender t)"
      using k(3) by (auto simp: remote_def as_containsTx_def sender_def)
    have uq: "u = t" if "u \<in># live_items (p_all q) (pl_items (p_priced q))" "tx_hash u = h" for u
      using inj_onD [OF assms(3), of u t] that k(1,2) by (simp add: live_items_def)
    show ?thesis unfolding rm [symmetric] using lv uq k(1) by blast
  qed
  then show ?thesis using r by (auto simp: pool_Get_def restrict_map_def split: option.split)
qed

theorem SetGasPrice_exact_witness:
  "\<exists>q r. pool_sample = Some q \<and> SetGasPrice sample_pool_env 25 q = Some r
     \<and> pool_Get 1 r = None \<and> pool_Get 2 r = Some (sample_tx 2 7 1 30 100)"
proof -
  obtain p q where p: "sample_new = Some p" "pool_sample = Some q" "pool_start p" "(pool_step pool_laws)\<^sup>*\<^sup>* p q"
    by (rule sample_reached)
  have "map_option (\<lambda>p. distinct (map tx_hash (pl_items (p_priced p)))) pool_sample = Some True" by code_simp
  then have i: "inj_on tx_hash (set (pl_items (p_priced q)))" unfolding p(2) by (simp add: distinct_map)
  have "map_option (\<lambda>p. (pool_Get 1 p, pool_Get 2 p, p_locals p)) pool_sample = Some (Some (sample_tx 1 7 0 20 100), Some (sample_tx 2 7 1 30 100), [])"
    by code_simp
  then have g: "pool_Get 1 q = Some (sample_tx 1 7 0 20 100)" "pool_Get 2 q = Some (sample_tx 2 7 1 30 100)" "p_locals q = []" unfolding p(2) by simp_all
  obtain r where "SetGasPrice sample_pool_env 25 q = Some r" "\<forall>h. pool_Get h r =
    (case pool_Get h q of None \<Rightarrow> None
     | Some t \<Rightarrow> if tx_gasPrice t < 25 \<and> \<not> as_contains (p_locals q) (sender t) then None else Some t)"
    using SetGasPrice_exact [OF p(3,4) i] by blast
  then show ?thesis using p(2) g by (intro exI [of _ q] exI [of _ r]) (simp add: as_contains_def sample_tx_def)
qed

section \<open>Reorganisations and the journal\<close>



fun insert_all :: "journal_io \<Rightarrow> tx list \<Rightarrow> txJournal \<Rightarrow> txJournal option" where
  "insert_all io [] j = Some j"
| "insert_all io (t # ts) j = (case journal_insert io t j of (None, j') \<Rightarrow> insert_all io ts j' | (Some e, j') \<Rightarrow> None)"

lemma insert_all_records:
  assumes "io_laws io"
  shows "j_file j = Some rs \<Longrightarrow> insert_all io ts j = Some j' \<Longrightarrow> j_file j' = Some (rs @ map Some ts)"
proof (induction ts arbitrary: j rs)
  case (Cons t ts)
  then obtain k where k: "journal_insert io t j = (None, k)" "insert_all io ts k = Some j'" by (auto split: prod.splits option.splits)
  then have "j_file k = Some (rs @ [Some t])" using Cons.prems(1) assms
    by (cases "jio_write io t") (auto simp: journal_insert_def io_laws_def split: if_splits; metis fst_conv snd_conv)
  then show ?case using Cons.IH k(2) by fastforce
qed simp

lemma rotate_records: "io_laws io \<Longrightarrow> journal_rotate io all j = (None, k) \<Longrightarrow> j_file k = Some (map Some (concat (map snd all)))"
  using write_all_records by (fastforce simp: journal_rotate_def Let_def split: if_splits option.splits)

text \<open>(C25) After a successful rotation of the journal and any number of successful insertions, loading the
  journal hands exactly the transactions written by the rotation and then the inserted ones, in
  order, to the pool, and reports no error.\<close>

theorem journal_round_trip:
  assumes "io_laws io" "jio_stat_open io" "journal_rotate io all j = (None, k)" "insert_all io ts k = Some m"
  shows "journal_load io add m p =
    map_option (Pair None) (fold (\<lambda>tx r. Option.bind r (\<lambda>p. map_option snd (add tx p))) (concat (map snd all) @ ts) (Some p))"
  using insert_all_records [OF assms(1) rotate_records [OF assms(1,3)] assms(4)] assms(2)
    load_loop_fold [of add "concat (map snd all) @ ts" p] by (simp add: journal_load_def)

theorem journal_round_trip_witness:
  "\<exists>k m. journal_rotate sample_io [(7, [sample_tx 1 7 0 20 100, sample_tx 2 7 1 30 100]), (8, [sample_tx 4 8 0 5 50])] (newTxJournal None) = (None, k)
     \<and> insert_all sample_io [sample_tx 3 7 3 25 100] k = Some m
     \<and> journal_load sample_io (\<lambda>t hs. Some (True, hs @ [tx_hash t])) m [] = Some (None, [1, 2, 4, 3])"
proof -
  let ?all = "[(7, [sample_tx 1 7 0 20 100, sample_tx 2 7 1 30 100]), (8, [sample_tx 4 8 0 5 50])]"
  have io: "io_laws sample_io" "jio_stat_open sample_io" by (simp_all add: io_laws_def sample_io_def)
  obtain k where k: "journal_rotate sample_io ?all (newTxJournal None) = (None, k)" "j_writer k"
    by (simp add: journal_rotate_def sample_io_def newTxJournal_def)
  moreover obtain m where m: "insert_all sample_io [sample_tx 3 7 3 25 100] k = Some m"
    using k(2) by (auto simp: journal_insert_def sample_io_def split: prod.split)
  ultimately show ?thesis using journal_round_trip [OF io k(1) m, of "\<lambda>t hs. Some (True, hs @ [tx_hash t])" "[]"]
    by (auto simp: sample_tx_def)
qed

end
