(* ===== verification/Pow_Hash.thy ===== *)
theory Pow_Hash
  imports XC_Prelude "HOL-Library.Monad_Syntax"
begin

unbundle bit_operations_syntax

text \<open>
  The proof-of-work hash, \<open>src/consensus/ethash/algorithm.go\<close>: the seed of an epoch, the
  verification cache, the mining dataset that any number of goroutines fill, and \<open>hashimoto\<close> over
  the dataset (mining) or over items computed from the cache (verification).  A \<open>uint32\<close> keeps its
  width, so that the products of the source wrap where they do in Go, and a slice expression out
  of range, a division by zero or a read behind the end is a panic.  The two Keccak functions and
  \<open>bitutil.XORBytes\<close> come from packages outside the repository and are the record \<open>pow_env\<close>.
\<close>

type_synonym u32 = "32 word"

record pow_env =
  Keccak512 :: "bytes \<Rightarrow> bytes"
  Keccak256 :: "bytes \<Rightarrow> bytes"
  XORBytes :: "bytes \<Rightarrow> bytes \<Rightarrow> bytes \<Rightarrow> bytes"

text \<open>The hashes have their 64 and 32 bytes; \<open>XORBytes(dst, a, b)\<close> writes into \<open>dst\<close>.\<close>

definition pow_laws :: "pow_env \<Rightarrow> bool" where
  "pow_laws env \<longleftrightarrow> (\<forall>x. length (Keccak512 env x) = 64 \<and> length (Keccak256 env x) = 32)
     \<and> (\<forall>d a b. length (XORBytes env d a b) = length d)"

section \<open>Bytes and words\<close>

text \<open>The methods of \<open>binary.LittleEndian\<close>; those of \<open>binary.BigEndian\<close> have the bytes in reverse order.
  \<open>Uint32(b)\<close> reads the first four bytes.\<close>

definition PutUint32 :: "u32 \<Rightarrow> bytes" where
  "PutUint32 v = [ucast v, ucast (drop_bit 8 v), ucast (drop_bit 16 v), ucast (drop_bit 24 v)]"

definition PutUint64 :: "u64 \<Rightarrow> bytes" where
  "PutUint64 v = map (\<lambda>i. ucast (drop_bit (8 * i) v)) [0..<8]"

definition of_bytes :: "bytes \<Rightarrow> u32" where
  "of_bytes b = ucast (b ! 0) OR push_bit 8 (ucast (b ! 1)) OR push_bit 16 (ucast (b ! 2)) OR push_bit 24 (ucast (b ! 3))"

definition Uint32 :: "bytes \<Rightarrow> u32 go" where
  "Uint32 b = (if length b < 4 then None else Some (of_bytes (take 4 b)))"

fun go_fold :: "('a \<Rightarrow> 's \<Rightarrow> 's go) \<Rightarrow> 'a list \<Rightarrow> 's \<Rightarrow> 's go" where
  "go_fold f [] s = Some s"
| "go_fold f (x # xs) s = Option.bind (f x s) (go_fold f xs)"

text \<open>\<open>xs[lo:hi]\<close> with indices of type \<open>uint32\<close>.\<close>

definition slice32 :: "'a list \<Rightarrow> u32 \<Rightarrow> u32 \<Rightarrow> 'a list go" where
  "slice32 xs lo hi =
     (if lo \<le> hi \<and> unat hi \<le> length xs then Some (take (unat hi - unat lo) (drop (unat lo) xs)) else None)"

text \<open>The machine's view of a slice of words as bytes and back, as \<open>unsafe.Pointer\<close> gives it.\<close>

definition machine_bytes :: "bool \<Rightarrow> u32 list \<Rightarrow> bytes" where
  "machine_bytes little ws = concat (map (\<lambda>w. if little then PutUint32 w else rev (PutUint32 w)) ws)"

definition machine_words :: "bool \<Rightarrow> bytes \<Rightarrow> u32 list" where
  "machine_words little bs =
     map (\<lambda>i. let b = take 4 (drop (4 * i) bs) in of_bytes (if little then b else rev b)) [0..<length bs div 4]"

section \<open>Seeds and the cache\<close>

text \<open>\<open>h.Sum(dest[:0])\<close> appends in place when the hash fits, and otherwise leaves \<open>dest\<close> alone; every
  destination ends where its array ends.\<close>

definition makeHasher :: "(bytes \<Rightarrow> bytes) \<Rightarrow> bytes \<Rightarrow> bytes \<Rightarrow> bytes" where
  "makeHasher h dest data =
     (let d = h data in if length d \<le> length dest then d @ drop (length d) dest else dest)"

definition seedHash :: "pow_env \<Rightarrow> u64 \<Rightarrow> bytes" where
  "seedHash env block =
     (let seed = replicate 32 0 in
      if block < 30000 then seed
      else fold (\<lambda>i seed. makeHasher (Keccak256 env) seed seed) [0..<unat (block div 30000)] seed)"

text \<open>A call \<open>keccak512(cache[offset:], data)\<close>.\<close>

definition hash_at :: "pow_env \<Rightarrow> nat \<Rightarrow> bytes \<Rightarrow> bytes \<Rightarrow> bytes" where
  "hash_at env off data cache = take off cache @ makeHasher (Keccak512 env) (drop off cache) data"

definition fill_rows :: "pow_env \<Rightarrow> bytes \<Rightarrow> bytes \<Rightarrow> bytes" where
  "fill_rows env seed cache =
     fold (\<lambda>i cache. hash_at env (64 * i) (take 64 (drop (64 * i - 64) cache)) cache)
       [1..<(length cache + 63) div 64] (hash_at env 0 seed cache)"

text \<open>One row of the low-round \<open>randmemohash\<close>, with the buffer \<open>temp\<close>.\<close>

definition mix_row :: "pow_env \<Rightarrow> nat \<Rightarrow> nat \<Rightarrow> bytes \<times> bytes \<Rightarrow> (bytes \<times> bytes) go" where
  "mix_row env rows j = (\<lambda>(cache, temp). do {
     let srcOff = (j + rows - 1) mod rows * 64;
     let dstOff = j * 64;
     w \<leftarrow> Uint32 (drop dstOff cache);
     if of_nat rows = (0 :: u32) then None else do {
       let xorOff = (w mod of_nat rows) * 64;
       other \<leftarrow> slice32 cache xorOff (xorOff + 64);
       let temp = XORBytes env temp (take 64 (drop srcOff cache)) other;
       Some (hash_at env dstOff temp cache, temp) } })"

definition swap :: "bytes \<Rightarrow> bytes go" where
  "swap buffer = go_fold (\<lambda>i b. do {
     w \<leftarrow> Uint32 (drop (4 * i) b);
     Some (take (4 * i) b @ rev (PutUint32 w) @ drop (4 * i + 4) b) }) [0..<(length buffer + 3) div 4] buffer"

definition generateCache :: "pow_env \<Rightarrow> bool \<Rightarrow> u32 list \<Rightarrow> bytes \<Rightarrow> u32 list go" where
  "generateCache env little dest seed = do {
     let cache = fill_rows env seed (machine_bytes little dest);
     let rows = length cache div 64;
     (cache, _) \<leftarrow> go_fold (mix_row env rows) (concat (replicate 3 [0..<rows])) (cache, replicate 64 0);
     cache \<leftarrow> (if little then Some cache else swap cache);
     Some (machine_words little cache) }"

definition prepare :: "u32 list \<Rightarrow> bytes \<Rightarrow> u32 list go" where
  "prepare dest src = those (map (\<lambda>i. Uint32 (drop (i * 4) src)) [0..<length dest])"

section \<open>Dataset items\<close>

definition fnv :: "u32 \<Rightarrow> u32 \<Rightarrow> u32" where
  "fnv a b = (a * 0x01000193) XOR b"

definition fnvHash :: "u32 list \<Rightarrow> u32 list \<Rightarrow> u32 list go" where
  "fnvHash mix data = (if length data < length mix then None else Some (map2 fnv mix data))"

definition mix_parent :: "u32 list \<Rightarrow> u32 \<Rightarrow> u32 \<Rightarrow> nat \<Rightarrow> u32 list \<Rightarrow> u32 list go" where
  "mix_parent cache rows index i intMix = do {
     let parent = fnv (index XOR of_nat i) (intMix ! (i mod 16)) mod rows;
     data \<leftarrow> slice_from cache (uint (parent * 16));
     fnvHash intMix data }"

definition generateDatasetItem :: "pow_env \<Rightarrow> u32 list \<Rightarrow> u32 \<Rightarrow> bytes go" where
  "generateDatasetItem env cache index =
     (let rows = of_nat (length cache div 16) :: u32 in
      if rows = 0 then None
      else do {
        row \<leftarrow> those (map (\<lambda>i. slice_at cache (uint ((index mod rows) * 16 + of_nat i))) [0..<16]);
        let mix = concat (map PutUint32 ((hd row XOR index) # tl row));
        let mix = makeHasher (Keccak512 env) mix mix;
        intMix \<leftarrow> those (map (\<lambda>i. Uint32 (drop (i * 4) mix)) [0..<16]);
        intMix \<leftarrow> go_fold (mix_parent cache rows index) [0..<256] intMix;
        let mix = concat (map PutUint32 intMix);
        Some (makeHasher (Keccak512 env) mix mix) })"

section \<open>The dataset\<close>

text \<open>The rows that one of \<open>threads\<close> goroutines generates.\<close>

definition thread_rows :: "u64 \<Rightarrow> nat \<Rightarrow> nat \<Rightarrow> u32 list" where
  "thread_rows sz threads i =
     (let batch = ucast ((sz + 64 * of_nat threads - 1) div (64 * of_nat threads)) :: u32;
          first = of_nat i * batch;
          limit = first + batch;
          limit = (if limit > ucast (sz div 64) then ucast (sz div 64) else limit)
      in map of_nat [unat first..<unat limit])"

text \<open>One turn of the loop of a goroutine.  The progress report divides by a hundredth of the rows.\<close>

definition store_item :: "pow_env \<Rightarrow> bool \<Rightarrow> u32 list \<Rightarrow> u32 \<Rightarrow> bytes \<Rightarrow> bytes go" where
  "store_item env little cache index dataset = do {
     item \<leftarrow> generateDatasetItem env cache index;
     item \<leftarrow> (if little then Some item else swap item);
     let off = unat (index * 64);
     if length dataset < off then None else do {
       let n = min (length item) (length dataset - off);
       let dataset = take off dataset @ take n item @ drop (off + n) dataset;
       if ucast (of_nat (length dataset) div (64 :: u64) div 100) = (0 :: u32) then None else Some dataset } }"

text \<open>\<open>sched\<close> is the order in which the goroutines come to store their rows.\<close>

definition generateDataset ::
  "pow_env \<Rightarrow> bool \<Rightarrow> nat \<Rightarrow> (u32 list \<Rightarrow> u32 list) \<Rightarrow> u32 list \<Rightarrow> u32 list \<Rightarrow> u32 list go" where
  "generateDataset env little threads sched dest cache = do {
     let dataset = machine_bytes little dest;
     dataset \<leftarrow> go_fold (store_item env little cache)
       (sched (concat (map (thread_rows (of_nat (length dataset)) threads) [0..<threads]))) dataset;
     Some (machine_words little dataset) }"

section \<open>Hashimoto\<close>

definition mix_access :: "(u32 \<Rightarrow> u32 list go) \<Rightarrow> u32 \<Rightarrow> u32 \<Rightarrow> nat \<Rightarrow> u32 list \<times> u32 list \<Rightarrow> (u32 list \<times> u32 list) go" where
  "mix_access lookup rows seedHead i = (\<lambda>(mix, temp).
     if rows = 0 then None
     else do {
       let parent = fnv (of_nat i XOR seedHead) (mix ! (i mod 32)) mod rows;
       d0 \<leftarrow> lookup (2 * parent);
       let n0 = min 32 (length d0);
       let temp = take n0 d0 @ drop n0 temp;
       d1 \<leftarrow> lookup (2 * parent + 1);
       let n1 = min 16 (length d1);
       let temp = take 16 temp @ take n1 d1 @ drop (16 + n1) temp;
       mix \<leftarrow> fnvHash mix temp;
       Some (mix, temp) })"

definition compress_mix :: "u32 list \<Rightarrow> u32 list" where
  "compress_mix mix =
     take 8 (fold (\<lambda>k m. m[k := fnv (fnv (fnv (m ! (4 * k)) (m ! (4 * k + 1))) (m ! (4 * k + 2))) (m ! (4 * k + 3))])
       [0..<8] mix)"

definition hashimoto :: "pow_env \<Rightarrow> bytes \<Rightarrow> u64 \<Rightarrow> u64 \<Rightarrow> (u32 \<Rightarrow> u32 list go) \<Rightarrow> (bytes \<times> bytes) go" where
  "hashimoto env hash nonce sz lookup = do {
     let rows = (ucast (sz div 128) :: u32);
     let seed = take 40 hash @ drop (length hash) (replicate 40 0);
     let seed = Keccak512 env (take 32 seed @ PutUint64 nonce);
     seedHead \<leftarrow> Uint32 seed;
     mix \<leftarrow> those (map (\<lambda>i. Uint32 (drop (i mod 16 * 4) seed)) [0..<32]);
     (mix, _) \<leftarrow> go_fold (mix_access lookup rows seedHead) [0..<64] (mix, replicate 32 0);
     let digest = concat (map PutUint32 (compress_mix mix));
     Some (digest, Keccak256 env (seed @ digest)) }"

definition light_lookup :: "pow_env \<Rightarrow> u32 list \<Rightarrow> u32 \<Rightarrow> u32 list go" where
  "light_lookup env cache index = do {
     rawData \<leftarrow> generateDatasetItem env cache index;
     those (map (\<lambda>i. Uint32 (drop (i * 4) rawData)) [0..<length rawData div 4]) }"

definition hashimotoLight :: "pow_env \<Rightarrow> u64 \<Rightarrow> u32 list \<Rightarrow> bytes \<Rightarrow> u64 \<Rightarrow> (bytes \<times> bytes) go" where
  "hashimotoLight env sz cache hash nonce = hashimoto env hash nonce sz (light_lookup env cache)"

definition hashimotoFull :: "pow_env \<Rightarrow> u32 list \<Rightarrow> bytes \<Rightarrow> u64 \<Rightarrow> (bytes \<times> bytes) go" where
  "hashimotoFull env dataset hash nonce =
     hashimoto env hash nonce (of_nat (length dataset) * 4)
       (\<lambda>index. let offset = index * 16 in slice32 dataset offset (offset + 16))"

section \<open>Loops\<close>

lemma go_fold_upt:
  assumes "P 0 s" "\<And>i s. i < n \<Longrightarrow> P i s \<Longrightarrow> \<exists>s'. f i s = Some s' \<and> P (Suc i) s'"
  shows "\<exists>s'. go_fold f [0..<n] s = Some s' \<and> P n s'"
proof -
  have "\<exists>s'. go_fold f [k..<n] s = Some s' \<and> P n s'" if "P k s" "k \<le> n" for k s
    using that
  proof (induction "n - k" arbitrary: k s)
    case (Suc m)
    then have k: "k < n" by linarith
    from assms(2) [OF k Suc.prems(1)] obtain s' where s': "f k s = Some s'" "P (Suc k) s'" by blast
    have "m = n - Suc k" using Suc.hyps(2) by linarith
    from Suc.hyps(1) [OF this s'(2)] k s'(1) show ?case by (simp add: upt_conv_Cons)
  qed simp
  from this [OF assms(1)] show ?thesis by simp
qed

lemma go_fold_inv:
  assumes "P s" "\<And>x s. x \<in> set xs \<Longrightarrow> P s \<Longrightarrow> \<exists>s'. f x s = Some s' \<and> P s'"
  shows "\<exists>s'. go_fold f xs s = Some s' \<and> P s'"
  using assms
proof (induction xs arbitrary: s)
  case (Cons x xs)
  obtain s' where s': "f x s = Some s'" "P s'" using Cons.prems(2) [of x s] Cons.prems(1) by auto
  from Cons.IH [OF s'(2)] Cons.prems(2) s'(1) show ?case by auto
qed simp

lemma go_fold_cong:
  assumes "P s" "\<And>x s. x \<in> set xs \<Longrightarrow> P s \<Longrightarrow> f x s = g x s" "\<And>x s s'. P s \<Longrightarrow> f x s = Some s' \<Longrightarrow> P s'"
  shows "go_fold f xs s = go_fold g xs s"
  using assms(1,2)
proof (induction xs arbitrary: s)
  case (Cons x xs)
  have "f x s = g x s" using Cons.prems by simp
  moreover have "go_fold f xs s' = go_fold g xs s'" if "f x s = Some s'" for s'
    using Cons.IH [of s'] Cons.prems assms(3) that by simp
  ultimately show ?case by (cases "g x s") auto
qed simp

lemma those_map_Some: "(\<forall>x\<in>set xs. f x = Some (g x)) \<Longrightarrow> those (map f xs) = Some (map g xs)"
  by (induction xs) auto

section \<open>Byte order\<close>

lemma length_PutUint32 [simp]: "length (PutUint32 v) = 4" "length (PutUint64 w) = 8"
  by (simp_all add: PutUint32_def PutUint64_def)

lemma bit_byte_at: "bit (push_bit k (ucast (b :: 8 word)) :: u32) n \<longleftrightarrow> n < 32 \<and> k \<le> n \<and> n - k < 8 \<and> bit b (n - k)"
  using bit_imp_le_length [of b "n - k"] by (auto simp: bit_simps)

lemma bit_of_bytes:
  assumes "n < 32"
  shows "bit (of_bytes b) n \<longleftrightarrow> bit (b ! (n div 8)) (n mod 8)"
proof -
  have e: "bit (of_bytes b) n \<longleftrightarrow> (\<exists>k<4. 8 * k \<le> n \<and> n - 8 * k < 8 \<and> bit (b ! k) (n - 8 * k))"
  proof -
    have b0: "bit (ucast (b ! 0) :: u32) n \<longleftrightarrow> n < 8 \<and> bit (b ! 0) n"
      using assms bit_imp_le_length [of "b ! 0" n] by (auto simp: bit_simps)
    have "bit (of_bytes b) n \<longleftrightarrow> (0 \<le> n \<and> n - 0 < 8 \<and> bit (b ! 0) (n - 0)) \<or> (8 \<le> n \<and> n - 8 < 8 \<and> bit (b ! 1) (n - 8))
        \<or> (16 \<le> n \<and> n - 16 < 8 \<and> bit (b ! 2) (n - 16)) \<or> (24 \<le> n \<and> n - 24 < 8 \<and> bit (b ! 3) (n - 24))"
      using assms unfolding of_bytes_def bit_or_iff bit_byte_at b0 by simp
    moreover have "(\<exists>k<4. P k) \<longleftrightarrow> P 0 \<or> P 1 \<or> P 2 \<or> P 3" for P :: "nat \<Rightarrow> bool"
      by (simp add: numeral_nat less_Suc_eq) blast
    ultimately show ?thesis by simp
  qed
  have k: "8 * k \<le> n \<and> n - 8 * k < 8 \<and> bit (b ! k) (n - 8 * k) \<longleftrightarrow> k = n div 8 \<and> bit (b ! k) (n mod 8)" for k
  proof -
    have "8 * k \<le> n \<and> n - 8 * k < 8 \<longleftrightarrow> k = n div 8" using div_nat_eqI [of 8 k n] by auto
    moreover have "n - 8 * (n div 8) = n mod 8" by (simp add: minus_mult_div_eq_mod)
    ultimately show ?thesis by auto
  qed
  show ?thesis using assms unfolding e k by auto
qed

lemma PutUint32_nth: "k < 4 \<Longrightarrow> PutUint32 v ! k = ucast (drop_bit (8 * k) v)"
  by (auto simp: PutUint32_def numeral_nat less_Suc_eq)

lemma of_PutUint32 [simp]: "of_bytes (PutUint32 v) = v"
proof (rule bit_word_eqI)
  fix n assume "n < LENGTH(32)"
  then have n: "n < 32" "n div 8 < 4" "8 * (n div 8) + n mod 8 = n" by auto
  then show "bit (of_bytes (PutUint32 v)) n = bit v n"
    unfolding bit_of_bytes [OF n(1)] PutUint32_nth [OF n(2)] by (simp add: bit_simps)
qed

lemma PutUint32_of:
  assumes "length b = 4"
  shows "PutUint32 (of_bytes b) = b"
proof (rule nth_equalityI)
  fix k assume "k < length (PutUint32 (of_bytes b))"
  then have k: "k < 4" by simp
  show "PutUint32 (of_bytes b) ! k = b ! k"
    unfolding PutUint32_nth [OF k]
  proof (rule bit_word_eqI)
    fix n assume n: "n < LENGTH(8)"
    then have "8 * k + n < 32" "(8 * k + n) div 8 = k" "(8 * k + n) mod 8 = n" using k by auto
    then show "bit (ucast (drop_bit (8 * k) (of_bytes b)) :: 8 word) n = bit (b ! k) n"
      using n bit_of_bytes [of "8 * k + n" b] by (simp add: bit_simps)
  qed
qed (use assms in simp)

section \<open>Memory seen as words\<close>

lemma length_machine [simp]: "length (machine_bytes little ws) = 4 * length ws" "length (machine_words little bs) = length bs div 4"
  by (simp_all add: machine_bytes_def machine_words_def length_concat o_def if_distrib [of length] sum_list_triv cong: if_cong)

lemma machine_words_nth:
  "k < length bs div 4 \<Longrightarrow> machine_words little bs ! k = of_bytes ((if little then id else rev) (take 4 (drop (4 * k) bs)))"
  by (simp add: machine_words_def Let_def)

text \<open>A row of 16 words is a row of 64 bytes.\<close>

lemma machine_row:
  assumes "64 * i + 64 \<le> length bs"
  shows "take 16 (drop (16 * i) (machine_words little bs)) = machine_words little (take 64 (drop (64 * i) bs))"
proof (rule nth_equalityI)
  fix k assume "k < length (take 16 (drop (16 * i) (machine_words little bs)))"
  then have k: "k < 16" by simp
  moreover have "take 4 (drop (4 * k) (take 64 (drop (64 * i) bs))) = take 4 (drop (4 * (16 * i + k)) bs)"
    using k by (simp add: drop_take min_def ac_simps)
  ultimately show "take 16 (drop (16 * i) (machine_words little bs)) ! k = machine_words little (take 64 (drop (64 * i) bs)) ! k"
    using assms by (simp add: machine_words_nth)
qed (use assms in simp)

lemma Uint32_words:
  assumes "i < length bs div 4"
  shows "Uint32 (drop (i * 4) bs) = Some (machine_words True bs ! i)"
  using assms by (simp add: Uint32_def machine_words_nth mult.commute)

lemma read_words: "those (map (\<lambda>i. Uint32 (drop (i * 4) bs)) [0..<length bs div 4]) = Some (machine_words True bs)"
proof -
  have "those (map (\<lambda>i. Uint32 (drop (i * 4) bs)) [0..<length bs div 4]) = Some (map (\<lambda>i. machine_words True bs ! i) [0..<length bs div 4])"
    by (rule those_map_Some) (simp add: Uint32_words)
  also have "map (\<lambda>i. machine_words True bs ! i) [0..<length bs div 4] = machine_words True bs"
    by (rule nth_equalityI) simp_all
  finally show ?thesis .
qed

definition swapped :: "bytes \<Rightarrow> nat \<Rightarrow> bytes \<Rightarrow> bool" where
  "swapped b i c \<longleftrightarrow> length c = length b
     \<and> (\<forall>k<length b div 4. take 4 (drop (4 * k) c) = (if k < i then rev else id) (take 4 (drop (4 * k) b)))"

lemma swapped_step:
  assumes "length b = 4 * n" "i < n" "swapped b i c"
  shows "\<exists>c'. Option.bind (Uint32 (drop (4 * i) c)) (\<lambda>w. Some (take (4 * i) c @ rev (PutUint32 w) @ drop (4 * i + 4) c)) = Some c'
    \<and> swapped b (Suc i) c'"
proof -
  let ?c = "take (4 * i) c @ rev (take 4 (drop (4 * i) c)) @ drop (4 * i + 4) c"
  have l: "length c = 4 * n" "4 * i + 4 \<le> length c" using assms by (auto simp: swapped_def)
  then have "Option.bind (Uint32 (drop (4 * i) c)) (\<lambda>w. Some (take (4 * i) c @ rev (PutUint32 w) @ drop (4 * i + 4) c)) = Some ?c"
    by (simp add: Uint32_def PutUint32_of)
  moreover have "take 4 (drop (4 * k) ?c) = (if k < Suc i then rev else id) (take 4 (drop (4 * k) b))" if k: "k < n" for k
  proof -
    have pk: "take 4 (drop (4 * k) c) = (if k < i then rev else id) (take 4 (drop (4 * k) b))"
      using assms k by (simp add: swapped_def)
    consider "k < i" | "k = i" | "k > i" by linarith
    then show ?thesis
    proof cases
      case 1
      then have "take 4 (drop (4 * k) ?c) = take 4 (drop (4 * k) c)" using l by (simp add: drop_take)
      then show ?thesis using pk 1 by simp
    next
      case 2
      then show ?thesis using pk l assms by simp
    next
      case 3
      then have "take 4 (drop (4 * k) ?c) = take 4 (drop (4 * k) c)" using l by simp
      then show ?thesis using pk 3 by simp
    qed
  qed
  ultimately show ?thesis using l assms(1) by (auto simp: swapped_def)
qed

lemma swap_ok:
  assumes "length b = 4 * n"
  shows "\<exists>b'. swap b = Some b' \<and> length b' = length b \<and> machine_words False b' = machine_words True b"
proof -
  have "\<exists>b'. swap b = Some b' \<and> swapped b n b'"
    using go_fold_upt [of "swapped b" b n, OF _ swapped_step [OF assms]] assms by (simp add: swap_def swapped_def)
  then obtain b' where b': "swap b = Some b'" "swapped b n b'" by blast
  then have "machine_words False b' = machine_words True b"
    using assms by (intro nth_equalityI) (simp_all add: machine_words_nth swapped_def)
  then show ?thesis using b' by (auto simp: swapped_def)
qed

section \<open>Dataset items are computed\<close>

lemma length_makeHasher [simp]: "length (makeHasher h dest data) = length dest"
  by (simp add: makeHasher_def Let_def)

lemma fnvHash_ok: "length mix \<le> length data \<Longrightarrow> \<exists>m. fnvHash mix data = Some m \<and> length m = length mix"
  by (simp add: fnvHash_def)

definition cache_ok :: "u32 list \<Rightarrow> bool" where
  "cache_ok cache \<longleftrightarrow> 16 \<le> length cache \<and> length cache < 2 ^ 32"

lemma cache_rows:
  assumes "cache_ok cache"
  shows "unat (of_nat (length cache div 16) :: u32) = length cache div 16" "of_nat (length cache div 16) \<noteq> (0 :: u32)"
proof -
  have "length cache div 16 < 2 ^ 32" using assms div_le_dividend [of "length cache" 16] unfolding cache_ok_def by linarith
  then show u: "unat (of_nat (length cache div 16) :: u32) = length cache div 16" by (simp add: unat_of_nat)
  have "0 < length cache div 16" using assms by (simp add: cache_ok_def div_greater_zero_iff)
  then show "of_nat (length cache div 16) \<noteq> (0 :: u32)" using u by auto
qed

lemma unat_row: "unat (q * 16 + of_nat i :: u32) = (unat q * 16 + i) mod 2 ^ 32"
  by (simp add: unat_word_ariths unat_of_nat mod_simps)

lemma row_word:
  assumes "cache_ok cache" "i < 16"
  shows "uint ((p mod of_nat (length cache div 16)) * 16 + of_nat i :: u32) = 16 * uint (p mod of_nat (length cache div 16)) + int i"
    "16 * uint (p mod of_nat (length cache div 16) :: u32) + int i < int (length cache)"
proof -
  let ?r = "of_nat (length cache div 16) :: u32" and ?q = "p mod of_nat (length cache div 16) :: u32"
  have "0 < length cache div 16" using assms(1) by (simp add: cache_ok_def div_greater_zero_iff)
  then have "unat ?q < length cache div 16" using cache_rows(1) [OF assms(1)] by (simp add: unat_mod)
  then have lt: "16 * unat ?q + i < length cache" using assms(2) by linarith
  have "unat (?q * 16 + of_nat i) = (unat ?q * 16 + i) mod 2 ^ 32" by (rule unat_row)
  also have "\<dots> = unat ?q * 16 + i" using lt assms(1) by (intro mod_less) (simp add: cache_ok_def)
  finally have "unat (?q * 16 + of_nat i) = 16 * unat ?q + i" by simp
  then show "uint (?q * 16 + of_nat i) = 16 * uint ?q + int i" unfolding uint_nat by simp
  show "16 * uint ?q + int i < int (length cache)" using lt unfolding uint_nat by linarith
qed

lemma mix_parent_ok:
  assumes "cache_ok cache" "length m = 16"
  shows "\<exists>m'. mix_parent cache (of_nat (length cache div 16)) index i m = Some m' \<and> length m' = 16"
proof -
  let ?q = "fnv (index XOR of_nat i) (m ! (i mod 16)) mod of_nat (length cache div 16) :: u32"
  have q: "uint (?q * 16) = 16 * uint ?q" "16 * uint ?q + 15 < int (length cache)"
    using row_word [OF assms(1), of 0] row_word [OF assms(1), of 15] by simp_all
  then have "slice_from cache (uint (?q * 16)) = Some (drop (nat (16 * uint ?q)) cache)" by (simp add: slice_from_def)
  moreover have "length m \<le> length (drop (nat (16 * uint ?q)) cache)" using q(2) assms(2) uint_ge_0 [of ?q] unfolding length_drop by linarith
  then obtain m' where "fnvHash m (drop (nat (16 * uint ?q)) cache) = Some m'" "length m' = 16" using fnvHash_ok assms(2) by metis
  ultimately show ?thesis by (simp add: mix_parent_def)
qed

lemma generateDatasetItem_ok:
  assumes "cache_ok cache"
  shows "\<exists>item. generateDatasetItem env cache index = Some item \<and> length item = 64"
proof -
  let ?r = "of_nat (length cache div 16) :: u32"
  let ?row = "map (\<lambda>i. cache ! nat (uint ((index mod ?r) * 16 + of_nat i))) [0..<16]"
  have row: "those (map (\<lambda>i. slice_at cache (uint ((index mod ?r) * 16 + of_nat i))) [0..<16]) = Some ?row"
    by (rule those_map_Some) (simp add: slice_at_def row_word [OF assms])
  let ?m0 = "concat (map PutUint32 ((hd ?row XOR index) # tl ?row))"
  let ?m1 = "makeHasher (Keccak512 env) ?m0 ?m0"
  have l: "length (concat (map PutUint32 ws)) = 4 * length ws" for ws by (simp add: length_concat o_def sum_list_triv)
  then have "length ?m1 = 64" by simp
  then have im: "those (map (\<lambda>i. Uint32 (drop (i * 4) ?m1)) [0..<16]) = Some (machine_words True ?m1)" "length (machine_words True ?m1) = 16"
    using read_words [of ?m1] by simp_all
  obtain m where m: "go_fold (mix_parent cache ?r index) [0..<256] (machine_words True ?m1) = Some m" "length m = 16"
    using go_fold_inv [of "\<lambda>m. length m = 16" _ "[0..<256]" "mix_parent cache ?r index", OF im(2)] mix_parent_ok [OF assms] by blast
  have "generateDatasetItem env cache index = Some (makeHasher (Keccak512 env) (concat (map PutUint32 m)) (concat (map PutUint32 m)))"
    unfolding generateDatasetItem_def Let_def row using cache_rows(2) [OF assms] im(1) m(1) by simp
  then show ?thesis using m(2) l by simp
qed

lemma light_lookup_item:
  "generateDatasetItem env cache index = Some item \<Longrightarrow> light_lookup env cache index = Some (machine_words True item)"
  by (simp add: light_lookup_def read_words)

end
