(* ===== verification/Pow_Dataset.thy ===== *)
theory Pow_Dataset
  imports Pow_Hash
begin

unbundle bit_operations_syntax

text \<open>
  The properties of the proof-of-work hash: the goroutines of \<open>generateDataset\<close> fill the dataset
  with the items that verification computes from the cache, so that \<open>hashimotoFull\<close> and
  \<open>hashimotoLight\<close> agree, up to the size at which the 32-bit row offset wraps; the cache is the same
  on every machine.
\<close>

section \<open>The dataset is filled\<close>

text \<open>What a goroutine stores: the item in the machine's byte order.\<close>

lemma stored_item:
  assumes "cache_ok cache"
  shows "\<exists>item bs. generateDatasetItem env cache index = Some item \<and> (if little then Some item else swap item) = Some bs
    \<and> length bs = 64 \<and> machine_words little bs = machine_words True item"
proof -
  obtain item where item: "generateDatasetItem env cache index = Some item" "length item = 64"
    using generateDatasetItem_ok [OF assms] by blast
  then show ?thesis using swap_ok [of item 16] by (cases little) auto
qed

text \<open>The offset of a row in bytes is a \<open>uint32\<close> product.\<close>

lemma row_offset: "unat (index * 64 :: u32) = 64 * unat index mod 2 ^ 32"
  by (simp add: unat_word_ariths mult.commute)

lemma row_offset_bound: "unat (index * 64 :: u32) + 64 \<le> 2 ^ 32"
proof -
  have "64 * unat index mod 2 ^ 32 = 64 * (unat index mod 2 ^ 26)"
    using mult_mod_right [of 64 "unat index" "2 ^ 26"] by simp
  moreover have "unat index mod 2 ^ 26 < 2 ^ 26" by simp
  ultimately show ?thesis unfolding row_offset by simp
qed

lemma unat_narrow: "unat (w :: u64) < 2 ^ 32 \<Longrightarrow> unat (ucast w :: u32) = unat w"
  by (simp add: unsigned_ucast_eq unsigned_take_bit_eq take_bit_nat_eq_self)

lemma store_item_ok:
  assumes "cache_ok cache" "unat (index * 64 :: u32) + 64 \<le> length ds" "length ds < 2 ^ 37" "6400 \<le> length ds"
  shows "\<exists>item bs. generateDatasetItem env cache index = Some item \<and> length bs = 64 \<and> machine_words little bs = machine_words True item
    \<and> store_item env little cache index ds = Some (take (unat (index * 64)) ds @ bs @ drop (unat (index * 64) + 64) ds)"
proof -
  obtain item bs where b: "generateDatasetItem env cache index = Some item" "(if little then Some item else swap item) = Some bs"
    "length bs = 64" "machine_words little bs = machine_words True item"
    using stored_item [OF assms(1)] by blast
  let ?n = "of_nat (length ds) div (64 :: u64) div 100"
  have n: "unat ?n = length ds div 64 div 100" using assms(3) by (simp add: unat_div unat_of_nat)
  moreover have "length ds div 64 div 100 < 2 ^ 32" using assms(3) by (simp add: div_mult2_eq [symmetric] less_mult_imp_div_less)
  moreover have "0 < length ds div 64 div 100" using assms(4) by (simp add: div_mult2_eq [symmetric] div_greater_zero_iff)
  ultimately have "unat (ucast ?n :: u32) \<noteq> 0" by (simp add: unat_narrow)
  then have p: "(ucast ?n :: u32) \<noteq> 0" by auto
  have l: "length (take (unat (index * 64)) ds @ bs @ drop (unat (index * 64) + 64) ds) = length ds" using assms(2) b(3) by simp
  have "store_item env little cache index ds = Some (take (unat (index * 64)) ds @ bs @ drop (unat (index * 64) + 64) ds)"
    using b assms(2) p l unfolding store_item_def Let_def by (simp add: min_absorb1)
  then show ?thesis using b by blast
qed

text \<open>Whatever the order, every stored row holds its item; rows that are not stored keep their bytes.\<close>

definition filled :: "pow_env \<Rightarrow> bool \<Rightarrow> u32 list \<Rightarrow> u32 set \<Rightarrow> bytes \<Rightarrow> bool" where
  "filled env little cache S ds \<longleftrightarrow> (\<forall>i\<in>S. \<exists>item. generateDatasetItem env cache i = Some item
     \<and> machine_words little (take 64 (drop (64 * unat i) ds)) = machine_words True item)"

lemma other_row:
  assumes "i \<noteq> j" "64 * j + 64 \<le> length ds" "length bs = 64"
  shows "take 64 (drop (64 * i) (take (64 * j) ds @ bs @ drop (64 * j + 64) ds)) = take 64 (drop (64 * i) ds)"
proof (cases "i < j")
  case True
  then have "64 * i + 64 \<le> 64 * j" by simp
  then show ?thesis using assms by (simp add: drop_take)
next
  case False
  then have "64 * j + 64 \<le> 64 * i" using assms(1) by simp
  then show ?thesis using assms by (simp add: drop_take)
qed

lemma fill_all:
  assumes "cache_ok cache" "6400 \<le> n" "n \<le> 2 ^ 32"
  shows "\<forall>i\<in>set is. 64 * unat i + 64 \<le> n \<Longrightarrow> length ds = n \<Longrightarrow> filled env little cache S ds \<Longrightarrow>
    \<exists>ds'. go_fold (store_item env little cache) is ds = Some ds' \<and> length ds' = n \<and> filled env little cache (S \<union> set is) ds'"
proof (induction "is" arbitrary: ds S)
  case (Cons i "is")
  have o: "unat (i * 64) = 64 * unat i" "64 * unat i + 64 \<le> length ds"
    using Cons.prems(1,2) assms(3) by (simp_all add: row_offset)
  then obtain item bs where b: "generateDatasetItem env cache i = Some item" "length bs = 64" "machine_words little bs = machine_words True item"
    "store_item env little cache i ds = Some (take (64 * unat i) ds @ bs @ drop (64 * unat i + 64) ds)"
    using store_item_ok [OF assms(1), of i ds env little] Cons.prems(2) assms(2,3) by auto
  let ?ds = "take (64 * unat i) ds @ bs @ drop (64 * unat i + 64) ds"
  have "filled env little cache (insert i S) ?ds"
    unfolding filled_def
  proof
    fix j assume j: "j \<in> insert i S"
    show "\<exists>item. generateDatasetItem env cache j = Some item
        \<and> machine_words little (take 64 (drop (64 * unat j) ?ds)) = machine_words True item"
    proof (cases "j = i")
      case True
      then show ?thesis using b o(2) by simp
    next
      case False
      then have "unat j \<noteq> unat i" using unsigned_word_eqI by blast
      from other_row [OF this o(2) b(2)] show ?thesis using j False Cons.prems(3) by (auto simp: filled_def)
    qed
  qed
  moreover have "length ?ds = n" using o(2) b(2) Cons.prems(2) by simp
  ultimately obtain ds' where "go_fold (store_item env little cache) is ?ds = Some ds'" "length ds' = n" "filled env little cache (insert i S \<union> set is) ds'"
    using Cons.IH [of ?ds "insert i S"] Cons.prems(1) by auto
  then show ?case using b(4) by simp
qed simp

section \<open>The goroutines cover the dataset\<close>

lemma batch_covers:
  fixes t sz :: nat
  assumes "0 < t"
  shows "sz \<le> 64 * (t * ((sz + 64 * t - 1) div (64 * t)))" "64 * (t * ((sz + 64 * t - 1) div (64 * t))) < sz + 64 * t"
proof -
  let ?d = "64 * t" and ?x = "sz + 64 * t - 1"
  have "?d * (?x div ?d) + ?x mod ?d = ?x" by (rule mult_div_mod_eq)
  moreover have "?x mod ?d < ?d" using assms by simp
  moreover have "?d * (?x div ?d) = 64 * (t * (?x div ?d))" by (simp only: mult.assoc)
  ultimately show "sz \<le> 64 * (t * (?x div ?d))" "64 * (t * (?x div ?d)) < sz + 64 * t"
    using assms by linarith+
qed

lemma thread_rows_eq:
  assumes "unat sz \<le> 2 ^ 32" "0 < t" "t \<le> 2 ^ 16" "i < t"
  shows "thread_rows sz t i = (let b = (unat sz + 64 * t - 1) div (64 * t) in map of_nat [i * b..<min (i * b + b) (unat sz div 64)])"
proof -
  define b where "b = (unat sz + 64 * t - 1) div (64 * t)"
  have tb: "64 * (t * b) < unat sz + 64 * t" using batch_covers(2) [OF assms(2)] by (simp add: b_def)
  have ib: "i * b + b \<le> t * b" using assms(4) mult_le_mono1 [of "Suc i" t b] by simp
  have small: "t * b < 2 ^ 27" using tb assms(1,3) by simp
  then have b27: "b < 2 ^ 27" using assms(2) by (metis le_less_trans mult_le_mono1 nat_mult_1 Suc_leI One_nat_def)
  have "unat (64 * of_nat t :: u64) = 64 * t" using assms(3) by (simp add: unat_word_ariths unat_of_nat)
  then have "unat ((sz + 64 * of_nat t - 1) div (64 * of_nat t) :: u64) = b"
    using assms(1-3) by (simp add: b_def unat_div unat_sub_if' unat_word_ariths unat_of_nat)
  then have batch: "unat (ucast ((sz + 64 * of_nat t - 1) div (64 * of_nat t) :: u64) :: u32) = b"
    using unat_narrow b27 by simp
  let ?w = "ucast ((sz + 64 * of_nat t - 1) div (64 * of_nat t) :: u64) :: u32"
  have first: "unat (of_nat i * ?w) = i * b" using batch ib small assms(3,4) by (simp add: unat_word_ariths unat_of_nat)
  have lim: "unat (of_nat i * ?w + ?w) = i * b + b" using first batch ib small by (simp add: unat_word_ariths)
  have "unat (sz div 64) = unat sz div 64" by (simp add: unat_div)
  then have rows: "unat (ucast (sz div 64) :: u32) = unat sz div 64"
    using unat_narrow [of "sz div 64"] assms(1) by simp
  show ?thesis unfolding thread_rows_def Let_def b_def [symmetric]
    by (simp add: word_less_nat_alt first lim rows min_def not_less)
qed

lemma rows_covered:
  assumes "unat sz \<le> 2 ^ 32" "0 < t" "t \<le> 2 ^ 16"
  shows "set (concat (map (thread_rows sz t) [0..<t])) = {i. unat i < unat sz div 64}"
proof -
  define b where "b = (unat sz + 64 * t - 1) div (64 * t)"
  have tb: "unat sz \<le> 64 * (t * b)" using batch_covers(1) [OF assms(2)] by (simp add: b_def)
  have r: "set (thread_rows sz t i) = of_nat ` {i * b..<min (i * b + b) (unat sz div 64)}" if "i < t" for i
    using thread_rows_eq [OF assms that] by (simp add: b_def Let_def)
  have n: "unat (of_nat k :: u32) = k" if "k < unat sz div 64" for k using that assms(1) by (simp add: unat_of_nat)
  have "w \<in> (\<Union>i<t. of_nat ` {i * b..<min (i * b + b) (unat sz div 64)})" if w: "unat w < unat sz div 64" for w :: u32
  proof -
    let ?i = "unat w div b"
    have "0 < b" using w tb by (cases "b = 0") auto
    moreover have "unat w < t * b" using w tb by linarith
    ultimately have "?i < t" "?i * b \<le> unat w" "unat w < ?i * b + b"
      using dividend_less_div_times [of b "unat w"] by (simp_all add: less_mult_imp_div_less div_times_less_eq_dividend add.commute)
    moreover have "w = of_nat (unat w)" by simp
    ultimately show ?thesis using w by (intro UN_I [of ?i] image_eqI [of _ _ "unat w"]) simp_all
  qed
  moreover have "unat w < unat sz div 64" if "w \<in> (\<Union>i<t. of_nat ` {i * b..<min (i * b + b) (unat sz div 64)})" for w :: u32
    using that n by auto
  ultimately show ?thesis using r by (auto simp: atLeast0LessThan)
qed

lemma generateDataset_rows:
  assumes "cache_ok cache" "6400 \<le> 4 * length dest" "4 * length dest \<le> 2 ^ 32" "0 < t" "t \<le> 2 ^ 16" "\<forall>xs. mset (sched xs) = mset xs"
  shows "\<exists>ds. generateDataset env little t sched dest cache = Some ds \<and> length ds = length dest
    \<and> (\<forall>i. 16 * unat i + 16 \<le> length dest \<longrightarrow> (\<exists>item. generateDatasetItem env cache i = Some item
          \<and> take 16 (drop (16 * unat i) ds) = machine_words True item))"
proof -
  let ?b = "machine_bytes little dest"
  let ?is = "sched (concat (map (thread_rows (of_nat (length ?b)) t) [0..<t]))"
  have sz: "unat (of_nat (length ?b) :: u64) = 4 * length dest"
    using assms(3) unfolding length_machine unat_of_nat by simp
  have "set ?is = set (concat (map (thread_rows (of_nat (length ?b)) t) [0..<t]))"
    using assms(6) mset_eq_setD by blast
  also have "\<dots> = {i. unat i < 4 * length dest div 64}"
    using rows_covered [of "of_nat (length ?b)" t] assms(3-5) unfolding sz by simp
  finally have s: "set ?is = {i. 64 * unat i + 64 \<le> 4 * length dest}" by auto
  have "\<forall>i\<in>set ?is. 64 * unat i + 64 \<le> 4 * length dest" unfolding s by simp
  moreover have "filled env little cache {} ?b" by (simp add: filled_def)
  ultimately obtain bs where bs: "go_fold (store_item env little cache) ?is ?b = Some bs" "length bs = 4 * length dest"
    "filled env little cache (set ?is) bs"
    using fill_all [OF assms(1-3) _ length_machine(1), of ?is env little "{}" little] unfolding Un_empty_left by blast
  have "\<exists>item. generateDatasetItem env cache i = Some item \<and> take 16 (drop (16 * unat i) (machine_words little bs)) = machine_words True item"
    if "16 * unat i + 16 \<le> length dest" for i
  proof -
    have "64 * unat i + 64 \<le> length bs" using that bs(2) by simp
    note row = machine_row [OF this, of little]
    have "i \<in> set ?is" using that unfolding s by simp
    then show ?thesis using bs(3) unfolding filled_def row by blast
  qed
  then show ?thesis using bs by (simp add: generateDataset_def)
qed

section \<open>Mining and verification agree\<close>

lemma mix_access_cong:
  assumes "unat rows \<le> 2 ^ 31" "\<And>i. unat i < 2 * unat rows \<Longrightarrow> lookup i = lookup' i"
  shows "mix_access lookup rows seedHead i = mix_access lookup' rows seedHead i"
proof (cases "rows = 0")
  case False
  have "lookup (2 * (p mod rows)) = lookup' (2 * (p mod rows)) \<and> lookup (2 * (p mod rows) + 1) = lookup' (2 * (p mod rows) + 1)" for p
  proof -
    have p: "unat (p mod rows) < unat rows" using False by (simp add: unat_mod unat_gt_0)
    then have "unat (2 * (p mod rows)) = 2 * unat (p mod rows)" "unat (2 * (p mod rows) + 1) = 2 * unat (p mod rows) + 1"
      using assms(1) by (simp_all add: unat_word_ariths)
    then show ?thesis using assms(2) p by simp
  qed
  then show ?thesis unfolding mix_access_def Let_def by (simp add: fun_eq_iff)
qed (simp add: mix_access_def fun_eq_iff)

lemma hashimoto_cong:
  assumes "unat sz < 2 ^ 37" "\<And>i. unat i < 2 * (unat sz div 128) \<Longrightarrow> lookup i = lookup' i"
  shows "hashimoto env hash nonce sz lookup = hashimoto env hash nonce sz lookup'"
proof -
  have d: "unat (sz div 128) = unat sz div 128" "unat sz div 128 < 2 ^ 30" using assms(1) by (simp_all add: unat_div less_mult_imp_div_less)
  then have "unat (ucast (sz div 128) :: u32) = unat sz div 128" using unat_narrow [of "sz div 128"] by simp
  then have "mix_access lookup (ucast (sz div 128)) h = mix_access lookup' (ucast (sz div 128)) h" for h
    using mix_access_cong [of "ucast (sz div 128)" lookup lookup' h] d assms(2) by (simp add: fun_eq_iff)
  then show ?thesis by (simp add: hashimoto_def Let_def)
qed

lemma mix_access_ok:
  assumes "\<And>i. \<exists>d. lookup i = Some d \<and> length d = 16" "rows \<noteq> 0" "length (fst s) = 32 \<and> length (snd s) = 32"
  shows "\<exists>s'. mix_access lookup rows seedHead i s = Some s' \<and> length (fst s') = 32 \<and> length (snd s') = 32"
proof -
  obtain mix temp where s: "s = (mix, temp)" by (cases s)
  let ?p = "fnv (of_nat i XOR seedHead) (mix ! (i mod 32)) mod rows"
  obtain d0 d1 where d: "lookup (2 * ?p) = Some d0" "length d0 = 16" "lookup (2 * ?p + 1) = Some d1" "length d1 = 16"
    using assms(1) by metis
  let ?t = "take 16 (d0 @ drop 16 temp) @ d1 @ drop 32 (d0 @ drop 16 temp)"
  have "length ?t = 32" using assms(3) d s by simp
  then obtain m where "fnvHash mix ?t = Some m" "length m = 32" using fnvHash_ok [of mix ?t] assms(3) s by auto
  then show ?thesis using assms(2,3) d s by (simp add: mix_access_def Let_def)
qed

lemma hashimotoLight_total:
  assumes "pow_laws env" "cache_ok cache" "128 \<le> unat sz" "unat sz < 2 ^ 37"
  shows "\<exists>digest result. hashimotoLight env sz cache hash nonce = Some (digest, result) \<and> length digest = 32 \<and> length result = 32"
proof -
  let ?seed = "Keccak512 env (take 32 (take 40 hash @ drop (length hash) (replicate 40 0)) @ PutUint64 nonce)"
  have l: "length ?seed = 64" using assms(1) by (simp add: pow_laws_def)
  have h: "Uint32 ?seed \<noteq> None" using l by (simp add: Uint32_def)
  then obtain sh where sh: "Uint32 ?seed = Some sh" by blast
  have mx: "those (map (\<lambda>i. Uint32 (drop (i mod 16 * 4) ?seed)) [0..<32]) = Some (map (\<lambda>i. machine_words True ?seed ! (i mod 16)) [0..<32])"
    by (rule those_map_Some) (use l in \<open>simp add: Uint32_words\<close>)
  have lk: "\<exists>d. light_lookup env cache i = Some d \<and> length d = 16" for i
    using generateDatasetItem_ok [OF assms(2), of env i] light_lookup_item [of env cache i] by force
  have "unat (sz div 128) = unat sz div 128" by (simp add: unat_div)
  then have "unat (ucast (sz div 128) :: u32) = unat sz div 128"
    using unat_narrow [of "sz div 128"] assms(4) by (simp add: less_mult_imp_div_less)
  then have r: "(ucast (sz div 128) :: u32) \<noteq> 0" using assms(3) by (metis div_greater_zero_iff less_numeral_extra(3) unat_0 zero_less_numeral)
  obtain m t where m: "go_fold (mix_access (light_lookup env cache) (ucast (sz div 128)) sh) [0..<64]
      (map (\<lambda>i. machine_words True ?seed ! (i mod 16)) [0..<32], replicate 32 0) = Some (m, t)" "length m = 32"
    using go_fold_inv [of "\<lambda>s. length (fst s) = 32 \<and> length (snd s) = 32"
        "(map (\<lambda>i. machine_words True ?seed ! (i mod 16)) [0..<32], replicate 32 0)" "[0..<64]"
        "mix_access (light_lookup env cache) (ucast (sz div 128)) sh"] mix_access_ok [OF lk r] by auto
  have "length (fold f ks m) = length m" if "\<And>k m. length (f k m) = length m" for f :: "nat \<Rightarrow> u32 list \<Rightarrow> u32 list" and ks m
    using that by (induction ks arbitrary: m) simp_all
  then have "length (compress_mix m) = 8" using m(2) by (simp add: compress_mix_def)
  then have "length (concat (map PutUint32 (compress_mix m))) = 32" by (simp add: length_concat o_def sum_list_triv)
  then show ?thesis using sh mx m(1) assms(1) by (simp add: hashimotoLight_def hashimoto_def Let_def pow_laws_def)
qed

lemma full_row:
  assumes "length ds \<le> 2 ^ 30" "16 * unat i + 16 \<le> length ds"
  shows "slice32 ds (i * 16) (i * 16 + 16) = Some (take 16 (drop (16 * unat i) ds))"
proof -
  have "unat (i * 16) = 16 * unat i" "unat (i * 16 + 16) = 16 * unat i + 16"
    using assms by (simp_all add: unat_word_ariths)
  then show ?thesis using assms by (simp add: slice32_def word_le_nat_alt)
qed

lemma full_light:
  assumes "pow_laws env" "cache_ok cache" "6400 \<le> 4 * length dest" "4 * length dest \<le> 2 ^ 32" "0 < t" "t \<le> 2 ^ 16"
    "\<forall>xs. mset (sched xs) = mset xs"
  shows "\<exists>ds. generateDataset env little t sched dest cache = Some ds \<and> length ds = length dest
    \<and> (\<forall>hash nonce. \<exists>digest result. hashimotoFull env ds hash nonce = Some (digest, result)
         \<and> hashimotoLight env (of_nat (4 * length dest)) cache hash nonce = Some (digest, result) \<and> length result = 32)"
proof -
  obtain ds where ds: "generateDataset env little t sched dest cache = Some ds" "length ds = length dest"
    "\<forall>i. 16 * unat i + 16 \<le> length dest \<longrightarrow> (\<exists>item. generateDatasetItem env cache i = Some item
          \<and> take 16 (drop (16 * unat i) ds) = machine_words True item)"
    using generateDataset_rows [OF assms(2-7)] by metis
  let ?sz = "of_nat (4 * length dest) :: u64"
  have sz: "unat ?sz = 4 * length dest" using assms(4) unfolding unat_of_nat by simp
  have "hashimotoFull env ds hash nonce = hashimotoLight env ?sz cache hash nonce" for hash nonce
  proof -
    have "of_nat (length ds) * 4 = ?sz" using ds(2) by simp
    then have "hashimotoFull env ds hash nonce = hashimoto env hash nonce ?sz (\<lambda>i. slice32 ds (i * 16) (i * 16 + 16))"
      by (simp only: hashimotoFull_def Let_def)
    also have "\<dots> = hashimoto env hash nonce ?sz (light_lookup env cache)"
    proof (rule hashimoto_cong)
      fix i :: u32 assume "unat i < 2 * (unat ?sz div 128)"
      then have i: "16 * unat i + 16 \<le> length dest" unfolding sz by linarith
      then show "slice32 ds (i * 16) (i * 16 + 16) = light_lookup env cache i"
        using ds(2,3) full_row [of ds i] light_lookup_item [of env cache i] assms(4) by fastforce
    qed (use sz assms(4) in simp)
    finally show ?thesis by (simp add: hashimotoLight_def)
  qed
  moreover have "\<exists>digest result. hashimotoLight env ?sz cache hash nonce = Some (digest, result) \<and> length result = 32" for hash nonce
    using hashimotoLight_total [OF assms(1,2), of ?sz hash nonce] assms(3,4) sz by auto
  ultimately show ?thesis using ds(1,2) by metis
qed

text \<open>(C18) For a dataset of at most 4 GiB, whatever the machine's byte order, the number of goroutines and the
  order in which they store their rows, generating the dataset returns, and mining on it gives for
  every header hash and nonce the same digest and result as verification from the cache.\<close>

theorem full_light_agree:
  assumes "pow_laws env" "cache_ok cache" "6400 \<le> 4 * length dest" "4 * length dest \<le> 2 ^ 32" "0 < t" "t \<le> 2 ^ 16"
    "\<forall>xs. mset (sched xs) = mset xs"
  shows "\<exists>ds. generateDataset env little t sched dest cache = Some ds \<and> length ds = length dest
    \<and> (\<forall>hash nonce. \<exists>digest result. hashimotoFull env ds hash nonce = Some (digest, result)
         \<and> hashimotoLight env (of_nat (4 * length dest)) cache hash nonce = Some (digest, result))"
  using full_light [OF assms] by metis


definition toy_env :: pow_env where
  "toy_env = \<lparr>Keccak512 = (\<lambda>x. replicate 64 (sum_list x)), Keccak256 = (\<lambda>x. replicate 32 (sum_list x)),
     XORBytes = (\<lambda>d a b. take (length d) (map2 (XOR) a b @ d))\<rparr>"

lemma toy_laws: "pow_laws toy_env"
  by (auto simp: pow_laws_def toy_env_def)

theorem full_light_agree_witness:
  "\<exists>ds digest result. generateDataset toy_env False 3 rev (replicate 1600 0) (map of_nat [0..<32]) = Some ds
     \<and> hashimotoFull toy_env ds [1, 2, 3] 7 = Some (digest, result)
     \<and> hashimotoLight toy_env 6400 (map of_nat [0..<32]) [1, 2, 3] 7 = Some (digest, result)"
proof -
  have "cache_ok (map of_nat [0..<32])" by (simp add: cache_ok_def)
  from full_light_agree [OF toy_laws this, of "replicate 1600 0" 3 rev False] show ?thesis by simp metis
qed

section \<open>Datasets of more than 4 GiB\<close>

lemma machine_chunk: "(\<And>w. length (f w) = 4) \<Longrightarrow> k < length ws \<Longrightarrow> take 4 (drop (4 * k) (concat (map f ws))) = f (ws ! k)"
proof (induction ws arbitrary: k)
  case (Cons w ws)
  then show ?case by (cases k) simp_all
qed simp

lemma machine_round_trip: "machine_words little (machine_bytes little ws) = ws"
proof (rule nth_equalityI)
  fix k assume "k < length (machine_words little (machine_bytes little ws))"
  then have k: "k < length ws" by simp
  then have "take 4 (drop (4 * k) (machine_bytes little ws)) = (if little then id else rev) (PutUint32 (ws ! k))"
    using machine_chunk [of PutUint32 k ws] machine_chunk [of "\<lambda>w. rev (PutUint32 w)" k ws]
    by (cases little) (simp_all add: machine_bytes_def)
  then show "machine_words little (machine_bytes little ws) ! k = ws ! k" using k by (simp add: machine_words_nth)
qed simp

text \<open>(C27) A dataset of more than 4 GiB is not generated: the row offset is computed in 32 bits and wraps, so
  every word from the first 4 GiB on keeps the value the memory had before.\<close>

theorem dataset_wraps:
  assumes "cache_ok cache" "2 ^ 32 < 4 * length dest" "4 * length dest < 2 ^ 37"
  shows "\<exists>ds. generateDataset env little t sched dest cache = Some ds
    \<and> (\<forall>k. 2 ^ 30 \<le> k \<and> k < length dest \<longrightarrow> ds ! k = dest ! k)"
proof -
  let ?b = "machine_bytes little dest"
  let ?is = "sched (concat (map (thread_rows (of_nat (length ?b)) t) [0..<t]))"
  let ?P = "\<lambda>c. length c = length ?b \<and> drop (2 ^ 32) c = drop (2 ^ 32) ?b"
  have "\<exists>c'. store_item env little cache i c = Some c' \<and> ?P c'" if c: "?P c" for i c
  proof -
    let ?o = "unat (i * 64)"
    have o: "?o + 64 \<le> 2 ^ 32" "?o + 64 \<le> length c" using row_offset_bound [of i] c assms(2) by simp_all
    obtain bs where "length bs = 64" "store_item env little cache i c = Some (take ?o c @ bs @ drop (?o + 64) c)"
      using store_item_ok [OF assms(1) o(2), of env little] c assms(2,3) by auto
    moreover have "drop (2 ^ 32) (take ?o c @ bs @ drop (?o + 64) c) = drop (2 ^ 32) c" if "length bs = 64"
      using that o by (simp add: min_absorb2)
    ultimately show ?thesis using c o(2) by simp
  qed
  then obtain c where c: "go_fold (store_item env little cache) ?is ?b = Some c" "?P c"
    using go_fold_inv [of ?P ?b ?is "store_item env little cache"] by blast
  have "machine_words little c ! k = dest ! k" if k: "2 ^ 30 \<le> k" "k < length dest" for k
  proof -
    have d: "drop (4 * k) x = drop (4 * k - 2 ^ 32) (drop (2 ^ 32) x)" for x :: bytes using k(1) by simp
    have "drop (4 * k) c = drop (4 * k) ?b" using c(2) unfolding d by simp
    then have "machine_words little c ! k = machine_words little ?b ! k"
      using c(2) k(2) by (simp add: machine_words_nth)
    then show ?thesis by (simp add: machine_round_trip)
  qed
  then show ?thesis using c(1) by (simp add: generateDataset_def)
qed

theorem dataset_wraps_witness:
  "\<exists>ds. generateDataset toy_env True 8 id (replicate (2 ^ 30 + 32) 0) (map of_nat [0..<32]) = Some ds \<and> ds ! (2 ^ 30 + 1) = 0"
proof -
  have "cache_ok (map of_nat [0..<32])" by (simp add: cache_ok_def)
  from dataset_wraps [OF this, of "replicate (2 ^ 30 + 32) 0" toy_env True 8 id] show ?thesis by auto
qed

section \<open>The cache\<close>

lemma length_hash_at [simp]: "length (hash_at env off data c) = length c"
  by (simp add: hash_at_def)

lemma hash_at_row:
  assumes "pow_laws env" "off + 64 \<le> length c"
  shows "take (off + 64) (hash_at env off data c) = take off c @ Keccak512 env data"
proof -
  have "64 \<le> length c - off" using assms(2) by linarith
  then show ?thesis using assms by (simp add: hash_at_def makeHasher_def Let_def pow_laws_def)
qed

text \<open>The first pass overwrites every row, so nothing of the old memory is left.\<close>

lemma fill_rows_prefix:
  assumes "pow_laws env" "length c = 64 * r" "length d = 64 * r" "k < r"
  shows "let f = (\<lambda>c. fold (\<lambda>i c. hash_at env (64 * i) (take 64 (drop (64 * i - 64) c)) c) [1..<Suc k] (hash_at env 0 seed c))
    in length (f c) = 64 * r \<and> length (f d) = 64 * r \<and> take (64 * Suc k) (f c) = take (64 * Suc k) (f d)"
  using assms(4)
proof (induction k)
  case 0
  then have "64 * 1 \<le> length c" "64 * 1 \<le> length d" using assms(2,3) by simp_all
  then show ?case using hash_at_row [OF assms(1), of 0 c seed] hash_at_row [OF assms(1), of 0 d seed] assms(2,3) by simp
next
  case (Suc k)
  define f where "f = (\<lambda>k c. fold (\<lambda>i c. hash_at env (64 * i) (take 64 (drop (64 * i - 64) c)) c) [1..<Suc k] (hash_at env 0 seed c))"
  have IH: "length (f k c) = 64 * r" "length (f k d) = 64 * r" "take (64 * Suc k) (f k c) = take (64 * Suc k) (f k d)"
    using Suc by (simp_all add: f_def Let_def)
  have st: "f (Suc k) c = hash_at env (64 * Suc k) (take 64 (drop (64 * k) (f k c))) (f k c)" for c by (simp add: f_def)
  have "take 64 (drop (64 * k) x) = drop (64 * k) (take (64 * Suc k) x)" for x :: bytes by (simp add: drop_take)
  then have e: "take 64 (drop (64 * k) (f k c)) = take 64 (drop (64 * k) (f k d))" using IH(3) by simp
  have b: "64 * Suc k + 64 \<le> length (f k c)" "64 * Suc k + 64 \<le> length (f k d)" using IH Suc.prems by simp_all
  have "take (64 * Suc k + 64) (f (Suc k) c) = take (64 * Suc k + 64) (f (Suc k) d)"
    unfolding st hash_at_row [OF assms(1) b(1)] hash_at_row [OF assms(1) b(2)] using IH(3) e by simp
  moreover have "length (f (Suc k) c) = 64 * r" "length (f (Suc k) d) = 64 * r" unfolding st using IH by simp_all
  ultimately show ?case unfolding f_def by (simp add: Let_def)
qed

lemma fill_rows_fresh:
  assumes "pow_laws env" "length c = 64 * r" "length d = 64 * r" "0 < r"
  shows "fill_rows env seed c = fill_rows env seed d \<and> length (fill_rows env seed c) = 64 * r"
proof -
  have r: "Suc (r - 1) = r" "(64 * r + 63) div 64 = r" using assms(4) by simp_all
  then have "length (fill_rows env seed c) = 64 * r" "length (fill_rows env seed d) = 64 * r"
    "take (64 * r) (fill_rows env seed c) = take (64 * r) (fill_rows env seed d)"
    using fill_rows_prefix [OF assms(1-3), of "r - 1" seed] assms(2-4) by (simp_all add: fill_rows_def Let_def)
  then show ?thesis by simp
qed

lemma mix_row_ok:
  assumes "0 < r" "r < 2 ^ 26" "j < r" "length (fst s) = 64 * r"
  shows "\<exists>s'. mix_row env r j s = Some s' \<and> length (fst s') = 64 * r"
proof -
  obtain c t where s: "s = (c, t)" by (cases s)
  have "4 \<le> length (drop (j * 64) c)" using assms s by simp
  then obtain w where w: "Uint32 (drop (j * 64) c) = Some w" by (simp add: Uint32_def)
  have r: "unat (of_nat r :: u32) = r" using assms(2) by (simp add: unat_of_nat)
  then have r0: "of_nat r \<noteq> (0 :: u32)" using assms(1) by auto
  let ?x = "w mod of_nat r"
  have x: "unat ?x < r" using r assms(1) by (simp add: unat_mod)
  then have "unat (?x * 64) = 64 * unat ?x" "unat (?x * 64 + 64) = 64 * unat ?x + 64" "64 * unat ?x + 64 \<le> 64 * r"
    using assms(2) by (simp_all add: unat_word_ariths)
  then have "slice32 c (?x * 64) (?x * 64 + 64) = Some (take 64 (drop (64 * unat ?x) c))"
    using assms(4) s by (simp add: slice32_def word_le_nat_alt)
  then show ?thesis using w r0 assms(4) s by (simp add: mix_row_def Let_def)
qed

text \<open>On memory of whole rows below 4 GiB, generating the verification cache returns, and the words of
  the cache depend neither on the machine's byte order nor on what was in the memory before.\<close>

lemma cache_portable:
  assumes "pow_laws env" "length dest = 16 * r" "length dest' = 16 * r" "0 < r" "r < 2 ^ 26"
  shows "\<exists>cache. generateCache env True dest seed = Some cache \<and> generateCache env False dest' seed = Some cache \<and> length cache = 16 * r"
proof -
  let ?c = "fill_rows env seed (machine_bytes True dest)"
  have "length (machine_bytes True dest) = 64 * r" "length (machine_bytes False dest') = 64 * r" using assms(2,3) by simp_all
  note ff = fill_rows_fresh [OF assms(1) this assms(4), of seed]
  note f = ff [THEN conjunct1, symmetric] ff [THEN conjunct2]
  have "\<exists>s. go_fold (mix_row env r) (concat (replicate 3 [0..<r])) (?c, replicate 64 0) = Some s \<and> length (fst s) = 64 * r"
    by (rule go_fold_inv) (use f(2) mix_row_ok [OF assms(4,5)] in auto)
  then obtain c t where c: "go_fold (mix_row env r) (concat (replicate 3 [0..<r])) (?c, replicate 64 0) = Some (c, t)" "length c = 64 * r"
    by auto
  obtain d where d: "swap c = Some d" "length d = length c" "machine_words False d = machine_words True c"
    using swap_ok [of c "16 * r"] c(2) by auto
  have "generateCache env True dest seed = Some (machine_words True c)" "generateCache env False dest' seed = Some (machine_words True c)"
    using c d(1,3) unfolding generateCache_def Let_def f by simp_all
  then show ?thesis using c(2) by simp
qed

lemma cache_portable_witness:
  "\<exists>cache. generateCache toy_env True (replicate 32 0) [5, 6] = Some cache \<and> generateCache toy_env False (map of_nat [0..<32]) [5, 6] = Some cache"
  using cache_portable [OF toy_laws, of "replicate 32 0" 2 "map of_nat [0..<32]" "[5, 6]"] by auto

end
