(* ===== verification/Engine.thy ===== *)
theory Engine
  imports Chain_Types
begin

text \<open>
  What the consensus engines share: their errors, the chain they read headers from, and the
  batch verification of \<open>VerifyHeaders\<close> (\<open>consensus/ethash/consensus.go\<close>,
  \<open>consensus/pos/consensus.go\<close>), in which workers verify headers in any order and a collector
  hands the results out in the order of the headers.  The locale \<open>header_rule\<close> is what the
  chain relies on an engine for; each engine interprets it.
\<close>

section \<open>Errors and the chain\<close>

datatype engine_error =
    ErrUnknownAncestor | ErrFutureBlock | ErrInvalidNumber
  | ErrLargeBlockTime | ErrZeroBlockTime | ErrExtraTooLong
  | ErrTooManyUncles | ErrDuplicateUncle | ErrUncleIsAncestor | ErrDanglingUncle | ErrUnclesNotAllowed
  | ErrNonceOutOfRange | ErrInvalidDifficulty | ErrInvalidMixDigest | ErrInvalidPoW
  | ErrWrongDifficulty int int | ErrGasLimitTooBig int | ErrGasUsedOverLimit int int | ErrGasLimitStep int int int
  | ErrHeaderExtraData | ErrBlsSig | ErrProposerSig

type_synonym get_header = "hash \<Rightarrow> u64 \<Rightarrow> header option"

section \<open>Verifying a header against its chain\<close>

text \<open>\<open>VerifyHeader\<close>: a known header is accepted at once, one without a known parent refused.\<close>

definition verify_single ::
  "get_header \<Rightarrow> (header \<Rightarrow> header \<Rightarrow> engine_error option) \<Rightarrow> header \<Rightarrow> engine_error option" where
  "verify_single GetHeader verify header =
     (let number = big_Uint64 (h_number header) in
      if GetHeader (h_hash header) number \<noteq> None then None
      else case GetHeader (h_parentHash header) (number - 1) of
          None \<Rightarrow> Some ErrUnknownAncestor
        | Some parent \<Rightarrow> verify header parent)"

text \<open>\<open>verifyHeaderWorker\<close>: inside a batch the parent is the previous header of the batch.\<close>

definition verifyHeaderWorker ::
  "get_header \<Rightarrow> (header \<Rightarrow> header \<Rightarrow> bool \<Rightarrow> engine_error option) \<Rightarrow> header list \<Rightarrow> bool list \<Rightarrow> nat \<Rightarrow> engine_error option" where
  "verifyHeaderWorker GetHeader verify headers seals index =
     (let header = headers ! index;
          parent = (if index = 0 then GetHeader (h_parentHash header) (big_Uint64 (h_number header) - 1)
                    else if h_hash (headers ! (index - 1)) = h_parentHash header
                    then Some (headers ! (index - 1)) else None)
      in case parent of
          None \<Rightarrow> Some ErrUnknownAncestor
        | Some parent \<Rightarrow>
            if GetHeader (h_hash header) (big_Uint64 (h_number header)) \<noteq> None then None
            else verify header parent (seals ! index))"

section \<open>The collector\<close>

text \<open>
  The collector's variables: the next index to hand to a worker, the indices being worked on,
  the indices reported back, the next result to deliver, and the results delivered.
  \<open>errs\<close> is the array the workers write, \<open>errs i\<close> being what the worker for index \<open>i\<close> stores.
\<close>

record 'e collector =
  vh_in :: nat
  vh_working :: "nat list"
  vh_checked :: "bool list"
  vh_out :: nat
  vh_results :: "'e list"
  vh_ended :: bool
  vh_aborted :: bool

definition collector_start :: "nat \<Rightarrow> 'e collector" where
  "collector_start n = \<lparr>vh_in = 0, vh_working = [], vh_checked = replicate n False, vh_out = 0,
     vh_results = [], vh_ended = False, vh_aborted = False\<rparr>"

text \<open>The inner loop: deliver while the next result is there, and stop after the last one.\<close>

function deliver_loop :: "nat \<Rightarrow> (nat \<Rightarrow> 'e) \<Rightarrow> bool list \<Rightarrow> nat \<Rightarrow> 'e list \<Rightarrow> nat \<times> 'e list \<times> bool" where
  "deliver_loop n errs checked out results =
     (if out < length checked \<and> checked ! out
      then if Suc out = n then (out, results @ [errs out], True)
           else deliver_loop n errs checked (Suc out) (results @ [errs out])
      else (out, results, False))"
  by pat_completeness auto
termination
  by (relation "measure (\<lambda>(n, errs, checked, out, results). length checked - out)") auto

declare deliver_loop.simps [simp del]

inductive collector_step :: "nat \<Rightarrow> (nat \<Rightarrow> 'e) \<Rightarrow> 'e collector \<Rightarrow> 'e collector \<Rightarrow> bool"
  for n errs where
  send: "\<not> vh_ended c \<Longrightarrow> vh_in c < n \<Longrightarrow>
     collector_step n errs c (c\<lparr>vh_in := Suc (vh_in c), vh_working := vh_working c @ [vh_in c]\<rparr>)"
| reported: "\<not> vh_ended c \<Longrightarrow> index \<in> set (vh_working c) \<Longrightarrow>
     deliver_loop n errs ((vh_checked c)[index := True]) (vh_out c) (vh_results c) = (out, results, ended) \<Longrightarrow>
     collector_step n errs c (c\<lparr>vh_working := removeAll index (vh_working c),
       vh_checked := (vh_checked c)[index := True], vh_out := out, vh_results := results, vh_ended := ended\<rparr>)"
| abort: "\<not> vh_ended c \<Longrightarrow> collector_step n errs c (c\<lparr>vh_ended := True, vh_aborted := True\<rparr>)"

inductive_cases collector_stepE: "collector_step n errs c c'"

text \<open>What has been delivered is a prefix of the worker results in header order, it is as long as the
  run of reported indices, and only indices handed out are worked on.\<close>

definition collector_inv :: "nat \<Rightarrow> (nat \<Rightarrow> 'e) \<Rightarrow> 'e collector \<Rightarrow> bool" where
  "collector_inv n errs c \<longleftrightarrow>
     length (vh_checked c) = n \<and> vh_in c \<le> n
     \<and> distinct (vh_working c) \<and> set (vh_working c) \<subseteq> {..<vh_in c}
     \<and> (\<forall>i<n. vh_checked c ! i \<longrightarrow> i < vh_in c \<and> i \<notin> set (vh_working c))
     \<and> (\<forall>i<vh_in c. vh_checked c ! i \<or> i \<in> set (vh_working c))
     \<and> (\<forall>i<length (vh_results c). vh_results c ! i = errs i) \<and> length (vh_results c) \<le> n
     \<and> (\<forall>i<length (vh_results c). vh_checked c ! i)
     \<and> (vh_ended c \<and> \<not> vh_aborted c \<longrightarrow> length (vh_results c) = n)
     \<and> (\<not> vh_ended c \<longrightarrow> vh_out c = length (vh_results c)
          \<and> (0 < n \<longrightarrow> vh_out c < n \<and> \<not> vh_checked c ! vh_out c))"

lemma deliver_loop_correct:
  assumes "length checked = n" "length results = out" "\<forall>i<out. results ! i = errs i" "\<forall>i<out. checked ! i"
    "out < n \<or> n = 0 \<and> out = 0" "deliver_loop n errs checked out results = (out', results', ended)"
  shows "(\<forall>i<length results'. results' ! i = errs i) \<and> length results' \<le> n \<and> (\<forall>i<length results'. checked ! i)
    \<and> (if ended then length results' = n
       else out' = length results' \<and> (0 < n \<longrightarrow> out' < n \<and> \<not> checked ! out'))"
  using assms
proof (induction "n - out" arbitrary: out results rule: less_induct)
  case less
  note unfold = deliver_loop.simps [of n errs checked out results]
  show ?case
  proof (cases "out < n \<and> checked ! out")
    case False
    then have "out' = out" "results' = results" "\<not> ended"
      using less.prems(1,6) by (simp_all add: unfold split: if_splits)
    then show ?thesis using False less.prems(2-5) by auto
  next
    case True
    have upd: "\<forall>i<Suc out. (results @ [errs out]) ! i = errs i" "\<forall>i<Suc out. checked ! i"
      using less.prems(2,3,4) True by (auto simp: less_Suc_eq nth_append)
    show ?thesis
    proof (cases "Suc out = n")
      case last: True
      then have "results' = results @ [errs out]" "ended"
        using less.prems(1,6) True by (auto simp: unfold)
      then show ?thesis using upd last less.prems(2) by simp
    next
      case more: False
      have "deliver_loop n errs checked (Suc out) (results @ [errs out]) = (out', results', ended)"
        using less.prems(1,6) True more by (simp add: unfold)
      then show ?thesis
        by (rule less.hyps [OF _ less.prems(1) _ upd, rotated 3]) (use True more less.prems(2) in auto)
    qed
  qed
qed

lemma collector_inv_start: "collector_inv n errs (collector_start n)"
  by (auto simp: collector_inv_def collector_start_def)

lemma collector_inv_step:
  assumes "collector_inv n errs c" "collector_step n errs c c'"
  shows "collector_inv n errs c'"
  using assms(2)
proof (cases rule: collector_step.cases)
  case send
  then show ?thesis using assms(1) by (auto simp: collector_inv_def less_Suc_eq)
next
  case (reported index out results ended)
  let ?ch = "(vh_checked c)[index := True]"
  from assms(1) have inv: "length (vh_checked c) = n" "vh_in c \<le> n" "set (vh_working c) \<subseteq> {..<vh_in c}"
    "\<forall>i<n. vh_checked c ! i \<longrightarrow> i < vh_in c \<and> i \<notin> set (vh_working c)"
    "\<forall>i<vh_in c. vh_checked c ! i \<or> i \<in> set (vh_working c)" "distinct (vh_working c)"
    "length (vh_results c) = vh_out c" "\<forall>i<vh_out c. vh_results c ! i = errs i"
    "\<forall>i<vh_out c. vh_checked c ! i" "0 < n \<longrightarrow> vh_out c < n"
    using reported(2) by (auto simp: collector_inv_def)
  have idx: "index < n" using reported(3) inv(2,3) by auto
  have chk: "?ch ! i \<longleftrightarrow> i = index \<or> vh_checked c ! i" if "i < n" for i
    using that idx inv(1) by (simp add: nth_list_update)
  have checked: "\<forall>i<vh_out c. ?ch ! i" using inv(9,10) idx chk by auto
  have d: "(\<forall>i<length results. results ! i = errs i) \<and> length results \<le> n \<and> (\<forall>i<length results. ?ch ! i)
      \<and> (if ended then length results = n
         else out = length results \<and> (0 < n \<longrightarrow> out < n \<and> \<not> ?ch ! out))"
    by (rule deliver_loop_correct [OF _ inv(7,8) checked _ reported(4)]) (use inv(1,10) idx in auto)
  have "\<forall>i<n. ?ch ! i \<longrightarrow> i < vh_in c \<and> i \<notin> set (removeAll index (vh_working c))"
    "\<forall>i<vh_in c. ?ch ! i \<or> i \<in> set (removeAll index (vh_working c))"
    using inv(2-5) reported(3) chk by auto
  then show ?thesis using reported(1) inv(1-3,6) d
    by (auto simp: collector_inv_def distinct_removeAll split: if_splits)
next
  case abort
  then show ?thesis using assms(1) by (auto simp: collector_inv_def)
qed

interpretation collector_machine: invariant_machine "\<lambda>c. c = collector_start n" "collector_step n errs"
  "collector_inv n errs" for n and errs :: "nat \<Rightarrow> 'e"
  by unfold_locales (auto simp: collector_inv_start intro: collector_inv_step)



section \<open>What the chain relies on an engine for\<close>

text \<open>A verified header stands one block above its parent and is younger.  A batch that verifies
  without error then is a chain.\<close>

locale header_rule =
  fixes verify :: "header \<Rightarrow> header \<Rightarrow> bool \<Rightarrow> engine_error option"
  assumes number_follows: "verify h p seal = None \<Longrightarrow> h_number h = h_number p + 1"
    and time_follows: "verify h p seal = None \<Longrightarrow> h_time p < h_time h"
begin

lemma worker_link:
  assumes "verifyHeaderWorker gh verify headers seals (Suc i) = None"
    "gh (h_hash (headers ! Suc i)) (big_Uint64 (h_number (headers ! Suc i))) = None"
  shows "h_parentHash (headers ! Suc i) = h_hash (headers ! i)
    \<and> h_number (headers ! Suc i) = h_number (headers ! i) + 1
    \<and> h_time (headers ! i) < h_time (headers ! Suc i)"
  using assms number_follows time_follows
  by (auto simp: verifyHeaderWorker_def Let_def split: if_splits)

lemma worker_first:
  assumes "verifyHeaderWorker gh verify headers seals 0 = None"
    "gh (h_hash (headers ! 0)) (big_Uint64 (h_number (headers ! 0))) = None"
  shows "\<exists>p. gh (h_parentHash (headers ! 0)) (big_Uint64 (h_number (headers ! 0)) - 1) = Some p
    \<and> h_number (headers ! 0) = h_number p + 1 \<and> h_time p < h_time (headers ! 0)"
  using assms number_follows time_follows
  by (auto simp: verifyHeaderWorker_def Let_def split: if_splits option.splits)

lemma batch_chain:
  assumes "\<forall>i<length headers. verifyHeaderWorker gh verify headers seals i = None"
    "\<forall>h\<in>set headers. gh (h_hash h) (big_Uint64 (h_number h)) = None" "i < length headers"
  shows "h_number (headers ! i) = h_number (headers ! 0) + int i
    \<and> (\<forall>j<i. h_time (headers ! j) < h_time (headers ! i))
    \<and> (0 < i \<longrightarrow> h_parentHash (headers ! i) = h_hash (headers ! (i - 1)))"
  using assms(3)
proof (induction i)
  case (Suc i)
  have "verifyHeaderWorker gh verify headers seals (Suc i) = None" using assms(1) Suc.prems by blast
  moreover have "gh (h_hash (headers ! Suc i)) (big_Uint64 (h_number (headers ! Suc i))) = None"
    using assms(2) Suc.prems by (meson nth_mem)
  ultimately have l: "h_parentHash (headers ! Suc i) = h_hash (headers ! i)
      \<and> h_number (headers ! Suc i) = h_number (headers ! i) + 1
      \<and> h_time (headers ! i) < h_time (headers ! Suc i)" by (rule worker_link)
  then show ?case using Suc.IH Suc.prems by (force simp: less_Suc_eq)
qed simp

end

end
