(* ===== verification/Ethash.thy ===== *)
theory Ethash
  imports Engine State_Processor
begin

text \<open>
  \<open>consensus/ethash/consensus.go\<close>: block rewards, the rules a header must satisfy, uncles, the
  difficulty formula and the proof-of-work check.  The protocol parameters (\<open>params\<close>) are the
  record \<open>eth_params\<close>; the mix digest and result of \<open>hashimotoLight\<close> for a header are an argument
  of \<open>VerifySeal\<close> (the hash itself is in the theory of the proof of work).
\<close>

section \<open>Rewards\<close>

definition calcBlockReward :: "int \<Rightarrow> int" where
  "calcBlockReward num =
     (if num \<le> 12500000 then 2000000000000000000
      else if num \<le> 25000000 then 1000000000000000000
      else if num \<le> 37500000 then 500000000000000000
      else if num \<le> 50000000 then 250000000000000000
      else if num \<le> 62500000 then 125000000000000000
      else 100000000000000000)"

text \<open>One uncle: credit its miner, add a thirty-second of the reward to the including miner's.\<close>

definition uncle_reward :: "int \<Rightarrow> header \<Rightarrow> header \<Rightarrow> int" where
  "uncle_reward blockReward header uncle = (h_number uncle + 8 - h_number header) * blockReward div 8"

fun reward_uncles :: "'s statedb \<Rightarrow> int \<Rightarrow> header \<Rightarrow> header list \<Rightarrow> 's \<Rightarrow> int \<Rightarrow> 's \<times> int" where
  "reward_uncles db blockReward header [] s reward = (s, reward)"
| "reward_uncles db blockReward header (uncle # uncles) s reward =
     reward_uncles db blockReward header uncles
       (AddBalance db s (h_coinbase uncle) (uncle_reward blockReward header uncle))
       (reward + blockReward div 32)"

definition AccumulateRewards :: "'s statedb \<Rightarrow> 's \<Rightarrow> header \<Rightarrow> header list \<Rightarrow> 's" where
  "AccumulateRewards db s header uncles =
     (let blockReward = calcBlockReward (h_number header);
          (s', reward) = reward_uncles db blockReward header uncles s blockReward
      in AddBalance db s' (h_coinbase header) reward)"

text \<open>\<open>Finalize\<close> pays the rewards and sets the state root; the live flag it computes is not used.\<close>

definition Finalize ::
  "'s statedb \<Rightarrow> ('s \<Rightarrow> hash) \<Rightarrow> header \<Rightarrow> 's \<Rightarrow> tx list \<Rightarrow> header list \<Rightarrow> block \<times> 's" where
  "Finalize db root header s txs uncles =
     (let s' = AccumulateRewards db s header uncles;
          header' = header\<lparr>h_root := root s'\<rparr>
      in (\<lparr>b_header = header', b_txs = txs, b_uncles = uncles\<rparr>, s'))"

section \<open>Difficulty\<close>

record eth_params =
  MaximumExtraDataSize :: nat
  DifficultyBoundDivisor :: int
  MinimumDifficulty :: int
  ep_limits :: gas_limits
  EmptyUncleHash :: hash
  DiffBombDefuseBlock :: int

definition calcDifficultyPangu :: "eth_params \<Rightarrow> u64 \<Rightarrow> header \<Rightarrow> int" where
  "calcDifficultyPangu par time parent =
     (let x = (uint time - h_time parent) div 3;
          x = (if h_uncleHash parent = EmptyUncleHash par then 1 - x else 2 - x);
          x = (if x < - 99 then - 99 else x);
          y = h_difficulty parent div DifficultyBoundDivisor par;
          x = h_difficulty parent + y * x;
          x = (if x < MinimumDifficulty par then MinimumDifficulty par else x);
          fakeBlockNumber = (if h_number parent \<ge> 2999999 \<and> h_number parent < DiffBombDefuseBlock par
                             then h_number parent - 2999999 else 0);
          periodCount = fakeBlockNumber div 100000
      in if periodCount > 1 then x + 2 ^ nat (periodCount - 2) else x)"

definition CalcDifficulty :: "eth_params \<Rightarrow> u64 \<Rightarrow> header \<Rightarrow> int" where
  "CalcDifficulty par time parent = calcDifficultyPangu par time parent"

definition ethash_Prepare :: "eth_params \<Rightarrow> get_header \<Rightarrow> header \<Rightarrow> engine_error + header" where
  "ethash_Prepare par GetHeader header =
     (case GetHeader (h_parentHash header) (big_Uint64 (h_number header) - 1) of
        None \<Rightarrow> Inl ErrUnknownAncestor
      | Some parent \<Rightarrow> Inr (header\<lparr>h_difficulty := CalcDifficulty par (big_Uint64 (h_time header)) parent\<rparr>))"

section \<open>Seals\<close>

text \<open>An engine, with the shared engine it may delegate to: whether it fakes everything, fakes the
  seal (and which block it then fails on), and whether it is a test engine.\<close>

datatype ethash = Ethash (fakeFull: bool) (fakeMode: bool) (fakeFail: u64) (shared: "ethash option")

text \<open>\<open>pow\<close> gives the digest and the result of the proof-of-work hash of a header.\<close>

fun VerifySeal :: "(header \<Rightarrow> hash \<times> hash) \<Rightarrow> ethash \<Rightarrow> header \<Rightarrow> engine_error option" where
  "VerifySeal pow (Ethash full fake failAt sh) header =
     (if fake then (if failAt = big_Uint64 (h_number header) then Some ErrInvalidPoW else None)
      else case sh of
          Some e \<Rightarrow> VerifySeal pow e header
        | None \<Rightarrow>
            if big_Uint64 (h_number header) div 30000 \<ge> 2048 then Some ErrNonceOutOfRange
            else if h_difficulty header \<le> 0 then Some ErrInvalidDifficulty
            else let (digest, result) = pow header in
              if h_mixDigest header \<noteq> digest then Some ErrInvalidMixDigest
              else if uint result > 2 ^ 256 div h_difficulty header then Some ErrInvalidPoW
              else None)"

section \<open>Headers\<close>

definition ethash_verifyHeader ::
  "eth_params \<Rightarrow> (header \<Rightarrow> hash \<times> hash) \<Rightarrow> ethash \<Rightarrow> int \<Rightarrow> header \<Rightarrow> header \<Rightarrow> bool \<Rightarrow> bool \<Rightarrow> engine_error option" where
  "ethash_verifyHeader par pow eth now header parent uncle seal =
     (let expected = CalcDifficulty par (big_Uint64 (h_time header)) parent;
          diff = \<bar>h_gasLimit parent - h_gasLimit header\<bar>;
          limit = h_gasLimit parent div GasLimitBoundDivisor (ep_limits par)
      in if length (h_extra header) > MaximumExtraDataSize par then Some ErrExtraTooLong
         else if uncle \<and> h_time header > 2 ^ 256 - 1 then Some ErrLargeBlockTime
         else if \<not> uncle \<and> h_time header > now then Some ErrFutureBlock
         else if h_time header \<le> h_time parent then Some ErrZeroBlockTime
         else if expected \<noteq> h_difficulty header then Some (ErrWrongDifficulty (h_difficulty header) expected)
         else if h_gasLimit header > 2 ^ 63 - 1 then Some (ErrGasLimitTooBig (h_gasLimit header))
         else if h_gasUsed header > h_gasLimit header
         then Some (ErrGasUsedOverLimit (h_gasUsed header) (h_gasLimit header))
         else if diff \<ge> limit \<or> h_gasLimit header < MinGasLimit (ep_limits par)
         then Some (ErrGasLimitStep (h_gasLimit header) (h_gasLimit parent) limit)
         else if h_number header - h_number parent \<noteq> 1 then Some ErrInvalidNumber
         else if seal then VerifySeal pow eth header
         else None)"

definition ethash_VerifyHeader ::
  "eth_params \<Rightarrow> (header \<Rightarrow> hash \<times> hash) \<Rightarrow> ethash \<Rightarrow> int \<Rightarrow> get_header \<Rightarrow> header \<Rightarrow> bool \<Rightarrow> engine_error option" where
  "ethash_VerifyHeader par pow eth now GetHeader header seal =
     (if fakeFull eth then None
      else verify_single GetHeader (\<lambda>h p. ethash_verifyHeader par pow eth now h p False seal) header)"

section \<open>Uncles\<close>

text \<open>The walk back over at most seven ancestors, gathering their headers by hash and the hashes of
  their uncles; a block gets its number with wrap-around.\<close>

fun gather_ancestors ::
  "(hash \<Rightarrow> u64 \<Rightarrow> block option) \<Rightarrow> nat \<Rightarrow> hash \<Rightarrow> u64 \<Rightarrow> hash list \<Rightarrow> (hash \<times> header) list
     \<Rightarrow> hash list \<times> (hash \<times> header) list" where
  "gather_ancestors GetBlock 0 parent number uncles ancestors = (uncles, ancestors)"
| "gather_ancestors GetBlock (Suc k) parent number uncles ancestors =
     (case GetBlock parent number of
        None \<Rightarrow> (uncles, ancestors)
      | Some a \<Rightarrow> gather_ancestors GetBlock k (h_parentHash (b_header a)) (number - 1)
          (map h_hash (b_uncles a) @ uncles)
          (AList.update (h_hash (b_header a)) (b_header a) ancestors))"

fun verify_uncles ::
  "(header \<Rightarrow> header \<Rightarrow> engine_error option) \<Rightarrow> hash \<Rightarrow> (hash \<times> header) list \<Rightarrow> hash list \<Rightarrow> header list \<Rightarrow> engine_error option" where
  "verify_uncles verify parentHash ancestors uncles [] = None"
| "verify_uncles verify parentHash ancestors uncles (uncle # rest) =
     (if h_hash uncle \<in> set uncles then Some ErrDuplicateUncle
      else if map_of ancestors (h_hash uncle) \<noteq> None then Some ErrUncleIsAncestor
      else case map_of ancestors (h_parentHash uncle) of
          None \<Rightarrow> Some ErrDanglingUncle
        | Some p \<Rightarrow>
            if h_parentHash uncle = parentHash then Some ErrDanglingUncle
            else case verify uncle p of
                Some err \<Rightarrow> Some err
              | None \<Rightarrow> verify_uncles verify parentHash ancestors (h_hash uncle # uncles) rest)"

definition ethash_VerifyUncles ::
  "eth_params \<Rightarrow> (header \<Rightarrow> hash \<times> hash) \<Rightarrow> ethash \<Rightarrow> int \<Rightarrow> (hash \<Rightarrow> u64 \<Rightarrow> block option) \<Rightarrow> block \<Rightarrow> engine_error option" where
  "ethash_VerifyUncles par pow eth now GetBlock block =
     (if fakeFull eth then None
      else if length (b_uncles block) > 2 then Some ErrTooManyUncles
      else
        let header = b_header block;
            (uncles, ancestors) = gather_ancestors GetBlock 7 (h_parentHash header)
              (big_Uint64 (h_number header) - 1) [] [];
            ancestors = AList.update (h_hash header) header ancestors;
            uncles = h_hash header # uncles
        in verify_uncles (\<lambda>u p. ethash_verifyHeader par pow eth now u p True True)
             (h_parentHash header) ancestors uncles (b_uncles block))"

section \<open>The header rules\<close>

lemma ethash_verifyHeader_ok:
  assumes "ethash_verifyHeader par pow eth now h p uncle seal = None"
  shows "h_number h = h_number p + 1" "h_time p < h_time h"
    "h_difficulty h = CalcDifficulty par (big_Uint64 (h_time h)) p"
  using assms by (auto simp: ethash_verifyHeader_def Let_def split: if_splits)

interpretation ethash_rule: header_rule "\<lambda>h p seal. ethash_verifyHeader par pow eth now h p uncle seal"
  for par pow eth now uncle
  by unfold_locales (auto dest: ethash_verifyHeader_ok)


section \<open>Difficulty\<close>

text \<open>How many steps of the bound the time since the parent is worth.\<close>

definition time_factor :: "eth_params \<Rightarrow> u64 \<Rightarrow> header \<Rightarrow> int" where
  "time_factor par t p =
     max (- 99) ((if h_uncleHash p = EmptyUncleHash par then 1 else 2) - (uint t - h_time p) div 3)"

lemma time_factor_range: "h_time p \<le> uint t \<Longrightarrow> - 99 \<le> time_factor par t p \<and> time_factor par t p \<le> 2"
proof -
  assume "h_time p \<le> uint t"
  then have "0 \<le> (uint t - h_time p) div 3" by (simp add: pos_imp_zdiv_nonneg_iff)
  then show ?thesis by (simp add: time_factor_def)
qed

lemma time_factor_antimono:
  assumes "t \<le> t'"
  shows "time_factor par t' p \<le> time_factor par t p"
proof -
  have "(uint t - h_time p) div 3 \<le> (uint t' - h_time p) div 3"
    using assms by (intro zdiv_mono1) (simp_all add: word_le_def)
  then show ?thesis by (auto simp: time_factor_def)
qed

definition bomb_off :: "eth_params \<Rightarrow> header \<Rightarrow> bool" where
  "bomb_off par p \<longleftrightarrow> h_number p < 2999999 \<or> DiffBombDefuseBlock par \<le> h_number p"

lemma CalcDifficulty_no_bomb:
  assumes "bomb_off par p"
  shows "CalcDifficulty par t p = max (MinimumDifficulty par)
    (h_difficulty p + h_difficulty p div DifficultyBoundDivisor par * time_factor par t p)"
  using assms
  by (auto simp: CalcDifficulty_def calcDifficultyPangu_def time_factor_def bomb_off_def Let_def max_def)

lemma CalcDifficulty_min: "MinimumDifficulty par \<le> CalcDifficulty par t p"
proof -
  have "MinimumDifficulty par \<le> x \<Longrightarrow> MinimumDifficulty par \<le> x + 2 ^ k" for x :: int and k
    by (metis add_increasing2 zero_le_numeral zero_le_power)
  then show ?thesis by (simp add: CalcDifficulty_def calcDifficultyPangu_def Let_def)
qed

text \<open>(C33) The prescribed difficulty is never below the minimum.  While the difficulty bomb is off it
  moves from a parent at or above the minimum by at most two bounds upwards and ninety-nine
  downwards, and a later block never gets a higher difficulty than an earlier one.\<close>

theorem difficulty_step:
  assumes "0 < DifficultyBoundDivisor par" "0 \<le> h_difficulty p" "MinimumDifficulty par \<le> h_difficulty p"
    "bomb_off par p" "h_time p \<le> uint t"
  shows "MinimumDifficulty par \<le> CalcDifficulty par t p
    \<and> h_difficulty p - 99 * (h_difficulty p div DifficultyBoundDivisor par) \<le> CalcDifficulty par t p
    \<and> CalcDifficulty par t p \<le> h_difficulty p + 2 * (h_difficulty p div DifficultyBoundDivisor par)
    \<and> (t \<le> t' \<longrightarrow> CalcDifficulty par t' p \<le> CalcDifficulty par t p)"
proof -
  define y where "y = h_difficulty p div DifficultyBoundDivisor par"
  have y: "0 \<le> y" using assms(1,2) by (simp add: y_def pos_imp_zdiv_nonneg_iff)
  have d: "CalcDifficulty par u p = max (MinimumDifficulty par) (h_difficulty p + y * time_factor par u p)" for u
    using CalcDifficulty_no_bomb [OF assms(4)] by (simp add: y_def)
  have r: "y * - 99 \<le> y * time_factor par t p" "y * time_factor par t p \<le> y * 2"
    by (rule mult_left_mono; use time_factor_range [OF assms(5)] y in simp)+
  have "CalcDifficulty par t' p \<le> CalcDifficulty par t p" if "t \<le> t'"
  proof -
    have "y * time_factor par t' p \<le> y * time_factor par t p"
      using time_factor_antimono [OF that] y by (rule mult_left_mono)
    then show ?thesis unfolding d by linarith
  qed
  moreover have "h_difficulty p - 99 * y \<le> CalcDifficulty par t p" "CalcDifficulty par t p \<le> h_difficulty p + 2 * y"
    unfolding d using r assms(3) y by linarith+
  ultimately show ?thesis using CalcDifficulty_min unfolding y_def by blast
qed

definition sample_eth :: eth_params where
  "sample_eth = \<lparr>MaximumExtraDataSize = 32, DifficultyBoundDivisor = 2048, MinimumDifficulty = 100,
     ep_limits = \<lparr>GasLimitBoundDivisor = 1024, MinGasLimit = 5000, TargetGasLimit = 90000\<rparr>,
     EmptyUncleHash = 0, DiffBombDefuseBlock = 100\<rparr>"

theorem difficulty_step_witness:
  "CalcDifficulty sample_eth 104 (sample_header\<lparr>h_difficulty := 204800\<rparr>) \<le> 204800 + 200"
  using difficulty_step [of sample_eth "sample_header\<lparr>h_difficulty := 204800\<rparr>" 104 104]
  by (simp add: sample_eth_def sample_header_def bomb_off_def)

section \<open>Rewards\<close>

lemma reward_uncles_total:
  assumes "statedb_laws db" "reward_uncles db r h us s reward = (s', reward')"
  shows "total db s' = total db s + sum_list (map (uncle_reward r h) us)
    \<and> reward' = reward + int (length us) * (r div 32)"
  using assms(2)
proof (induction us arbitrary: s reward)
  case (Cons u us)
  from Cons.IH [OF Cons.prems [simplified]] show ?case
    by (simp add: total_simps [OF assms(1)] distrib_right)
qed simp

text \<open>(C32) A block creates the block reward of its number, a thirty-second of it for every uncle, and
  for every uncle as many eighths as eight minus its distance, and no other money.  With at most
  two uncles between one and seven blocks behind, that is less than three block rewards.\<close>

theorem rewards_minted:
  assumes "statedb_laws db"
  shows "total db (AccumulateRewards db s h us) = total db s + calcBlockReward (h_number h)
      + int (length us) * (calcBlockReward (h_number h) div 32)
      + sum_list (map (uncle_reward (calcBlockReward (h_number h)) h) us)
    \<and> (length us \<le> 2 \<and> (\<forall>u\<in>set us. 1 \<le> h_number h - h_number u \<and> h_number h - h_number u \<le> 7) \<longrightarrow>
        total db (AccumulateRewards db s h us) < total db s + 3 * calcBlockReward (h_number h))"
proof -
  let ?r = "calcBlockReward (h_number h)"
  obtain s' reward where r: "reward_uncles db ?r h us s ?r = (s', reward)" by force
  have eq: "total db (AccumulateRewards db s h us) = total db s + ?r + int (length us) * (?r div 32)
      + sum_list (map (uncle_reward ?r h) us)"
    using reward_uncles_total [OF assms r] r
    by (simp add: AccumulateRewards_def total_simps [OF assms] Let_def)
  have pos: "100000000000000000 \<le> ?r" by (simp add: calcBlockReward_def)
  have le: "uncle_reward ?r h u \<le> 7 * ?r div 8" if "1 \<le> h_number h - h_number u" for u
  proof -
    have "(h_number u + 8 - h_number h) * ?r \<le> 7 * ?r" using that pos by (intro mult_right_mono) auto
    then show ?thesis unfolding uncle_reward_def by (rule zdiv_mono1) simp
  qed
  have sum: "sum_list (map (uncle_reward ?r h) us) \<le> int (length us) * (7 * ?r div 8)"
    if "\<forall>u\<in>set us. 1 \<le> h_number h - h_number u"
    using that le by (induction us) (auto simp: distrib_right add_mono)
  have "total db (AccumulateRewards db s h us) < total db s + 3 * ?r"
    if "length us \<le> 2" "\<forall>u\<in>set us. 1 \<le> h_number h - h_number u \<and> h_number h - h_number u \<le> 7"
  proof -
    have "int (length us) * (7 * ?r div 8 + ?r div 32) \<le> 2 * (7 * ?r div 8 + ?r div 32)"
      using that(1) pos by (intro mult_right_mono) auto
    moreover have "2 * (7 * ?r div 8 + ?r div 32) < 2 * ?r" using pos by simp
    ultimately show ?thesis using sum that(2) eq by (simp add: distrib_left)
  qed
  then show ?thesis using eq by blast
qed

theorem rewards_minted_witness:
  "total ledger (AccumulateRewards ledger ([], []) sample_header []) = 2000000000000000000"
  using rewards_minted [OF ledger_laws, of "([], [])" sample_header "[]"]
  by (simp add: calcBlockReward_def sample_header_def total_def ledger_def)

section \<open>Uncles\<close>

text \<open>The blocks the walk visits.\<close>

fun recent_ancestors :: "(hash \<Rightarrow> u64 \<Rightarrow> block option) \<Rightarrow> nat \<Rightarrow> hash \<Rightarrow> u64 \<Rightarrow> block list" where
  "recent_ancestors gb 0 parent number = []"
| "recent_ancestors gb (Suc k) parent number =
     (case gb parent number of None \<Rightarrow> [] | Some a \<Rightarrow> a # recent_ancestors gb k (h_parentHash (b_header a)) (number - 1))"

lemma recent_ancestors_length: "length (recent_ancestors gb k parent number) \<le> k"
  by (induction k arbitrary: parent number) (auto split: option.splits)

lemma gather_ancestors_walk:
  assumes "gather_ancestors gb k parent number us as = (us', as')"
  shows "set us' = set us \<union> (\<Union>a\<in>set (recent_ancestors gb k parent number). h_hash ` set (b_uncles a))
    \<and> fst ` set as' = fst ` set as \<union> (h_hash \<circ> b_header) ` set (recent_ancestors gb k parent number)
    \<and> (\<forall>h hd. map_of as' h = Some hd \<longrightarrow> map_of as h = Some hd
         \<or> hd \<in> b_header ` set (recent_ancestors gb k parent number) \<and> h_hash hd = h)"
  using assms
proof (induction k arbitrary: parent number us as)
  case (Suc k)
  show ?case
  proof (cases "gb parent number")
    case None
    then show ?thesis using Suc.prems by auto
  next
    case (Some a)
    then have g: "gather_ancestors gb k (h_parentHash (b_header a)) (number - 1)
        (map h_hash (b_uncles a) @ us) (AList.update (h_hash (b_header a)) (b_header a) as) = (us', as')"
      using Suc.prems by simp
    note IH = Suc.IH [OF g]
    have "map_of as h = Some hd \<or> hd \<in> b_header ` set (recent_ancestors gb (Suc k) parent number) \<and> h_hash hd = h"
      if "map_of as' h = Some hd" for h hd
    proof -
      from IH that consider "map_of (AList.update (h_hash (b_header a)) (b_header a) as) h = Some hd"
        | "hd \<in> b_header ` set (recent_ancestors gb k (h_parentHash (b_header a)) (number - 1))" "h_hash hd = h"
        by blast
      then show ?thesis using Some by cases (auto simp: AList.update_conv split: if_splits)
    qed
    moreover have "set us' = set us \<union> (\<Union>b\<in>set (recent_ancestors gb (Suc k) parent number). h_hash ` set (b_uncles b))"
      using IH Some by auto
    moreover have "fst ` set as' = fst ` set as \<union> (h_hash \<circ> b_header) ` set (recent_ancestors gb (Suc k) parent number)"
      using IH Some by (auto simp: dom_update)
    ultimately show ?thesis by blast
  qed
qed simp

lemma verify_uncles_ok:
  assumes "verify_uncles verify parentHash ancestors uncles us = None"
  shows "distinct (map h_hash us) \<and> (\<forall>u\<in>set us. h_hash u \<notin> set uncles \<and> map_of ancestors (h_hash u) = None
    \<and> h_parentHash u \<noteq> parentHash \<and> (\<exists>p. map_of ancestors (h_parentHash u) = Some p \<and> verify u p = None))"
  using assms
proof (induction us arbitrary: uncles)
  case (Cons u us)
  then have "verify_uncles verify parentHash ancestors (h_hash u # uncles) us = None"
    by (auto split: if_splits option.splits)
  from Cons.IH [OF this] Cons.prems show ?case by (auto split: if_splits option.splits)
qed simp



text \<open>(C22) If every header of a batch verifies and none was known before, the batch is a chain: each
  header names the hash of the one before it, numbers go up by one and times strictly grow.\<close>

theorem ethash_batch_chain:
  assumes "\<forall>i<length headers. verifyHeaderWorker gh
      (\<lambda>h p seal. ethash_verifyHeader par pow eth now h p False seal) headers seals i = None"
    "\<forall>h\<in>set headers. gh (h_hash h) (big_Uint64 (h_number h)) = None" "i < length headers"
  shows "h_number (headers ! i) = h_number (headers ! 0) + int i
    \<and> (\<forall>j<i. h_time (headers ! j) < h_time (headers ! i))
    \<and> (0 < i \<longrightarrow> h_parentHash (headers ! i) = h_hash (headers ! (i - 1)))"
  using assms by (rule ethash_rule.batch_chain)

definition sample_parent :: header where
  "sample_parent = sample_header\<lparr>h_hash := 10, h_number := 4, h_time := 90, h_difficulty := 204800\<rparr>"

definition sample_child :: header where
  "sample_child = sample_header\<lparr>h_difficulty := CalcDifficulty sample_eth 100 sample_parent\<rparr>"

definition sample_grandchild :: header where
  "sample_grandchild = sample_header\<lparr>h_hash := 77, h_parentHash := h_hash sample_child, h_number := 6,
     h_time := 110, h_difficulty := CalcDifficulty sample_eth 110 sample_child\<rparr>"

theorem ethash_batch_chain_witness:
  "h_time sample_child < h_time sample_grandchild \<and> h_parentHash sample_grandchild = h_hash sample_child"
proof -
  let ?gh = "\<lambda>h n. if h = (10 :: hash) \<and> n = (4 :: u64) then Some sample_parent else None"
  let ?hs = "[sample_child, sample_grandchild]"
  have "\<forall>i<length ?hs. verifyHeaderWorker ?gh
      (\<lambda>h p seal. ethash_verifyHeader sample_eth (\<lambda>h. (0, 0)) (Ethash False True 0 None) 200 h p False seal)
      ?hs [True, True] i = None" by code_simp
  moreover have "\<forall>h\<in>set ?hs. ?gh (h_hash h) (big_Uint64 (h_number h)) = None" by code_simp
  moreover have "1 < length ?hs" by simp
  ultimately have "h_number (?hs ! 1) = h_number (?hs ! 0) + int 1
    \<and> (\<forall>j<1. h_time (?hs ! j) < h_time (?hs ! 1))
    \<and> (0 < (1 :: nat) \<longrightarrow> h_parentHash (?hs ! 1) = h_hash (?hs ! (1 - 1)))"
    by (rule ethash_batch_chain)
  then show ?thesis by simp
qed


end
