(* ===== verification/Pow_Seal.thy ===== *)
theory Pow_Seal
  imports Pow_Dataset Pow_Sizes Ethash
begin

unbundle bit_operations_syntax

text \<open>
  Mining and verifying a proof of work, \<open>src/consensus/ethash/ethash.go\<close> and \<open>sealer.go\<close>: the
  least-recently-used store of caches and datasets, their generation in memory or in files, the
  search for a nonce, and that \<open>VerifySeal\<close> accepts what the search finds.  The store \<open>simplelru\<close>,
  the file system and the encoding of headers and nonces come from outside and are arguments.
\<close>

section \<open>The store of caches and datasets\<close>

record ('c, 'i) simplelru =
  sl_Get :: "'c \<Rightarrow> u64 \<Rightarrow> 'c \<times> 'i option"
  sl_Add :: "'c \<Rightarrow> u64 \<Rightarrow> 'i \<Rightarrow> 'c"
  sl_Peek :: "'c \<Rightarrow> u64 \<Rightarrow> 'i option"

record ('c, 'i) lru =
  l_cache :: 'c
  l_future :: u64
  l_futureItem :: "'i option"

definition newlru :: "(int \<Rightarrow> 'c) \<Rightarrow> int \<Rightarrow> ('c, 'i) lru" where
  "newlru NewLRU maxItems =
     \<lparr>l_cache = NewLRU (if maxItems \<le> 0 then 1 else maxItems), l_future = 0, l_futureItem = None\<rparr>"

text \<open>A nil item is \<open>None\<close>; the second component is the item to prepare for the next epoch.\<close>

definition lru_get ::
  "('c, 'i) simplelru \<Rightarrow> (u64 \<Rightarrow> 'i) \<Rightarrow> u64 \<Rightarrow> ('c, 'i) lru \<Rightarrow> 'i option \<times> 'i option \<times> ('c, 'i) lru" where
  "lru_get ops new epoch lru =
     (let (c, found) = sl_Get ops (l_cache lru) epoch;
          item = (case found of
              Some i \<Rightarrow> Some i
            | None \<Rightarrow> if l_future lru > 0 \<and> l_future lru = epoch then l_futureItem lru else Some (new epoch));
          c = (case (found, item) of (None, Some i) \<Rightarrow> sl_Add ops c epoch i | _ \<Rightarrow> c);
          lru = lru\<lparr>l_cache := c\<rparr>
      in if epoch < 2047 \<and> l_future lru < epoch + 1
         then (item, Some (new (epoch + 1)), lru\<lparr>l_future := epoch + 1, l_futureItem := Some (new (epoch + 1))\<rparr>)
         else (item, None, lru))"

text \<open>\<open>Get\<close> returns the stored item and keeps the contents; \<open>Add\<close> stores one item and may evict others.\<close>

definition simplelru_laws :: "('c, 'i) simplelru \<Rightarrow> bool" where
  "simplelru_laws ops \<longleftrightarrow>
     (\<forall>c k. snd (sl_Get ops c k) = sl_Peek ops c k \<and> sl_Peek ops (fst (sl_Get ops c k)) = sl_Peek ops c)
     \<and> (\<forall>c k i j. sl_Peek ops (sl_Add ops c k i) j = (if j = k then Some i else sl_Peek ops c j) \<or> sl_Peek ops (sl_Add ops c k i) j = None)"

inductive lru_step :: "('c, 'i) simplelru \<Rightarrow> (u64 \<Rightarrow> 'i) \<Rightarrow> ('c, 'i) lru \<Rightarrow> ('c, 'i) lru \<Rightarrow> bool" for ops new where
  "lru_get ops new epoch lru = (item, future, lru') \<Longrightarrow> lru_step ops new lru lru'"

definition lru_inv :: "('c, 'i) simplelru \<Rightarrow> (u64 \<Rightarrow> 'i) \<Rightarrow> ('c, 'i) lru \<Rightarrow> bool" where
  "lru_inv ops new lru \<longleftrightarrow> (\<forall>k i. sl_Peek ops (l_cache lru) k = Some i \<longrightarrow> i = new k)
     \<and> (l_future lru > 0 \<longrightarrow> l_futureItem lru = Some (new (l_future lru)))"

lemma lru_get_ok:
  assumes "simplelru_laws ops" "lru_inv ops new lru"
  shows "\<exists>future lru'. lru_get ops new epoch lru = (Some (new epoch), future, lru') \<and> lru_inv ops new lru'
    \<and> (\<forall>i. future = Some i \<longrightarrow> i = new (epoch + 1))"
proof -
  obtain c found where g: "sl_Get ops (l_cache lru) epoch = (c, found)" by (cases "sl_Get ops (l_cache lru) epoch")
  have f: "found = sl_Peek ops (l_cache lru) epoch" "sl_Peek ops c = sl_Peek ops (l_cache lru)"
    using assms(1) g unfolding simplelru_laws_def by (metis snd_conv, metis fst_conv)
  define item where "item = (case found of Some i \<Rightarrow> Some i
     | None \<Rightarrow> if l_future lru > 0 \<and> l_future lru = epoch then l_futureItem lru else Some (new epoch))"
  have item: "item = Some (new epoch)" using assms(2) f by (auto simp: item_def lru_inv_def split: option.split)
  define c' where "c' = (case (found, item) of (None, Some i) \<Rightarrow> sl_Add ops c epoch i | _ \<Rightarrow> c)"
  have "i = new k" if "sl_Peek ops c' k = Some i" for k i
  proof (cases found)
    case None
    then have add: "c' = sl_Add ops c epoch (new epoch)" using item by (simp add: c'_def)
    have "sl_Peek ops c' k = (if k = epoch then Some (new epoch) else sl_Peek ops c k) \<or> sl_Peek ops c' k = None"
      unfolding add by (rule assms(1) [unfolded simplelru_laws_def, THEN conjunct2, rule_format])
    then show ?thesis using that assms(2) f(2) by (auto simp: lru_inv_def split: if_splits)
  next
    case (Some j)
    then show ?thesis using that assms(2) f(2) by (auto simp: c'_def lru_inv_def)
  qed
  then have inv: "lru_inv ops new (lru\<lparr>l_cache := c'\<rparr>)"
    and inv': "lru_inv ops new (lru\<lparr>l_cache := c', l_future := epoch + 1, l_futureItem := Some (new (epoch + 1))\<rparr>)"
    using assms(2) by (simp_all add: lru_inv_def)
  have run: "lru_get ops new epoch lru = (if epoch < 2047 \<and> l_future lru < epoch + 1
      then (item, Some (new (epoch + 1)), lru\<lparr>l_cache := c', l_future := epoch + 1, l_futureItem := Some (new (epoch + 1))\<rparr>)
      else (item, None, lru\<lparr>l_cache := c'\<rparr>))"
    unfolding lru_get_def g Let_def by (simp add: item_def c'_def)
  show ?thesis
  proof (cases "epoch < 2047 \<and> l_future lru < epoch + 1")
    case True
    then show ?thesis using run item inv' by auto
  next
    case False
    then show ?thesis using run item inv by auto
  qed
qed

lemma lru_machine: "simplelru_laws ops \<Longrightarrow> invariant_machine (lru_inv ops new) (lru_step ops new) (lru_inv ops new)"
proof
  show "lru_inv ops new t" if "simplelru_laws ops" "lru_inv ops new s" "lru_step ops new s t" for s t
    using that(3)
  proof cases
    case (1 epoch item future)
    then show ?thesis using lru_get_ok [OF that(1,2), of epoch] by auto
  qed
qed

section \<open>Generation\<close>

text \<open>The file system: what \<open>memoryMap\<close> loads for the first eight bytes of a seed, and what
  \<open>memoryMapAndGenerate\<close> maps back after writing, \<open>None\<close> being the error of either.\<close>

record disk =
  d_loadCache :: "bytes \<Rightarrow> u32 list option"
  d_loadDataset :: "bytes \<Rightarrow> u32 list option"
  d_store :: "u32 list \<Rightarrow> u32 list option"

text \<open>\<open>(*cache).generate\<close>; \<open>dir\<close> says whether a directory is configured.  When the file cannot be made,
  the same cache is generated in memory.\<close>

definition cache_generate :: "pow_env \<Rightarrow> bool \<Rightarrow> disk \<Rightarrow> bool \<Rightarrow> bool \<Rightarrow> u64 \<Rightarrow> u32 list go" where
  "cache_generate env little disk dir test epoch = do {
     sz \<leftarrow> cacheSize (epoch * 30000 + 1);
     let seed = seedHash env (epoch * 30000 + 1);
     let sz = (if test then 1024 else sz);
     let fresh = generateCache env little (replicate (unat (sz div 4)) 0) seed;
     if \<not> dir then fresh
     else case d_loadCache disk (take 8 seed) of
         Some c \<Rightarrow> Some c
       | None \<Rightarrow> do { c \<leftarrow> fresh; Some (case d_store disk c of Some c' \<Rightarrow> c' | None \<Rightarrow> c) } }"

text \<open>\<open>(*dataset).generate\<close>.  Without a directory it generates the dataset and goes on to the files all the
  same; when the file cannot be made, the dataset in memory has \<open>dsize / 2\<close> words.\<close>

definition dataset_generate ::
  "pow_env \<Rightarrow> bool \<Rightarrow> nat \<Rightarrow> (u32 list \<Rightarrow> u32 list) \<Rightarrow> disk \<Rightarrow> bool \<Rightarrow> bool \<Rightarrow> u64 \<Rightarrow> u32 list go" where
  "dataset_generate env little threads sched disk dir test epoch = do {
     csize \<leftarrow> cacheSize (epoch * 30000 + 1);
     dsize \<leftarrow> datasetSize (epoch * 30000 + 1);
     let seed = seedHash env (epoch * 30000 + 1);
     let csize = (if test then 1024 else csize);
     let dsize = (if test then 32 * 1024 else dsize);
     let make_cache = generateCache env little (replicate (unat (csize div 4)) 0) seed;
     let fill = (\<lambda>n cache. generateDataset env little threads sched (replicate (unat n) 0) cache);
     _ \<leftarrow> (if dir then Some [] else do { cache \<leftarrow> make_cache; fill (dsize div 4) cache });
     case d_loadDataset disk (take 8 seed) of
       Some d \<Rightarrow> Some d
     | None \<Rightarrow> do {
         cache \<leftarrow> make_cache;
         d \<leftarrow> fill (dsize div 4) cache;
         case d_store disk d of Some d' \<Rightarrow> Some d' | None \<Rightarrow> fill (dsize div 2) cache } }"

section \<open>The search for a nonce\<close>

record seal_env =
  HashNoNonce :: "header \<Rightarrow> bytes"
  EncodeNonce :: "u64 \<Rightarrow> bytes"
  NonceUint64 :: "bytes \<Rightarrow> u64"

definition seal_laws :: "seal_env \<Rightarrow> bool" where
  "seal_laws se \<longleftrightarrow> (\<forall>h n m. HashNoNonce se (h\<lparr>h_nonce := n, h_mixDigest := m\<rparr>) = HashNoNonce se h)
     \<and> (\<forall>n. NonceUint64 se (EncodeNonce se n) = n)"

text \<open>\<open>(*big.Int).SetBytes\<close> reads the bytes with the highest first; a 32-byte slice is the hash of that value.\<close>

definition SetBytes :: "bytes \<Rightarrow> int" where
  "SetBytes bs = foldl (\<lambda>a b. 256 * a + uint b) 0 bs"

definition BytesToHash :: "bytes \<Rightarrow> hash" where
  "BytesToHash bs = word_of_int (SetBytes bs)"

datatype mine_result = Searching u64 | Aborted | Found header

text \<open>The loop of \<open>mine\<close>, given for each \<open>select\<close> whether the abort is taken; the search goes on when the
  list ends.  A found nonce is sent unless the \<open>select\<close> of the send takes the abort.\<close>

fun mine_search ::
  "pow_env \<Rightarrow> seal_env \<Rightarrow> u32 list \<Rightarrow> header \<Rightarrow> int \<Rightarrow> bool list \<Rightarrow> u64 \<Rightarrow> mine_result go" where
  "mine_search env se dataset header target [] nonce = Some (Searching nonce)"
| "mine_search env se dataset header target (abort # aborts) nonce =
     (if abort then Some Aborted
      else do {
        (digest, result) \<leftarrow> hashimotoFull env dataset (HashNoNonce se header) nonce;
        if SetBytes result \<le> target
        then Some (if aborts \<noteq> [] \<and> hd aborts then Aborted
                   else Found (header\<lparr>h_nonce := EncodeNonce se nonce, h_mixDigest := BytesToHash digest\<rparr>))
        else mine_search env se dataset header target aborts (nonce + 1) })"

definition mine :: "pow_env \<Rightarrow> seal_env \<Rightarrow> u32 list \<Rightarrow> header \<Rightarrow> bool list \<Rightarrow> u64 \<Rightarrow> mine_result go" where
  "mine env se dataset header aborts seed =
     (if h_difficulty header = 0 then None
      else mine_search env se dataset header (2 ^ 256 div h_difficulty header) aborts seed)"

text \<open>The digest and result that \<open>VerifySeal\<close> recomputes, where the hash does not panic.\<close>

definition light_pow :: "pow_env \<Rightarrow> seal_env \<Rightarrow> u64 \<Rightarrow> u32 list \<Rightarrow> header \<Rightarrow> (hash \<times> hash) go" where
  "light_pow env se sz cache header = do {
     (digest, result) \<leftarrow> hashimotoLight env sz cache (HashNoNonce se header) (NonceUint64 se (h_nonce header));
     Some (BytesToHash digest, BytesToHash result) }"

section \<open>What is mined is accepted\<close>

lemma SetBytes_bound: "0 \<le> SetBytes bs \<and> SetBytes bs < 256 ^ length bs"
proof (induction bs rule: rev_induct)
  case (snoc b bs)
  have "SetBytes (bs @ [b]) = 256 * SetBytes bs + uint b" by (simp add: SetBytes_def)
  moreover have "0 \<le> uint b" "uint b < 256" using uint_lt2p [of b] by simp_all
  ultimately show ?case using snoc.IH by simp
qed (simp add: SetBytes_def)

lemma uint_BytesToHash: "length bs = 32 \<Longrightarrow> uint (BytesToHash bs) = SetBytes bs"
  using SetBytes_bound [of bs] by (simp add: BytesToHash_def uint_word_of_int take_bit_int_eq_self)

lemma mine_search_found:
  assumes "mine_search env se ds header target aborts nonce = Some (Found h)"
  shows "\<exists>n digest result. hashimotoFull env ds (HashNoNonce se header) n = Some (digest, result) \<and> SetBytes result \<le> target
    \<and> h = header\<lparr>h_nonce := EncodeNonce se n, h_mixDigest := BytesToHash digest\<rparr>"
  using assms
proof (induction aborts arbitrary: nonce)
  case (Cons a aborts)
  have "\<not> a" using Cons.prems by (auto split: if_splits)
  then obtain digest result where d: "hashimotoFull env ds (HashNoNonce se header) nonce = Some (digest, result)"
    using Cons.prems by (cases "hashimotoFull env ds (HashNoNonce se header) nonce") auto
  show ?case
  proof (cases "SetBytes result \<le> target")
    case True
    then show ?thesis using Cons.prems d \<open>\<not> a\<close> by (intro exI [of _ nonce] exI [of _ digest] exI [of _ result]) (simp split: if_splits)
  next
    case False
    then show ?thesis using Cons.IH [of "nonce + 1"] Cons.prems d \<open>\<not> a\<close> by simp
  qed
qed simp

lemma mined_verifies:
  assumes "seal_laws se" "\<forall>hash nonce. \<exists>digest result. hashimotoFull env ds hash nonce = Some (digest, result)
      \<and> hashimotoLight env sz cache hash nonce = Some (digest, result) \<and> length result = 32"
    "0 < h_difficulty header" "big_Uint64 (h_number header) div 30000 < 2048" "mine env se ds header aborts seed = Some (Found h)"
  shows "\<exists>p. light_pow env se sz cache h = Some p \<and> VerifySeal (\<lambda>_. p) (Ethash full False failAt None) h = None"
proof -
  obtain n digest result where n: "hashimotoFull env ds (HashNoNonce se header) n = Some (digest, result)"
    "SetBytes result \<le> 2 ^ 256 div h_difficulty header" "h = header\<lparr>h_nonce := EncodeNonce se n, h_mixDigest := BytesToHash digest\<rparr>"
    using mine_search_found [of env se ds header "2 ^ 256 div h_difficulty header" aborts seed h] assms(3,5) unfolding mine_def by auto
  obtain d' r' where "hashimotoFull env ds (HashNoNonce se header) n = Some (d', r')"
    "hashimotoLight env sz cache (HashNoNonce se header) n = Some (d', r')" "length r' = 32" using assms(2) by blast
  then have l: "hashimotoLight env sz cache (HashNoNonce se header) n = Some (digest, result)" "length result = 32" using n(1) by auto
  have "light_pow env se sz cache h = Some (BytesToHash digest, BytesToHash result)"
    using assms(1) l(1) n(3) by (simp add: light_pow_def seal_laws_def)
  then show ?thesis using n assms(3,4) uint_BytesToHash [OF l(2)] by (simp add: not_le)
qed

lemma generateCache_any:
  assumes "pow_laws env" "0 < r" "r < 2 ^ 26"
  shows "\<exists>cache. length cache = 16 * r \<and> (\<forall>little dest. length dest = 16 * r \<longrightarrow> generateCache env little dest seed = Some cache)"
proof -
  let ?z = "replicate (16 * r) 0 :: u32 list"
  have p: "\<exists>cache. generateCache env True d seed = Some cache \<and> generateCache env False d' seed = Some cache \<and> length cache = 16 * r"
    if "length d = 16 * r" "length d' = 16 * r" for d d'
    using cache_portable [OF assms(1) that assms(2,3)] .
  obtain c where c: "generateCache env True ?z seed = Some c" "length c = 16 * r" using p [of ?z ?z] by auto
  have "generateCache env little d seed = Some c" if "length d = 16 * r" for little d
    using p [of ?z d] p [of d ?z] p [of ?z ?z] c(1) that by (cases little) auto
  then show ?thesis using c(2) by blast
qed

text \<open>An epoch of the table up to 384 has a cache and a dataset that mining and verification agree on.\<close>

lemma epoch_block:
  assumes "unat epoch < 2048"
  shows "unat (epoch * 30000 + 1 :: u64) div 30000 = unat epoch"
proof -
  have "unat (epoch * 30000 + 1 :: u64) = unat epoch * 30000 + 1" using assms by (simp add: unat_word_ariths)
  then show ?thesis by simp
qed

lemma epoch_sizes:
  assumes "unat block div 30000 < 2048"
  shows "\<exists>c d. cacheSize block = Some c \<and> datasetSize block = Some d \<and> (\<exists>r. unat c = 64 * r \<and> 0 < r \<and> r < 2 ^ 23)
    \<and> (\<exists>q. unat d = 128 * q \<and> 2 ^ 22 \<le> q \<and> 128 * q < 2 ^ 30 + 2 ^ 23 * (unat block div 30000))"
proof -
  let ?e = "unat block div 30000"
  obtain c d where c: "unat (word_of_int (cacheSizes ! ?e) :: u64) = c" "c mod 128 = 64" "c < 2 ^ 24 + 2 ^ 17 * ?e"
    and d: "unat (word_of_int (datasetSizes ! ?e) :: u64) = d" "d mod 256 = 128" "d < 2 ^ 30 + 2 ^ 23 * ?e" "2 ^ 30 + 2 ^ 23 * ?e \<le> d + 2 ^ 17"
    using cache_entry [OF assms] dataset_entry [OF assms] by blast
  let ?r = "2 * (c div 128) + 1" and ?q = "2 * (d div 256) + 1"
  have "64 * ?r = c" using c(2) mult_div_mod_eq [of 128 c] by simp
  moreover have "128 * ?q = d" using d(2) mult_div_mod_eq [of 256 d] by simp
  moreover have "c < 2 ^ 29" using c(3) assms by simp
  moreover have "2 ^ 29 \<le> d" using d(4) by simp
  ultimately have "c = 64 * ?r \<and> 0 < ?r \<and> ?r < 2 ^ 23" "d = 128 * ?q \<and> 2 ^ 22 \<le> ?q" by simp_all
  then have "(\<exists>r. c = 64 * r \<and> 0 < r \<and> r < 2 ^ 23) \<and> (\<exists>q. d = 128 * q \<and> 2 ^ 22 \<le> q \<and> 128 * q < 2 ^ 30 + 2 ^ 23 * ?e)"
    using d(3) by metis
  moreover have "unat (block div 30000) = ?e" by (simp add: unat_div)
  ultimately show ?thesis using assms c(1) d(1) by (simp add: cacheSize_def datasetSize_def)
qed

text \<open>The cache of an epoch, the same on every machine, and a dataset of \<open>k\<close> times its size.\<close>

lemma epoch_hash:
  assumes "pow_laws env" "unat block div 30000 < 2048" "0 < t" "t \<le> 2 ^ 16" "\<forall>xs. mset (sched xs) = mset xs"
  shows "\<exists>c d cache. cacheSize block = Some c \<and> datasetSize block = Some d
    \<and> (\<forall>little. generateCache env little (replicate (unat (c div 4)) 0) seed = Some cache)
    \<and> unat d < 2 ^ 30 + 2 ^ 23 * (unat block div 30000) \<and> unat (d div 4) * 4 = unat d \<and> unat (d div 2) * 2 = unat d
    \<and> (\<forall>n little. unat d \<le> 4 * n \<and> 4 * n \<le> 2 ^ 32 \<longrightarrow>
         (\<exists>ds. generateDataset env little t sched (replicate n 0) cache = Some ds \<and> length ds = n
            \<and> (\<forall>hash nonce. \<exists>digest result. hashimotoFull env ds hash nonce = Some (digest, result)
                 \<and> hashimotoLight env (of_nat (4 * n)) cache hash nonce = Some (digest, result) \<and> length result = 32)))"
proof -
  obtain c d r q where s: "cacheSize block = Some c" "datasetSize block = Some d" "unat c = 64 * r" "0 < r" "r < 2 ^ 23"
    "unat d = 128 * q" "2 ^ 22 \<le> q" "128 * q < 2 ^ 30 + 2 ^ 23 * (unat block div 30000)"
    using epoch_sizes [OF assms(2)] by blast
  have w: "unat (c div 4) = 16 * r" "unat (d div 4) = 32 * q" "unat (d div 2) = 64 * q" using s(3,6) by (simp_all add: unat_div)
  obtain cache where cache: "length cache = 16 * r" "\<forall>little dest. length dest = 16 * r \<longrightarrow> generateCache env little dest seed = Some cache"
    using generateCache_any [OF assms(1) s(4)] s(5) by fastforce
  have ok: "cache_ok cache" using cache(1) s(4,5) by (simp add: cache_ok_def)
  have "\<exists>ds. generateDataset env little t sched (replicate n 0) cache = Some ds \<and> length ds = n
      \<and> (\<forall>hash nonce. \<exists>digest result. hashimotoFull env ds hash nonce = Some (digest, result)
           \<and> hashimotoLight env (of_nat (4 * n)) cache hash nonce = Some (digest, result) \<and> length result = 32)"
    if "unat d \<le> 4 * n" "4 * n \<le> 2 ^ 32" for n little
    using full_light [OF assms(1) ok, of "replicate n 0" t sched little] that s(6,7) assms(3-5) unfolding length_replicate by simp
  then show ?thesis using s(1,2,6,8) w cache(2) by (intro exI [of _ c] exI [of _ d] exI [of _ cache]) simp
qed

lemma datasetSize_epoch: "unat a div 30000 = unat b div 30000 \<Longrightarrow> datasetSize a = datasetSize b"
  by (simp add: datasetSize_def unat_div)

lemma mine_returns:
  assumes "\<forall>hash nonce. hashimotoFull env ds hash nonce \<noteq> None" "0 < h_difficulty header"
  shows "mine env se ds header aborts seed \<noteq> None"
proof -
  have "mine_search env se ds header target aborts nonce \<noteq> None" for target nonce
  proof (induction aborts arbitrary: nonce)
    case (Cons a aborts)
    obtain digest result where "hashimotoFull env ds (HashNoNonce se header) nonce = Some (digest, result)"
      using assms(1) by (metis not_None_eq prod.exhaust)
    then show ?case using Cons.IH [of "nonce + 1"] by simp
  qed simp
  then show ?thesis using assms(2) by (simp add: mine_def)
qed

text \<open>Files that can be written, and none there yet; and files that cannot be written.\<close>

definition disk_writes :: "disk \<Rightarrow> bool" where
  "disk_writes disk \<longleftrightarrow> (\<forall>s. d_loadCache disk s = None \<and> d_loadDataset disk s = None) \<and> (\<forall>d. d_store disk d = Some d)"

definition disk_fails :: "disk \<Rightarrow> bool" where
  "disk_fails disk \<longleftrightarrow> (\<forall>s. d_loadCache disk s = None \<and> d_loadDataset disk s = None) \<and> (\<forall>d. d_store disk d = None)"

lemma epoch_mining:
  assumes "pow_laws env" "unat (big_Uint64 (h_number header) div 30000) \<le> 384" "0 < t" "t \<le> 2 ^ 16" "\<forall>xs. mset (sched xs) = mset xs"
    "disk_writes disk"
  shows "\<exists>ds cache sz. dataset_generate env little t sched disk dir False (big_Uint64 (h_number header) div 30000) = Some ds
    \<and> (\<forall>little' dir'. cache_generate env little' disk dir' False (big_Uint64 (h_number header) div 30000) = Some cache)
    \<and> datasetSize (big_Uint64 (h_number header)) = Some sz
    \<and> (\<forall>hash nonce. \<exists>digest result. hashimotoFull env ds hash nonce = Some (digest, result)
         \<and> hashimotoLight env sz cache hash nonce = Some (digest, result) \<and> length result = 32)"
proof -
  let ?n = "big_Uint64 (h_number header)" and ?e = "big_Uint64 (h_number header) div 30000"
  let ?b = "?e * 30000 + 1" and ?seed = "seedHash env (?e * 30000 + 1)"
  have e: "unat ?b div 30000 = unat ?e" "unat ?n div 30000 = unat ?e" "unat ?b div 30000 < 2048"
    using assms(2) epoch_block [of ?e] by (simp_all add: unat_div)
  have n0: "datasetSize ?n = datasetSize ?b" by (rule datasetSize_epoch) (simp only: e(1,2))
  obtain c d cache where h: "cacheSize ?b = Some c" "datasetSize ?b = Some d"
    "\<forall>little. generateCache env little (replicate (unat (c div 4)) 0) ?seed = Some cache"
    "unat d < 2 ^ 30 + 2 ^ 23 * (unat ?b div 30000)" "unat (d div 4) * 4 = unat d"
    "\<forall>n little. unat d \<le> 4 * n \<and> 4 * n \<le> 2 ^ 32 \<longrightarrow>
         (\<exists>ds. generateDataset env little t sched (replicate n 0) cache = Some ds \<and> length ds = n
            \<and> (\<forall>hash nonce. \<exists>digest result. hashimotoFull env ds hash nonce = Some (digest, result)
                 \<and> hashimotoLight env (of_nat (4 * n)) cache hash nonce = Some (digest, result) \<and> length result = 32))"
    using epoch_hash [OF assms(1) e(3) assms(3-5), of ?seed] by (elim exE conjE) (rule that)
  have n: "4 * unat (d div 4) = unat d" "unat d \<le> 2 ^ 32" using h(4,5) e(1) assms(2) by simp_all
  then obtain ds where ds: "generateDataset env little t sched (replicate (unat (d div 4)) 0) cache = Some ds"
    "\<forall>hash nonce. \<exists>digest result. hashimotoFull env ds hash nonce = Some (digest, result)
       \<and> hashimotoLight env (of_nat (4 * unat (d div 4))) cache hash nonce = Some (digest, result) \<and> length result = 32"
    using h(6) [rule_format, of "unat (d div 4)" little] unfolding n(1) by blast
  have "dataset_generate env little t sched disk dir False ?e = Some ds"
    using assms(6) h(1-3) ds(1) by (simp add: dataset_generate_def disk_writes_def Let_def)
  moreover have "cache_generate env little' disk dir' False ?e = Some cache" for little' dir'
    using assms(6) h(1,3) by (simp add: cache_generate_def disk_writes_def Let_def)
  moreover have "of_nat (4 * unat (d div 4)) = d" unfolding n(1) by simp
  ultimately show ?thesis using h(2) ds(2) unfolding n0 by (intro exI [of _ ds] exI [of _ cache] exI [of _ d]) simp
qed

text \<open>(C6) Up to epoch 384, where files can be written: the dataset and the cache of a block are generated,
  mining on the dataset does not panic, and for every header it finds, with a cache generated on any
  machine, \<open>VerifySeal\<close> computes the hash without a panic and accepts the header.\<close>

theorem mined_seal_accepted:
  assumes "pow_laws env" "seal_laws se" "unat (big_Uint64 (h_number header) div 30000) \<le> 384" "0 < t" "t \<le> 2 ^ 16"
    "\<forall>xs. mset (sched xs) = mset xs" "disk_writes disk" "0 < h_difficulty header"
  shows "\<exists>ds cache sz. dataset_generate env little t sched disk dir False (big_Uint64 (h_number header) div 30000) = Some ds
    \<and> (\<forall>little' dir'. cache_generate env little' disk dir' False (big_Uint64 (h_number header) div 30000) = Some cache)
    \<and> datasetSize (big_Uint64 (h_number header)) = Some sz
    \<and> (\<forall>aborts seed. \<exists>r. mine env se ds header aborts seed = Some r
         \<and> (\<forall>h full failAt. r = Found h \<longrightarrow>
              (\<exists>p. light_pow env se sz cache h = Some p \<and> VerifySeal (\<lambda>_. p) (Ethash full False failAt None) h = None)))"
proof -
  obtain ds cache sz where d: "dataset_generate env little t sched disk dir False (big_Uint64 (h_number header) div 30000) = Some ds"
    "\<forall>little' dir'. cache_generate env little' disk dir' False (big_Uint64 (h_number header) div 30000) = Some cache"
    "datasetSize (big_Uint64 (h_number header)) = Some sz"
    "\<forall>hash nonce. \<exists>digest result. hashimotoFull env ds hash nonce = Some (digest, result)
         \<and> hashimotoLight env sz cache hash nonce = Some (digest, result) \<and> length result = 32"
    using epoch_mining [OF assms(1,3-7), of little dir] by (elim exE conjE) (rule that)
  have "big_Uint64 (h_number header) div 30000 < 2048" using assms(3) by (simp add: word_less_nat_alt)
  note v = mined_verifies [OF assms(2) d(4) assms(8) this]
  have "\<exists>r. mine env se ds header aborts seed = Some r \<and> (\<forall>h full failAt. r = Found h \<longrightarrow>
      (\<exists>p. light_pow env se sz cache h = Some p \<and> VerifySeal (\<lambda>_. p) (Ethash full False failAt None) h = None))" for aborts seed
  proof -
    obtain r where "mine env se ds header aborts seed = Some r"
      using mine_returns [of env ds header se aborts seed] d(4) assms(8) by fastforce
    then show ?thesis using v [of aborts seed] by (intro exI [of _ r] conjI allI impI) simp_all
  qed
  then show ?thesis using d(1-3) by (intro exI [of _ ds] exI [of _ cache] exI [of _ sz] conjI) simp_all
qed

text \<open>Nonces in big-endian order, as two halves.\<close>

definition toy_seal :: seal_env where
  "toy_seal = \<lparr>HashNoNonce = (\<lambda>h. [of_int (h_number h), of_int (h_time h)]),
     EncodeNonce = (\<lambda>n. rev (PutUint32 (ucast n) @ PutUint32 (ucast (drop_bit 32 n)))),
     NonceUint64 = (\<lambda>b. ucast (of_bytes (take 4 (rev b))) OR push_bit 32 (ucast (of_bytes (drop 4 (rev b)))))\<rparr>"

definition toy_header :: header where
  "toy_header = \<lparr>h_hash = 11, h_parentHash = 10, h_uncleHash = 0, h_coinbase = 1, h_root = 0, h_txHash = 0,
     h_receiptHash = 0, h_bloom = 0, h_difficulty = 1, h_number = 45000, h_gasLimit = 60000, h_gasUsed = 0,
     h_time = 100, h_extra = [], h_mixDigest = 0, h_nonce = []\<rparr>"

definition toy_disk :: "bool \<Rightarrow> disk" where
  "toy_disk writes = \<lparr>d_loadCache = (\<lambda>s. None), d_loadDataset = (\<lambda>s. None), d_store = (\<lambda>d. if writes then Some d else None)\<rparr>"

lemma halves: "(ucast (ucast n :: u32) :: u64) OR push_bit k (ucast (ucast (drop_bit k n) :: u32)) = n" if "k = 32" for n :: u64
proof (rule bit_word_eqI)
  fix i assume i: "i < LENGTH(64)"
  show "bit ((ucast (ucast n :: u32) :: u64) OR push_bit k (ucast (ucast (drop_bit k n) :: u32))) i = bit n i"
    using i that by (cases "i < 32") (auto simp: bit_simps)
qed

lemma toy_seal_laws: "seal_laws toy_seal"
  using halves [of 32] by (simp add: seal_laws_def toy_seal_def)

theorem mined_seal_accepted_witness:
  "\<exists>ds cache sz h. dataset_generate toy_env True 4 rev (toy_disk True) True False 1 = Some ds
     \<and> cache_generate toy_env False (toy_disk True) False False 1 = Some cache \<and> datasetSize 45000 = Some sz
     \<and> mine toy_env toy_seal ds toy_header [False] 5 = Some (Found h)
     \<and> (\<exists>p. light_pow toy_env toy_seal sz cache h = Some p \<and> VerifySeal (\<lambda>_. p) (Ethash False False 0 None) h = None)"
proof -
  have e: "big_Uint64 (h_number toy_header) = 45000" "h_difficulty toy_header = 1" by (simp_all add: toy_header_def big_Uint64_def)
  have b: "unat (big_Uint64 (h_number toy_header) div 30000) \<le> 384" "45000 div 30000 = (1 :: u64)" unfolding e by simp_all
  have p: "disk_writes (toy_disk True)" "\<forall>xs :: u32 list. mset (rev xs) = mset xs" by (simp_all add: disk_writes_def toy_disk_def)
  obtain ds cache sz where d: "dataset_generate toy_env True 4 rev (toy_disk True) True False 1 = Some ds"
    "cache_generate toy_env False (toy_disk True) False False 1 = Some cache" "datasetSize 45000 = Some sz"
    "\<forall>aborts seed. \<exists>r. mine toy_env toy_seal ds toy_header aborts seed = Some r
       \<and> (\<forall>h full failAt. r = Found h \<longrightarrow>
            (\<exists>p. light_pow toy_env toy_seal sz cache h = Some p \<and> VerifySeal (\<lambda>_. p) (Ethash full False failAt None) h = None))"
    using mined_seal_accepted [OF toy_laws toy_seal_laws b(1) _ _ p(2,1), of 4 True True] unfolding e b(2) by auto
  obtain ds' where "dataset_generate toy_env True 4 rev (toy_disk True) True False 1 = Some ds'"
    "\<forall>hash nonce. \<exists>digest result. hashimotoFull toy_env ds' hash nonce = Some (digest, result) \<and> length result = 32"
    using epoch_mining [OF toy_laws b(1) _ _ p(2,1), of 4 True True] unfolding e b(2) by fastforce
  then obtain digest result where r: "hashimotoFull toy_env ds (HashNoNonce toy_seal toy_header) 5 = Some (digest, result)" "length result = 32"
    using d(1) by (metis option.inject)
  have "SetBytes result \<le> 2 ^ 256" using SetBytes_bound [of result] r(2) by simp
  then obtain h where h: "mine toy_env toy_seal ds toy_header [False] 5 = Some (Found h)" using r(1) e(2) by (simp add: mine_def)
  moreover have "\<exists>p. light_pow toy_env toy_seal sz cache h = Some p \<and> VerifySeal (\<lambda>_. p) (Ethash False False 0 None) h = None"
    using d(4) [rule_format, of "[False]" 5] h by (metis option.inject)
  ultimately show ?thesis using d(1-3) by blast
qed

section \<open>When the file cannot be made\<close>

text \<open>(C28) When no file can be loaded or written, the dataset generated in memory for an epoch up to 120 is
  twice as large as the epoch's dataset, and mining on it computes the hash for twice the size.\<close>

theorem fallback_dataset_oversized:
  assumes "pow_laws env" "unat epoch \<le> 120" "0 < t" "t \<le> 2 ^ 16" "\<forall>xs. mset (sched xs) = mset xs" "disk_fails disk"
  shows "\<exists>ds cache sz. dataset_generate env little t sched disk dir False epoch = Some ds \<and> cache_generate env little disk dir False epoch = Some cache
    \<and> datasetSize (epoch * 30000 + 1) = Some sz \<and> 4 * length ds = 2 * unat sz
    \<and> (\<forall>hash nonce. hashimotoFull env ds hash nonce = hashimotoLight env (2 * sz) cache hash nonce)"
proof -
  let ?b = "epoch * 30000 + 1" and ?seed = "seedHash env (epoch * 30000 + 1)"
  have e: "unat ?b div 30000 = unat epoch" "unat ?b div 30000 < 2048" using assms(2) epoch_block [of epoch] by simp_all
  obtain c d cache where h: "cacheSize ?b = Some c" "datasetSize ?b = Some d"
    "\<forall>little. generateCache env little (replicate (unat (c div 4)) 0) ?seed = Some cache"
    "unat d < 2 ^ 30 + 2 ^ 23 * (unat ?b div 30000)" "unat (d div 4) * 4 = unat d" "unat (d div 2) * 2 = unat d"
    "\<forall>n little. unat d \<le> 4 * n \<and> 4 * n \<le> 2 ^ 32 \<longrightarrow>
         (\<exists>ds. generateDataset env little t sched (replicate n 0) cache = Some ds \<and> length ds = n
            \<and> (\<forall>hash nonce. \<exists>digest result. hashimotoFull env ds hash nonce = Some (digest, result)
                 \<and> hashimotoLight env (of_nat (4 * n)) cache hash nonce = Some (digest, result) \<and> length result = 32))"
    using epoch_hash [OF assms(1) e(2) assms(3-5), of ?seed] by (elim exE conjE) (rule that)
  have n: "4 * unat (d div 4) = unat d" "4 * unat (d div 2) = 2 * unat d" "2 * unat d \<le> 2 ^ 32" using h(4-6) e(1) assms(2) by simp_all
  obtain d4 where d4: "generateDataset env little t sched (replicate (unat (d div 4)) 0) cache = Some d4"
    using h(7) [rule_format, of "unat (d div 4)" little] n by auto
  obtain ds where ds: "generateDataset env little t sched (replicate (unat (d div 2)) 0) cache = Some ds" "length ds = unat (d div 2)"
    "\<forall>hash nonce. \<exists>digest result. hashimotoFull env ds hash nonce = Some (digest, result)
       \<and> hashimotoLight env (of_nat (2 * unat d)) cache hash nonce = Some (digest, result) \<and> length result = 32"
    using h(7) [rule_format, of "unat (d div 2)" little] n(3) unfolding n(2) by auto
  have "dataset_generate env little t sched disk dir False epoch = Some ds"
    using assms(6) h(1-3) d4 ds(1) by (simp add: dataset_generate_def disk_fails_def Let_def)
  moreover have "cache_generate env little disk dir False epoch = Some cache"
    using assms(6) h(1,3) by (simp add: cache_generate_def disk_fails_def Let_def)
  moreover have "of_nat (2 * unat d) = 2 * d" by simp
  then have "hashimotoFull env ds hash nonce = hashimotoLight env (2 * d) cache hash nonce" for hash nonce
    using ds(3) by metis
  ultimately show ?thesis using h(2) ds(2) n(2) by (intro exI [of _ ds] exI [of _ cache] exI [of _ d]) simp
qed

theorem fallback_dataset_oversized_witness:
  "\<exists>ds sz. dataset_generate toy_env True 4 rev (toy_disk False) False False 1 = Some ds \<and> datasetSize 30001 = Some sz \<and> 4 * length ds = 2 * unat sz"
proof -
  have p: "disk_fails (toy_disk False)" "\<forall>xs :: u32 list. mset (rev xs) = mset xs" by (simp_all add: disk_fails_def toy_disk_def)
  show ?thesis using fallback_dataset_oversized [OF toy_laws _ _ _ p(2,1), of 1 4 True False] by auto
qed

section \<open>The store hands out the right epoch\<close>

text \<open>Whatever sequence of epochs was asked for before, and whatever the bounded store evicted, \<open>get\<close> returns
  the item made for the epoch asked for, and prepares at most the item of the next one.\<close>

lemma lru_get_exact:
  assumes "simplelru_laws ops" "\<forall>k. sl_Peek ops (NewLRU (if n \<le> 0 then 1 else n)) k = None"
    "(lru_step ops new)\<^sup>*\<^sup>* (newlru NewLRU n) lru"
  shows "\<exists>future lru'. lru_get ops new epoch lru = (Some (new epoch), future, lru') \<and> (\<forall>i. future = Some i \<longrightarrow> i = new (epoch + 1))"
proof -
  have "lru_inv ops new (newlru NewLRU n)" using assms(2) by (simp add: lru_inv_def newlru_def)
  then have "lru_inv ops new lru" by (rule invariant_machine.inv_steps [OF lru_machine [OF assms(1)] assms(3)])
  from lru_get_ok [OF assms(1) this] show ?thesis by blast
qed

text \<open>A store of one item.\<close>

definition one_item :: "((u64 \<times> u64) option, u64) simplelru" where
  "one_item = \<lparr>sl_Get = (\<lambda>c k. (c, case c of Some (j, i) \<Rightarrow> if j = k then Some i else None | None \<Rightarrow> None)),
     sl_Add = (\<lambda>c k i. Some (k, i)),
     sl_Peek = (\<lambda>c k. case c of Some (j, i) \<Rightarrow> if j = k then Some i else None | None \<Rightarrow> None)\<rparr>"

lemma lru_get_exact_witness:
  "\<exists>future lru'. lru_get one_item (\<lambda>e. e + 100) 4 (snd (snd (lru_get one_item (\<lambda>e. e + 100) 3 (newlru (\<lambda>n. None) 1)))) = (Some 104, future, lru')"
proof -
  have l: "simplelru_laws one_item" by (auto simp: simplelru_laws_def one_item_def split: option.split)
  have st: "lru_step one_item (\<lambda>e. e + 100) (newlru (\<lambda>n. None) 1) (snd (snd (lru_get one_item (\<lambda>e. e + 100) 3 (newlru (\<lambda>n. None) 1))))"
    by (rule lru_step.intros [of _ _ 3 _ "fst (lru_get one_item (\<lambda>e. e + 100) 3 (newlru (\<lambda>n. None) 1))"
          "fst (snd (lru_get one_item (\<lambda>e. e + 100) 3 (newlru (\<lambda>n. None) 1)))"]) simp
  then have rt: "(lru_step one_item (\<lambda>e. e + 100))\<^sup>*\<^sup>* (newlru (\<lambda>n. None) 1)
      (snd (snd (lru_get one_item (\<lambda>e. e + 100) 3 (newlru (\<lambda>n. None) 1))))" by (rule r_into_rtranclp)
  have "\<forall>k. sl_Peek one_item ((\<lambda>n. None) (if (1 :: int) \<le> 0 then 1 else 1)) k = None" by (simp add: one_item_def)
  from lru_get_exact [OF l this rt, of 4] show ?thesis by auto
qed

end
