(* ===== verification/Vss.thy ===== *)
theory Vss
  imports Chain_Types "HOL-Library.Monad_Syntax"
begin

text \<open>
  \<open>dkg/dkg.go\<close>: the distributed key generation by which the nodes agree on a threshold
  signature key.  The curve arithmetic, the share encodings and the signatures are those of
  the \<open>kyber\<close> and \<open>bls_lib\<close> packages, given as the record \<open>suite\<close> of the operations called.
  What one run of a handler reads of the \<open>vssbase\<close> contract is the record \<open>vss_env\<close>, with
  one field per place of the code that reads, since the contract may change in between; \<open>None\<close> is a
  failed read, after which the code dereferences a nil number and panics.  Transactions sent
  to the contract are collected in a list.
\<close>

section \<open>Interfaces\<close>

text \<open>The fields of \<open>bls_lib\<close>'s \<open>BLS\<close> the code uses; \<open>bls_own\<close> stands for the rest.\<close>

record ('o, 'sc, 'poly) BLS =
  bls_Threshold :: int
  bls_N :: int
  bls_TotalN :: int
  bls_NodeIndex :: int
  bls_GroupPublicPoly :: "'poly option"
  bls_GroupPrivateShare :: "(int \<times> 'sc) option"
  bls_own :: 'o

record ('o, 'sc, 'pt, 'poly) suite =
  MulBase :: "'sc \<Rightarrow> 'pt"
  ScAdd :: "'sc \<Rightarrow> 'sc \<Rightarrow> 'sc"
  ScZero :: 'sc
  ScMarshal :: "'sc \<Rightarrow> bytes"
  ScUnmarshal :: "bytes \<Rightarrow> 'sc"
  PtNew :: 'pt
  PtUnmarshal :: "bytes \<Rightarrow> 'pt"
  RecoverPubPoly :: "(int \<times> 'pt) option list \<Rightarrow> int \<Rightarrow> int \<Rightarrow> 'poly option"
  PolyAdd :: "'poly \<Rightarrow> 'poly \<Rightarrow> 'poly option"
  PolyEval :: "'poly \<Rightarrow> int \<Rightarrow> 'pt"
  BlsVerify :: "'poly \<Rightarrow> bytes \<Rightarrow> bytes \<Rightarrow> bool"
  VerifyED25519 :: "bytes \<Rightarrow> bytes \<Rightarrow> bytes \<Rightarrow> bool \<times> bool"
  GenerateRandomNumber :: "('o, 'sc, 'poly) BLS \<Rightarrow> bytes \<Rightarrow> (int \<times> bytes) list \<Rightarrow> bytes option"
  GetPrivateShares :: "('o, 'sc, 'poly) BLS \<Rightarrow> int \<Rightarrow> (int \<times> 'sc) list"
  GetPublicShares :: "('o, 'sc, 'poly) BLS \<Rightarrow> int \<Rightarrow> (int \<times> 'pt) list"
  UnmarshalPublicShares :: "bytes \<Rightarrow> bytes \<Rightarrow> (int \<times> 'pt) list \<times> bytes \<times> bytes"
  UnmarshalPrivateShares :: "bytes \<Rightarrow> int \<Rightarrow> bytes \<Rightarrow> (int \<times> 'sc) list \<times> bytes \<times> bytes"
  MarshalPublicShares :: "(int \<times> 'pt) list \<Rightarrow> bytes"
  MarshalPrivateShares :: "(int \<times> 'sc) list \<Rightarrow> (int \<times> bytes) list \<Rightarrow> bytes"
  JsonPublic :: "bytes \<Rightarrow> (int \<times> bytes) list"
  JsonPrivate :: "bytes \<Rightarrow> (int \<times> bytes) list"
  Gunzip :: "bytes \<Rightarrow> bytes go"
  Gzip :: "bytes \<Rightarrow> bytes"

text \<open>\<open>VerifyED25519\<close> gives whether the signature is valid and whether there was an error; the key is
  given by its bytes.  The waiting loops look once a second until a deadline: their list of
  rounds is what each look saw, the last one after the deadline.\<close>

record upload_round =
  ur_lastNodeChange :: "int option"
  ur_threshold :: "int option"
  ur_lastUpload :: "address \<Rightarrow> int option"

record ('o, 'sc, 'poly) vss_env =
  e_configVersion :: "int option"
  e_activeMembers :: "address list option"
  e_nodesIndexs :: "int list option"
  e_uploadRounds :: "upload_round list"
  e_threshold :: "int option"
  e_nodeIndex :: "int option"
  e_nodeCount :: "int option"
  e_nodesPubkey :: "bytes list option"
  e_NewBLS :: "int \<Rightarrow> address list \<Rightarrow> int \<Rightarrow> int \<Rightarrow> ('o, 'sc, 'poly) BLS"
  e_uploadBefore :: "address \<Rightarrow> int option"
  e_publicRounds :: "(address \<Rightarrow> bytes) list"
  e_privateRounds :: "(address \<Rightarrow> bytes) list"
  e_uploadAfter :: "address \<Rightarrow> int option"
  e_nodesIndexsReveal :: "int list option"
  e_lastUpload :: "int option"
  e_lastNodeChange :: "int option"

datatype vss_call =
    Vote int
  | RevealShare address bytes bytes bytes bytes bytes
  | UploadShares bytes bytes
  | ReportSlowNode address

datatype vss_result = VssConfigVote | VssConfigReveal | VssConfigRecheck | VssConfigOmit

section \<open>State\<close>

record ('o, 'sc, 'poly) DKG =
  d_Vssid :: address
  d_Bls :: "('o, 'sc, 'poly) BLS option"
  d_prevbls :: "('o, 'sc, 'poly) BLS list"
  d_AllSigs :: "(bytes \<times> bytes) list"
  d_vssEnabled :: bool
  d_nodesPubkey :: "(address \<times> bytes) list"
  d_NodeList :: "address list"
  d_vssSeenConfigs :: "(int \<times> bool) list"
  d_vssSettings :: "(int \<times> ('o, 'sc, 'poly) BLS) list"
  d_currentConfigVersion :: int
  d_uploadedConfigTime :: int
  d_AddressToIndex :: "(address \<times> int) list"
  d_IndexToAddress :: "(int \<times> address) list"
  d_calls :: "vss_call list"

text \<open>\<open>New\<close>, once the clients it dials are there; the zero \<open>time.Time\<close> is the given \<open>zeroTime\<close>.\<close>

definition NewDKG :: "address \<Rightarrow> address list option \<Rightarrow> int \<Rightarrow> ('o, 'sc, 'poly) DKG" where
  "NewDKG vssid members zeroTime =
     \<lparr>d_Vssid = vssid, d_Bls = None, d_prevbls = [], d_AllSigs = [], d_vssEnabled = True, d_nodesPubkey = [],
      d_NodeList = (case members of None \<Rightarrow> [] | Some l \<Rightarrow> l), d_vssSeenConfigs = [], d_vssSettings = [],
      d_currentConfigVersion = 0, d_uploadedConfigTime = zeroTime, d_AddressToIndex = [],
      d_IndexToAddress = [], d_calls = []\<rparr>"

section \<open>Readiness and signatures\<close>

definition IsVSSReady :: "('o, 'sc, 'poly) DKG \<Rightarrow> bool" where
  "IsVSSReady d \<longleftrightarrow> d_vssEnabled d
     \<and> (case d_Bls d of None \<Rightarrow> False | Some bls \<Rightarrow> bls_GroupPrivateShare bls \<noteq> None)"

definition ShouldSkipVSS :: "('o, 'sc, 'poly) DKG \<Rightarrow> int \<Rightarrow> bool" where
  "ShouldSkipVSS d blockNumber \<longleftrightarrow> \<not> d_vssEnabled d \<or> blockNumber < 1"

definition ValidateProposerSig ::
  "('o, 'sc, 'pt, 'poly) suite \<Rightarrow> ('o, 'sc, 'poly) DKG \<Rightarrow> bytes \<Rightarrow> address \<Rightarrow> bytes \<Rightarrow> bool \<Rightarrow> int \<Rightarrow> bool" where
  "ValidateProposerSig su d proposerSig proposer blsSig syncBlock blockNumber =
     (if syncBlock then True
      else if ShouldSkipVSS d blockNumber then True
      else if \<not> IsVSSReady d then False
      else case map_of (d_nodesPubkey d) proposer of
          None \<Rightarrow> False
        | Some pubkey \<Rightarrow> fst (VerifyED25519 su pubkey blsSig proposerSig))"

text \<open>\<open>blslib.Verify\<close> under the commitment of a group polynomial; without one the code
  dereferences nil.\<close>

definition verify_under :: "('o, 'sc, 'pt, 'poly) suite \<Rightarrow> bytes \<Rightarrow> bytes \<Rightarrow> ('o, 'sc, 'poly) BLS \<Rightarrow> bool go" where
  "verify_under su toSign blsSig bls =
     map_option (\<lambda>poly. BlsVerify su poly toSign blsSig) (bls_GroupPublicPoly bls)"

fun verify_previous ::
  "('o, 'sc, 'pt, 'poly) suite \<Rightarrow> bytes \<Rightarrow> bytes \<Rightarrow> ('o, 'sc, 'poly) BLS list \<Rightarrow> bool go" where
  "verify_previous su toSign blsSig [] = Some False"
| "verify_previous su toSign blsSig (bls # rest) = do {
     ok \<leftarrow> verify_under su toSign blsSig bls;
     if ok then Some True else verify_previous su toSign blsSig rest }"

definition ValidateBLSSig ::
  "('o, 'sc, 'pt, 'poly) suite \<Rightarrow> ('o, 'sc, 'poly) DKG \<Rightarrow> bytes \<Rightarrow> bytes \<Rightarrow> bool \<Rightarrow> int \<Rightarrow> bool go" where
  "ValidateBLSSig su d toSign blsSig syncBlock blockNumber =
     (if syncBlock then Some True
      else if ShouldSkipVSS d blockNumber then Some True
      else if \<not> IsVSSReady d then Some False
      else do {
        bls \<leftarrow> d_Bls d;
        ok \<leftarrow> verify_under su toSign blsSig bls;
        if ok then Some True else verify_previous su toSign blsSig (d_prevbls d) })"

text \<open>One message of the loop \<open>HandleSigShares\<close>, whose local map of shares is an argument.\<close>

type_synonym sig_shares = "(bytes \<times> (int \<times> bytes) list) list"

definition HandleSigShare ::
  "('o, 'sc, 'pt, 'poly) suite \<Rightarrow> bytes \<Rightarrow> int \<Rightarrow> bytes \<Rightarrow> sig_shares \<times> ('o, 'sc, 'poly) DKG
     \<Rightarrow> sig_shares \<times> ('o, 'sc, 'poly) DKG" where
  "HandleSigShare su key fromIndex sig = (\<lambda>(allSigShares, d).
     let sigs = AList.update (big_Int64 fromIndex) sig
           (case map_of allSigShares key of None \<Rightarrow> [] | Some m \<Rightarrow> m);
         allSigShares = AList.update key sigs allSigShares
     in if \<not> IsVSSReady d then (allSigShares, d)
        else case d_Bls d of
            None \<Rightarrow> (allSigShares, d)
          | Some bls \<Rightarrow>
              if int (length sigs) < bls_Threshold bls then (allSigShares, d)
              else case GenerateRandomNumber su bls key sigs of
                  None \<Rightarrow> (allSigShares, d)
                | Some s \<Rightarrow> (AList.delete key allSigShares, d\<lparr>d_AllSigs := AList.update key s (d_AllSigs d)\<rparr>))"

text \<open>\<open>GetBlsSig\<close> looks once a second, \<open>BlockInterval\<close> times at most; \<open>polls\<close> is the cache at each
  look, in which an entry may have expired.\<close>

fun first_sig :: "(bytes \<times> bytes) list list \<Rightarrow> bytes \<Rightarrow> bytes option" where
  "first_sig [] key = None"
| "first_sig (sigs # later) key = (case map_of sigs key of Some s \<Rightarrow> Some s | None \<Rightarrow> first_sig later key)"

definition GetBlsSig :: "(bytes \<times> bytes) list list \<Rightarrow> bytes \<Rightarrow> bytes option" where
  "GetBlsSig polls key = first_sig (take 10 polls) key"

section \<open>Reading the contract\<close>

text \<open>\<open>n.Uint64()\<close> of a number that was read, as a Go \<open>int\<close> where the code converts it.\<close>

definition read_uint64 :: "int option \<Rightarrow> u64 go" where
  "read_uint64 n = map_option big_Uint64 n"

text \<open>A loop over the nodes that takes the answer of the same position from a slice.\<close>

fun index_answers :: "address list \<Rightarrow> 'a list \<Rightarrow> (address \<times> 'a) list \<Rightarrow> (address \<times> 'a) list go" where
  "index_answers [] answers result = Some result"
| "index_answers (addr # rest) [] result = None"
| "index_answers (addr # rest) (a # answers) result = index_answers rest answers (AList.update addr a result)"

definition GetVSSNodesPubkey :: "address list \<Rightarrow> bytes list option \<Rightarrow> ((address \<times> bytes) list \<times> bool) go" where
  "GetVSSNodesPubkey activeNodeList answer = do {
     let publickeys = (case answer of None \<Rightarrow> [] | Some ks \<Rightarrow> ks);
     result \<leftarrow> index_answers activeNodeList publickeys [];
     let emptyPubkey = length (filter (\<lambda>k. length k = 32) (take (length activeNodeList) publickeys));
     Some (result, 0 < emptyPubkey) }"

definition GetVSSNodesIndexs :: "address list \<Rightarrow> int list option \<Rightarrow> (address \<times> int) list go" where
  "GetVSSNodesIndexs activeMemberList answer =
     index_answers activeMemberList (case answer of None \<Rightarrow> [] | Some is \<Rightarrow> map big_Int64 is) []"

definition FindAddressInNodelist :: "address list option \<Rightarrow> address \<Rightarrow> int \<times> int" where
  "FindAddressInNodelist members myAddr =
     (let nodelist = (case members of None \<Rightarrow> [] | Some l \<Rightarrow> l);
          i = length (takeWhile (\<lambda>a. a \<noteq> myAddr) nodelist)
      in (if i < length nodelist then int i else - 1, int (length nodelist)))"

text \<open>\<open>GetVSSShares\<close>: one look at every node still missing, and the loop over looks; the result of the
  loop is the shares, or the nodes still missing at the deadline.\<close>

fun receive_round ::
  "('o, 'sc, 'pt, 'poly) suite \<Rightarrow> (address \<Rightarrow> bytes) \<Rightarrow> address list \<Rightarrow> (address \<times> bytes) list
     \<Rightarrow> (address \<times> bytes) list go" where
  "receive_round su answer [] received = Some received"
| "receive_round su answer (addr # rest) received =
     (if map_of received addr \<noteq> None then receive_round su answer rest received
      else if 1 < length (answer addr) then do {
        shares \<leftarrow> Gunzip su (answer addr);
        receive_round su answer rest (AList.update addr shares received) }
      else receive_round su answer rest received)"

fun shares_loop ::
  "('o, 'sc, 'pt, 'poly) suite \<Rightarrow> address list \<Rightarrow> (address \<Rightarrow> bytes) list \<Rightarrow> (address \<times> bytes) list
     \<Rightarrow> (address list + (address \<times> bytes) list) go" where
  "shares_loop su activeNodeList [] received =
     Some (Inl (filter (\<lambda>addr. map_of received addr = None) activeNodeList))"
| "shares_loop su activeNodeList (answer # rounds) received = do {
     received \<leftarrow> receive_round su answer activeNodeList received;
     if length received = length activeNodeList then Some (Inr received)
     else shares_loop su activeNodeList rounds received }"

definition GetVSSShares ::
  "('o, 'sc, 'pt, 'poly) suite \<Rightarrow> (address \<Rightarrow> bytes) list \<Rightarrow> address list
     \<Rightarrow> (address list + (address \<times> bytes) list) go" where
  "GetVSSShares su rounds activeNodeList = shares_loop su activeNodeList rounds []"

text \<open>\<open>shouldUpdateVSSConfig\<close>: whether all nodes have uploaded, and how many; then the wait for them.\<close>

fun count_uptodate :: "u64 \<Rightarrow> (address \<Rightarrow> int option) \<Rightarrow> address list \<Rightarrow> bool \<Rightarrow> int \<Rightarrow> (bool \<times> int) go" where
  "count_uptodate lastNodeChange lastUpload [] allUptoDate cnt = Some (allUptoDate, cnt)"
| "count_uptodate lastNodeChange lastUpload (addr # rest) allUptoDate cnt = do {
     lastConfigUpload \<leftarrow> read_uint64 (lastUpload addr);
     if lastConfigUpload < lastNodeChange then count_uptodate lastNodeChange lastUpload rest False cnt
     else count_uptodate lastNodeChange lastUpload rest allUptoDate (cnt + 1) }"

fun update_wait :: "address list \<Rightarrow> upload_round list \<Rightarrow> bool go" where
  "update_wait activeNodeList [] = Some False"
| "update_wait activeNodeList (r # rounds) = do {
     lastNodeChange \<leftarrow> read_uint64 (ur_lastNodeChange r);
     threshold \<leftarrow> read_uint64 (ur_threshold r);
     (allUptoDate, cnt) \<leftarrow> count_uptodate lastNodeChange (ur_lastUpload r) activeNodeList True 0;
     if allUptoDate then Some True
     else if rounds = [] then Some (sint threshold \<le> cnt)
     else update_wait activeNodeList rounds }"

definition shouldUpdateVSSConfig ::
  "('o, 'sc, 'poly) DKG \<Rightarrow> int \<Rightarrow> address list \<Rightarrow> upload_round list \<Rightarrow> bool go" where
  "shouldUpdateVSSConfig d vssConfigVersion activeNodeList rounds =
     (if d_currentConfigVersion d < vssConfigVersion then update_wait activeNodeList rounds else Some False)"

fun IsNodeActive :: "('o, 'sc, 'poly) DKG \<Rightarrow> address list \<Rightarrow> bool" where
  "IsNodeActive d [] = False"
| "IsNodeActive d (nodeAddr # rest) = (d_Vssid d = nodeAddr \<or> IsNodeActive d rest)"

section \<open>Checking and combining shares\<close>

text \<open>\<open>verifyShares\<close>: the private share every sender made for this node against its public share.\<close>

fun check_pri ::
  "('o, 'sc, 'pt, 'poly) suite \<Rightarrow> int \<Rightarrow> address \<Rightarrow> 'pt \<Rightarrow> (int \<times> 'sc) list \<Rightarrow> (address \<times> (int \<times> 'sc)) list
     \<Rightarrow> (address \<times> (int \<times> 'sc)) list" where
  "check_pri su nodeIndex sender pubV [] notVerify = notVerify"
| "check_pri su nodeIndex sender pubV ((i, v) # prishares) notVerify =
     check_pri su nodeIndex sender pubV prishares
       (if i = nodeIndex \<and> MulBase su v \<noteq> pubV then AList.update sender (i, v) notVerify else notVerify)"

fun check_pub ::
  "('o, 'sc, 'pt, 'poly) suite \<Rightarrow> int \<Rightarrow> address \<Rightarrow> (int \<times> 'sc) list option \<Rightarrow> (int \<times> 'pt) list
     \<Rightarrow> (address \<times> (int \<times> 'sc)) list \<Rightarrow> (address \<times> (int \<times> 'sc)) list" where
  "check_pub su nodeIndex sender pris [] notVerify = notVerify"
| "check_pub su nodeIndex sender pris ((i, pubV) # pubshares) notVerify =
     check_pub su nodeIndex sender pris pubshares
       (if i = nodeIndex then (case pris of None \<Rightarrow> notVerify
          | Some prishares \<Rightarrow> check_pri su nodeIndex sender pubV prishares notVerify) else notVerify)"

fun verify_senders ::
  "('o, 'sc, 'pt, 'poly) suite \<Rightarrow> int \<Rightarrow> (address \<times> (int \<times> 'pt) list) list \<Rightarrow> (address \<times> (int \<times> 'sc) list) list
     \<Rightarrow> (address \<times> (int \<times> 'sc)) list \<Rightarrow> (address \<times> (int \<times> 'sc)) list" where
  "verify_senders su nodeIndex [] pris notVerify = notVerify"
| "verify_senders su nodeIndex ((sender, pubshares) # pubs) pris notVerify =
     verify_senders su nodeIndex pubs pris
       (check_pub su nodeIndex sender (map_of pris sender) pubshares notVerify)"

definition verifyShares ::
  "('o, 'sc, 'pt, 'poly) suite \<Rightarrow> ('o, 'sc, 'poly) BLS \<Rightarrow> (address \<times> (int \<times> 'pt) list) list
     \<Rightarrow> (address \<times> (int \<times> 'sc) list) list \<Rightarrow> (address \<times> (int \<times> 'sc)) list" where
  "verifyShares su sciBls pubs pris = verify_senders su (bls_NodeIndex sciBls) pubs pris []"

text \<open>The decoding loops keep the shares of the senders whose key is known.\<close>

definition decode_shares ::
  "(bytes \<Rightarrow> bytes \<Rightarrow> 'a) \<Rightarrow> (address \<times> bytes) list \<Rightarrow> (address \<times> bytes) list \<Rightarrow> (address \<times> 'a) list" where
  "decode_shares unmarshal nodesPubkey shares =
     List.map_filter (\<lambda>(addr, raw). map_option (\<lambda>pubkey. (addr, unmarshal raw pubkey)) (map_of nodesPubkey addr)) shares"

definition recover_poly ::
  "('o, 'sc, 'pt, 'poly) suite \<Rightarrow> ('o, 'sc, 'poly) BLS \<Rightarrow> (int \<times> 'pt) list \<Rightarrow> 'poly option" where
  "recover_poly su sciBls ps = RecoverPubPoly su
     (map (\<lambda>(i, v). if i < 0 then None else Some (i, v)) ps) (bls_Threshold sciBls) (bls_TotalN sciBls)"

fun add_polys ::
  "('o, 'sc, 'pt, 'poly) suite \<Rightarrow> ('o, 'sc, 'poly) BLS \<Rightarrow> 'poly \<Rightarrow> (int \<times> 'pt) list list \<Rightarrow> 'poly option" where
  "add_polys su sciBls poly [] = Some poly"
| "add_polys su sciBls poly (ps # rest) = do {
     pubpoly \<leftarrow> recover_poly su sciBls ps;
     sum \<leftarrow> PolyAdd su poly pubpoly;
     add_polys su sciBls sum rest }"

definition group_share :: "('o, 'sc, 'pt, 'poly) suite \<Rightarrow> int \<Rightarrow> (int \<times> 'sc) list list \<Rightarrow> 'sc" where
  "group_share su nodeIndex pris =
     foldl (\<lambda>acc (i, v). if i = nodeIndex then ScAdd su acc v else acc) (ScZero su) (concat pris)"

section \<open>The configuration handlers\<close>

text \<open>\<open>UpdateVSSConfig\<close> from the point where every share has been verified: the group polynomial, this
  node's share of the group key, and the vote.  An empty list of shares is an index panic.\<close>

definition vote_config ::
  "('o, 'sc, 'pt, 'poly) suite \<Rightarrow> int \<Rightarrow> ('o, 'sc, 'poly) BLS \<Rightarrow> (int \<times> 'pt) list list \<Rightarrow> (int \<times> 'sc) list list
     \<Rightarrow> ('o, 'sc, 'poly) DKG \<Rightarrow> (vss_result \<times> ('o, 'sc, 'poly) DKG) go" where
  "vote_config su version sciBls pubs pris d =
     (case pubs of
        [] \<Rightarrow> None
      | ps # rest \<Rightarrow>
          case Option.bind (recover_poly su sciBls ps) (\<lambda>poly. add_polys su sciBls poly rest) of
            None \<Rightarrow> Some (VssConfigRecheck, d)
          | Some poly \<Rightarrow>
              let groupPrivateShare = group_share su (bls_NodeIndex sciBls) pris;
                  sciBls = sciBls\<lparr>bls_GroupPublicPoly := Some poly,
                    bls_GroupPrivateShare := Some (bls_NodeIndex sciBls, groupPrivateShare)\<rparr>
              in if PolyEval su poly (bls_NodeIndex sciBls) = MulBase su groupPrivateShare
                 then Some (VssConfigVote, d\<lparr>d_calls := d_calls d @ [Vote version],
                              d_vssSettings := AList.update version sciBls (d_vssSettings d)\<rparr>)
                 else Some (VssConfigRecheck, d))"

text \<open>The part that reports the senders whose share does not verify.\<close>

definition reveal_calls ::
  "('o, 'sc, 'pt, 'poly) suite \<Rightarrow> (address \<times> bytes \<times> bytes) list \<Rightarrow> (address \<times> bytes \<times> bytes) list
     \<Rightarrow> (address \<times> (int \<times> 'sc)) list \<Rightarrow> vss_call list" where
  "reveal_calls su signedPub signedPri notVerify =
     map (\<lambda>(addr, (i, v)).
       let (pub, pubSig) = (case map_of signedPub addr of None \<Rightarrow> ([], []) | Some s \<Rightarrow> s);
           (pri, priSig) = (case map_of signedPri addr of None \<Rightarrow> ([], []) | Some s \<Rightarrow> s)
       in RevealShare addr pub pubSig pri priSig (ScMarshal su v)) notVerify"

text \<open>The upload counters of the nodes, and the loop that stops at the first one that has changed.\<close>

definition upload_counters :: "(address \<Rightarrow> int option) \<Rightarrow> address list \<Rightarrow> u64 list go" where
  "upload_counters lastUpload active = those (map (\<lambda>addr. read_uint64 (lastUpload addr)) active)"

fun upload_changed :: "(address \<Rightarrow> int option) \<Rightarrow> address list \<Rightarrow> u64 list \<Rightarrow> bool go" where
  "upload_changed lastUpload (addr # active) (before # counters) = do {
     after \<leftarrow> read_uint64 (lastUpload addr);
     if before \<noteq> after then Some True else upload_changed lastUpload active counters }"
| "upload_changed lastUpload _ _ = Some False"

text \<open>The part between the reading of the node keys and the verification.\<close>

definition update_shares ::
  "('o, 'sc, 'pt, 'poly) suite \<Rightarrow> ('o, 'sc, 'poly) vss_env \<Rightarrow> int \<Rightarrow> address list \<Rightarrow> ('o, 'sc, 'poly) BLS
     \<Rightarrow> ('o, 'sc, 'poly) DKG \<Rightarrow> (vss_result \<times> ('o, 'sc, 'poly) DKG) go" where
  "update_shares su env version active sciBls d = do {
     before \<leftarrow> upload_counters (e_uploadBefore env) active;
     pubshares \<leftarrow> GetVSSShares su (e_publicRounds env) active;
     case pubshares of
       Inl missing \<Rightarrow> Some (VssConfigRecheck, d)
     | Inr pubshares \<Rightarrow> do {
         prishares \<leftarrow> GetVSSShares su (e_privateRounds env) active;
         case prishares of
           Inl missing \<Rightarrow> Some (VssConfigRecheck, d)
         | Inr prishares \<Rightarrow> do {
             changed \<leftarrow> upload_changed (e_uploadAfter env) active before;
             if changed then Some (VssConfigRecheck, d)
             else do {
               let pubs = decode_shares (UnmarshalPublicShares su) (d_nodesPubkey d) pubshares;
               let pris = decode_shares (\<lambda>raw. UnmarshalPrivateShares su raw (bls_NodeIndex sciBls))
                 (d_nodesPubkey d) prishares;
               let notVerify = verifyShares su sciBls (map (\<lambda>(a, s). (a, fst s)) pubs) (map (\<lambda>(a, s). (a, fst s)) pris);
               if notVerify \<noteq> [] then do {
                 _ \<leftarrow> GetVSSNodesIndexs active (e_nodesIndexsReveal env);
                 Some (VssConfigReveal, d\<lparr>d_calls := d_calls d
                   @ reveal_calls su (map (\<lambda>(a, s). (a, snd s)) pubs) (map (\<lambda>(a, s). (a, snd s)) pris) notVerify\<rparr>) }
               else vote_config su version sciBls (map (fst \<circ> snd) pubs) (map (fst \<circ> snd) pris) d } } } }"

definition UpdateVSSConfig ::
  "('o, 'sc, 'pt, 'poly) suite \<Rightarrow> ('o, 'sc, 'poly) vss_env \<Rightarrow> ('o, 'sc, 'poly) DKG
     \<Rightarrow> (vss_result \<times> ('o, 'sc, 'poly) DKG) go" where
  "UpdateVSSConfig su env d0 = do {
     version \<leftarrow> map_option sint (read_uint64 (e_configVersion env));
     let active = (case e_activeMembers env of None \<Rightarrow> [] | Some l \<Rightarrow> l);
     addressToIndex \<leftarrow> GetVSSNodesIndexs active (e_nodesIndexs env);
     let d = d0\<lparr>d_NodeList := active, d_AddressToIndex := addressToIndex,
       d_IndexToAddress := foldl (\<lambda>m (addr, i). AList.update i addr m) [] addressToIndex\<rparr>;
     if e_activeMembers env = None then Some (VssConfigRecheck, d)
     else do {
       should \<leftarrow> shouldUpdateVSSConfig d version active (e_uploadRounds env);
       if \<not> should then Some (VssConfigOmit, d)
       else do {
         threshold \<leftarrow> map_option sint (read_uint64 (e_threshold env));
         vssNodeCount \<leftarrow> map_option sint (read_uint64 (e_nodeCount env));
         if \<not> IsNodeActive d active then Some (VssConfigRecheck, d)
         else do {
           (nodesPubkey, _) \<leftarrow> GetVSSNodesPubkey active (e_nodesPubkey env);
           let d = d\<lparr>d_nodesPubkey := nodesPubkey\<rparr>;
           if int (length active) < threshold then Some (VssConfigRecheck, d)
           else do {
             vssNodeIndex \<leftarrow> map_option big_Int64 (e_nodeIndex env);
             update_shares su env version active (e_NewBLS env threshold active vssNodeIndex vssNodeCount) d } } } } }"

definition setVssConfig :: "int \<Rightarrow> ('o, 'sc, 'poly) DKG \<Rightarrow> ('o, 'sc, 'poly) DKG" where
  "setVssConfig version d =
     (case map_of (d_vssSettings d) version of
        None \<Rightarrow> d
      | Some bls \<Rightarrow>
          if d_currentConfigVersion d < version then
            let prev = (case d_Bls d of None \<Rightarrow> d_prevbls d | Some b \<Rightarrow> b # d_prevbls d);
                prev = (if length prev > 100 then butlast prev else prev)
            in d\<lparr>d_prevbls := prev, d_Bls := Some bls, d_currentConfigVersion := version\<rparr>
          else d)"

text \<open>\<open>RunVssStateMachine\<close> reads the version itself, \<open>UpdateVSSConfig\<close> reads it again; a failed
  \<open>IsConfigReady\<close> answers false.\<close>

definition RunVssStateMachine ::
  "('o, 'sc, 'pt, 'poly) suite \<Rightarrow> ('o, 'sc, 'poly) vss_env \<Rightarrow> int option \<Rightarrow> bool \<Rightarrow> ('o, 'sc, 'poly) DKG
     \<Rightarrow> ('o, 'sc, 'poly) DKG go" where
  "RunVssStateMachine su env configVersion ready d = do {
     version \<leftarrow> map_option sint (read_uint64 configVersion);
     if map_of (d_vssSeenConfigs d) version \<noteq> Some True then do {
       (updateResult, d) \<leftarrow> UpdateVSSConfig su env d;
       Some (if updateResult \<noteq> VssConfigRecheck
             then d\<lparr>d_vssSeenConfigs := AList.update version True (d_vssSeenConfigs d)\<rparr> else d) }
     else Some (if ready then setVssConfig version d else d) }"

section \<open>Uploading shares\<close>

text \<open>Times are in seconds.\<close>

definition ShouldUploadVSSConfig ::
  "('o, 'sc, 'poly) vss_env \<Rightarrow> int \<Rightarrow> address list \<Rightarrow> bool \<Rightarrow> ('o, 'sc, 'poly) DKG \<Rightarrow> bool go" where
  "ShouldUploadVSSConfig env now active forceUpdate d =
     (if \<not> IsNodeActive d active then Some False
      else if forceUpdate then Some True
      else if now < d_uploadedConfigTime d + 120 then Some False
      else do {
        lastConfigUpload \<leftarrow> read_uint64 (e_lastUpload env);
        lastNodeChange \<leftarrow> read_uint64 (e_lastNodeChange env);
        if lastConfigUpload = 0 then Some True else Some (lastConfigUpload \<le> lastNodeChange) })"

text \<open>The shares of the active nodes, padded with empty ones up to the number of all nodes.\<close>

definition padded_shares :: "('o, 'sc, 'poly) BLS \<Rightarrow> (address \<times> int) list \<Rightarrow> 'v \<Rightarrow> (int \<times> 'v) list \<Rightarrow> (int \<times> 'v) list" where
  "padded_shares sciBls indexes pad shares =
     concat (map (\<lambda>(_, nodeIndex). filter (\<lambda>ps. fst ps = nodeIndex) shares) indexes)
     @ replicate (nat (bls_TotalN sciBls - bls_N sciBls)) (- 1, pad)"

definition UploadVSSConfig ::
  "('o, 'sc, 'pt, 'poly) suite \<Rightarrow> ('o, 'sc, 'poly) vss_env \<Rightarrow> int \<Rightarrow> bool \<Rightarrow> ('o, 'sc, 'poly) DKG
     \<Rightarrow> ('o, 'sc, 'poly) DKG go" where
  "UploadVSSConfig su env now forceUpdate d0 = (
     let active = (case e_activeMembers env of None \<Rightarrow> [] | Some l \<Rightarrow> l);
         d = d0\<lparr>d_NodeList := active\<rparr>
     in if e_activeMembers env = None then Some d
     else do {
       threshold \<leftarrow> map_option sint (read_uint64 (e_threshold env));
       should \<leftarrow> ShouldUploadVSSConfig env now active forceUpdate d;
       if \<not> should then Some d
       else do {
         indexes \<leftarrow> GetVSSNodesIndexs active (e_nodesIndexs env);
         vssNodeCount \<leftarrow> map_option sint (read_uint64 (e_nodeCount env));
         (pubkeys, _) \<leftarrow> GetVSSNodesPubkey active (e_nodesPubkey env);
         let d = d\<lparr>d_nodesPubkey := pubkeys\<rparr>;
         let indexKeys = foldl (\<lambda>m (addr, key). case map_of indexes addr of
             None \<Rightarrow> m | Some index \<Rightarrow> AList.update index key m) [] pubkeys;
         vssNodeIndex \<leftarrow> map_option big_Int64 (e_nodeIndex env);
         let sciBls = e_NewBLS env threshold active vssNodeIndex vssNodeCount;
         let pubs = padded_shares sciBls indexes (PtNew su) (GetPublicShares su sciBls (bls_TotalN sciBls));
         let pris = padded_shares sciBls indexes (ScZero su) (GetPrivateShares su sciBls (bls_TotalN sciBls));
         Some (d\<lparr>d_calls := d_calls d @ [UploadShares (Gzip su (MarshalPublicShares su pubs))
                   (Gzip su (MarshalPrivateShares su pris indexKeys))],
                 d_uploadedConfigTime := now\<rparr>) } })"

section \<open>What a handler may change\<close>

text \<open>This node's share of a group key fits the group's public polynomial.\<close>

definition config_ok :: "('o, 'sc, 'pt, 'poly) suite \<Rightarrow> ('o, 'sc, 'poly) BLS \<Rightarrow> bool" where
  "config_ok su bls \<longleftrightarrow> (case (bls_GroupPublicPoly bls, bls_GroupPrivateShare bls) of
       (Some poly, Some (i, v)) \<Rightarrow> i = bls_NodeIndex bls \<and> PolyEval su poly i = MulBase su v
     | _ \<Rightarrow> False)"

text \<open>What \<open>UpdateVSSConfig\<close> leaves alone.\<close>

definition same_config :: "('o, 'sc, 'poly) DKG \<Rightarrow> ('o, 'sc, 'poly) DKG \<Rightarrow> bool" where
  "same_config d d' \<longleftrightarrow> d_Bls d' = d_Bls d \<and> d_prevbls d' = d_prevbls d
     \<and> d_currentConfigVersion d' = d_currentConfigVersion d \<and> d_vssSeenConfigs d' = d_vssSeenConfigs d
     \<and> d_vssEnabled d' = d_vssEnabled d \<and> d_AllSigs d' = d_AllSigs d
     \<and> d_uploadedConfigTime d' = d_uploadedConfigTime d \<and> d_Vssid d' = d_Vssid d"

definition is_reveal :: "vss_call \<Rightarrow> bool" where
  "is_reveal c \<longleftrightarrow> (\<exists>a p ps q qs r. c = RevealShare a p ps q qs r)"

text \<open>Every outcome of \<open>UpdateVSSConfig\<close>: nothing sent and nothing stored, shares revealed, or a
  vote together with a stored configuration whose share has been checked.\<close>

definition update_outcome ::
  "('o, 'sc, 'pt, 'poly) suite \<Rightarrow> int \<Rightarrow> ('o, 'sc, 'poly) DKG \<Rightarrow> vss_result \<Rightarrow> ('o, 'sc, 'poly) DKG \<Rightarrow> bool" where
  "update_outcome su version d r d' \<longleftrightarrow> same_config d d' \<and>
     (r \<in> {VssConfigRecheck, VssConfigOmit} \<and> d_calls d' = d_calls d \<and> d_vssSettings d' = d_vssSettings d
      \<or> r = VssConfigReveal \<and> d_vssSettings d' = d_vssSettings d
          \<and> (\<exists>cs. cs \<noteq> [] \<and> (\<forall>c\<in>set cs. is_reveal c) \<and> d_calls d' = d_calls d @ cs)
      \<or> r = VssConfigVote \<and> d_calls d' = d_calls d @ [Vote version]
          \<and> (\<exists>bls. config_ok su bls \<and> d_vssSettings d' = AList.update version bls (d_vssSettings d)))"

lemma update_outcome_quiet [intro]:
  "r \<in> {VssConfigRecheck, VssConfigOmit} \<Longrightarrow> update_outcome su version d r d"
  by (auto simp: update_outcome_def same_config_def)

lemma update_outcome_cong:
  "update_outcome su version d r d' \<Longrightarrow> same_config d0 d \<Longrightarrow> d_calls d = d_calls d0
     \<Longrightarrow> d_vssSettings d = d_vssSettings d0 \<Longrightarrow> update_outcome su version d0 r d'"
  by (auto simp: update_outcome_def same_config_def)

lemma update_outcome_vote:
  assumes "config_ok su bls"
  shows "update_outcome su version d VssConfigVote
    (d\<lparr>d_calls := d_calls d @ [Vote version], d_vssSettings := AList.update version bls (d_vssSettings d)\<rparr>)"
  unfolding update_outcome_def using assms by (intro conjI disjI2 exI [of _ bls]) (simp_all add: same_config_def)

lemma config_ok_new:
  "PolyEval su poly (bls_NodeIndex b) = MulBase su v \<Longrightarrow>
     config_ok su (b\<lparr>bls_GroupPublicPoly := Some poly, bls_GroupPrivateShare := Some (bls_NodeIndex b, v)\<rparr>)"
  by (simp add: config_ok_def)

lemma vote_config_outcome:
  "vote_config su version sciBls pubs pris d = Some (r, d') \<Longrightarrow> update_outcome su version d r d'"
  by (auto simp: vote_config_def Let_def intro!: update_outcome_vote config_ok_new
      split: list.splits option.splits if_splits)

lemma reveal_calls_reveal: "c \<in> set (reveal_calls su p q nv) \<Longrightarrow> is_reveal c"
  by (auto simp: reveal_calls_def is_reveal_def Let_def split: prod.splits)

lemma reveal_calls_empty [simp]: "reveal_calls su p q nv = [] \<longleftrightarrow> nv = []"
  by (simp add: reveal_calls_def)

lemma update_shares_outcome:
  assumes "update_shares su env version active sciBls d = Some (r, d')"
  shows "update_outcome su version d r d'"
proof -
  have reveal: "update_outcome su version d VssConfigReveal (d\<lparr>d_calls := d_calls d @ reveal_calls su p q nv\<rparr>)"
    if "nv \<noteq> []" for p q nv
    using that reveal_calls_reveal by (fastforce simp: update_outcome_def same_config_def)
  show ?thesis using assms
    by (auto simp: update_shares_def Let_def intro: reveal vote_config_outcome
        split: Option.bind_splits sum.splits if_splits)
qed

lemma update_outcome_quiet_iff:
  "r \<in> {VssConfigRecheck, VssConfigOmit} \<Longrightarrow> update_outcome su version d r d' \<longleftrightarrow>
     same_config d d' \<and> d_calls d' = d_calls d \<and> d_vssSettings d' = d_vssSettings d"
  by (auto simp: update_outcome_def)

lemma UpdateVSSConfig_outcome:
  assumes "UpdateVSSConfig su env d = Some (r, d')"
  shows "\<exists>version. map_option sint (read_uint64 (e_configVersion env)) = Some version
    \<and> update_outcome su version d r d'"
proof (cases "map_option sint (read_uint64 (e_configVersion env))")
  case None
  then show ?thesis using assms by (simp add: UpdateVSSConfig_def)
next
  case (Some version)
  have "update_outcome su version d r d'"
    using assms Some
    by (auto simp: UpdateVSSConfig_def Let_def same_config_def
        dest!: update_shares_outcome elim!: update_outcome_cong simp: update_outcome_quiet_iff
        split: Option.bind_splits if_splits option.splits)
  then show ?thesis using Some by blast
qed

section \<open>The key generation as a machine\<close>

text \<open>The loops \<open>VssStateLoop\<close>, \<open>VssUploadConfigLoop\<close> and \<open>HandleSigShares\<close>, one message each; a handler
  is one step.\<close>

inductive vss_step ::
  "('o, 'sc, 'pt, 'poly) suite \<Rightarrow> sig_shares \<times> ('o, 'sc, 'poly) DKG \<Rightarrow> sig_shares \<times> ('o, 'sc, 'poly) DKG \<Rightarrow> bool"
  for su :: "('o, 'sc, 'pt, 'poly) suite" where
  state_loop: "RunVssStateMachine su env configVersion ready d = Some d' \<Longrightarrow> vss_step su (m, d) (m, d')"
| upload_loop: "UploadVSSConfig su env now False d = Some d' \<Longrightarrow> vss_step su (m, d) (m, d')"
| sig_share: "vss_step su c (HandleSigShare su key fromIndex sig c)"

inductive_cases vss_stepE: "vss_step su c c'"

definition vss_inv :: "('o, 'sc, 'pt, 'poly) suite \<Rightarrow> sig_shares \<times> ('o, 'sc, 'poly) DKG \<Rightarrow> bool" where
  "vss_inv su = (\<lambda>(m, d).
     (\<forall>bls\<in>ran (map_of (d_vssSettings d)) \<union> set_option (d_Bls d) \<union> set (d_prevbls d). config_ok su bls)
     \<and> length (d_prevbls d) \<le> 100 \<and> d_vssEnabled d
     \<and> (\<forall>v. Vote v \<in> set (d_calls d) \<longrightarrow> v \<in> dom (map_of (d_vssSettings d))))"

lemma vss_inv_frame:
  "vss_inv su (m, d) \<Longrightarrow> d_vssEnabled d' = d_vssEnabled d \<Longrightarrow> d_Bls d' = d_Bls d \<Longrightarrow> d_prevbls d' = d_prevbls d \<Longrightarrow> d_vssSettings d' = d_vssSettings d
     \<Longrightarrow> (\<And>v. Vote v \<in> set (d_calls d') \<Longrightarrow> Vote v \<in> set (d_calls d)) \<Longrightarrow> vss_inv su (m', d')"
  by (auto simp: vss_inv_def)

lemma HandleSigShare_frame:
  assumes "HandleSigShare su key i sig (m, d) = (m', d')"
  shows "\<exists>sigs. d' = d\<lparr>d_AllSigs := sigs\<rparr>"
proof -
  have "d' = d \<or> (\<exists>sigs. d' = d\<lparr>d_AllSigs := sigs\<rparr>)"
    using assms by (auto simp: HandleSigShare_def Let_def split: if_splits option.splits)
  moreover have "d = d\<lparr>d_AllSigs := d_AllSigs d\<rparr>" by simp
  ultimately show ?thesis by metis
qed

lemma UploadVSSConfig_frame:
  "UploadVSSConfig su env now force d = Some d' \<Longrightarrow> d_Bls d' = d_Bls d \<and> d_prevbls d' = d_prevbls d
     \<and> d_vssSettings d' = d_vssSettings d \<and> d_currentConfigVersion d' = d_currentConfigVersion d
     \<and> d_vssEnabled d' = d_vssEnabled d \<and> (\<forall>v. Vote v \<in> set (d_calls d') \<longrightarrow> Vote v \<in> set (d_calls d))"
  by (auto simp: UploadVSSConfig_def Let_def split: Option.bind_splits if_splits)

lemma vss_inv_update:
  assumes "vss_inv su (m, d)" "update_outcome su version d r d'"
  shows "vss_inv su (m, d')"
  using assms(2) unfolding update_outcome_def
proof (elim conjE disjE exE)
  fix bls assume "same_config d d'" "config_ok su bls" "d_calls d' = d_calls d @ [Vote version]"
    "d_vssSettings d' = AList.update version bls (d_vssSettings d)"
  then show ?thesis using assms(1)
    by (auto simp: vss_inv_def same_config_def alist_simps ran_def split: if_splits)
qed (use assms(1) in \<open>auto elim!: vss_inv_frame simp: same_config_def is_reveal_def\<close>)

lemma vss_inv_set:
  assumes "vss_inv su (m, d)"
  shows "vss_inv su (m, setVssConfig version d)"
proof (cases "map_of (d_vssSettings d) version")
  case (Some bls)
  then have "config_ok su bls" using assms by (auto simp: vss_inv_def ran_def)
  with Some assms show ?thesis
    by (auto simp: vss_inv_def setVssConfig_def Let_def dest: in_set_butlastD split: option.splits)
qed (use assms in \<open>simp add: setVssConfig_def\<close>)

lemma vss_inv_run:
  assumes "vss_inv su (m, d)" "RunVssStateMachine su env cv ready d = Some d'"
  shows "vss_inv su (m, d')"
proof -
  have seen: "vss_inv su (m, d1) \<Longrightarrow> vss_inv su (m, d1\<lparr>d_vssSeenConfigs := x\<rparr>)" for d1 x
    by (auto simp: vss_inv_def)
  have update: "UpdateVSSConfig su env d = Some (r, d1) \<Longrightarrow> vss_inv su (m, d1)" for r d1
    using UpdateVSSConfig_outcome [of su env d r d1] vss_inv_update [OF assms(1)] by blast
  show ?thesis using assms
    by (auto simp: RunVssStateMachine_def intro!: seen dest: update intro: vss_inv_set [OF assms(1)]
        split: Option.bind_splits if_splits)
qed

lemma vss_inv_step: "vss_inv su c \<Longrightarrow> vss_step su c c' \<Longrightarrow> vss_inv su c'"
proof (erule vss_stepE, goal_cases)
  case 1
  then show ?case by (auto intro: vss_inv_run)
next
  case 2
  then show ?case by (auto dest!: UploadVSSConfig_frame elim!: vss_inv_frame)
next
  case (3 key fromIndex sig)
  obtain m d m' d' where c: "c = (m, d)" "HandleSigShare su key fromIndex sig c = (m', d')" by fastforce
  then show ?case using 3 HandleSigShare_frame [of su key fromIndex sig m d m' d']
    by (auto elim!: vss_inv_frame)
qed

lemma vss_inv_start: "vss_inv su ([], NewDKG vssid members t)"
  by (simp add: vss_inv_def NewDKG_def)

interpretation vss_machine: invariant_machine "\<lambda>c. \<exists>vssid members t. c = ([], NewDKG vssid members t)"
  "vss_step su" "vss_inv su" for su :: "('o, 'sc, 'pt, 'poly) suite"
  by unfold_locales (auto simp: vss_inv_start intro: vss_inv_step)

section \<open>What the nodes can rely on\<close>

lemma verify_previous_exact:
  assumes "\<forall>b\<in>set prev. config_ok su b"
  shows "verify_previous su h s prev =
    Some (\<exists>b\<in>set prev. \<exists>poly. bls_GroupPublicPoly b = Some poly \<and> BlsVerify su poly h s)"
  using assms
proof (induction prev)
  case (Cons b prev)
  then obtain poly where "bls_GroupPublicPoly b = Some poly" by (auto simp: config_ok_def split: option.splits)
  with Cons show ?case by (auto simp: verify_under_def)
qed simp

lemma receive_round_gets:
  assumes "receive_round su answer as received = Some received'" "distinct as" "go_ok received"
    "fst ` set received \<subseteq> S"
  shows "go_ok received' \<and> fst ` set received' \<subseteq> S \<union> set as
    \<and> (\<forall>a. map_of received' a = (case map_of received a of Some x \<Rightarrow> Some x
         | None \<Rightarrow> if a \<in> set as \<and> 1 < length (answer a) then Gunzip su (answer a) else None))
    \<and> (\<forall>a\<in>set as. map_of received a = None \<and> 1 < length (answer a) \<longrightarrow> Gunzip su (answer a) \<noteq> None)"
  using assms
proof (induction as arbitrary: received S)
  case Nil
  then show ?case by (auto split: option.splits)
next
  case (Cons a as)
  show ?case
  proof (cases "map_of received a \<noteq> None \<or> \<not> 1 < length (answer a)")
    case True
    then have r: "receive_round su answer as received = Some received'" using Cons.prems(1) by (auto split: if_splits)
    show ?thesis using Cons.IH [OF r _ Cons.prems(3,4)] Cons.prems(2) True by (auto split: option.splits)
  next
    case False
    then obtain x where x: "Gunzip su (answer a) = Some x" "map_of received a = None" "1 < length (answer a)"
      and r: "receive_round su answer as (AList.update a x received) = Some received'"
      using Cons.prems(1) by (auto split: Option.bind_splits if_splits)
    have "go_ok (AList.update a x received)" "fst ` set (AList.update a x received) \<subseteq> insert a S"
      using Cons.prems(3,4) by (auto simp: AList.dom_update)
    from Cons.IH [OF r _ this] Cons.prems(2) x show ?thesis
      by (auto simp: alist_simps split: option.splits if_splits)
  qed
qed

text \<open>The first answer of a node that has any shares in it.\<close>

definition first_answer :: "(address \<Rightarrow> bytes) list \<Rightarrow> address \<Rightarrow> bytes option" where
  "first_answer rounds a = List.find (\<lambda>x. 1 < length x) (map (\<lambda>r. r a) rounds)"

lemma first_answer_simps [simp]:
  "first_answer [] a = None"
  "first_answer (r # rounds) a = (if 1 < length (r a) then Some (r a) else first_answer rounds a)"
  by (simp_all add: first_answer_def)

lemma complete_keys:
  assumes "go_ok m" "fst ` set m \<subseteq> set as" "distinct as"
  shows "length m = length as \<longleftrightarrow> fst ` set m = set as"
proof -
  have "card (fst ` set m) = length m" using assms(1) by (metis distinct_card length_map set_map)
  moreover have "card (set as) = length as" using assms(3) by (rule distinct_card)
  ultimately show ?thesis using assms(2) by (metis card_subset_eq finite_set)
qed

lemma shares_loop_exact:
  assumes "shares_loop su as rounds received = Some res" "distinct as" "go_ok received"
    "fst ` set received \<subseteq> set as"
  shows "(\<forall>m. res = Inr m \<longrightarrow> go_ok m \<and> fst ` set m = set as
       \<and> (\<forall>a\<in>set as. map_of m a = (case map_of received a of Some x \<Rightarrow> Some x
            | None \<Rightarrow> Option.bind (first_answer rounds a) (Gunzip su))))
    \<and> (\<forall>ms. res = Inl ms \<longrightarrow>
         ms = filter (\<lambda>a. map_of received a = None \<and> first_answer rounds a = None) as)"
  using assms
proof (induction rounds arbitrary: received)
  case Nil
  then show ?case by auto
next
  case (Cons r rounds)
  obtain received' where g: "receive_round su r as received = Some received'"
    using Cons.prems(1) by (auto split: Option.bind_splits)
  note rr = receive_round_gets [OF g Cons.prems(2,3,4), simplified]
  have keys: "go_ok received'" "fst ` set received' \<subseteq> set as" using rr Cons.prems(4) by auto
  have got: "map_of received' a = None \<longleftrightarrow> map_of received a = None \<and> \<not> 1 < length (r a)" if "a \<in> set as" for a
    using rr that by (auto split: option.splits if_splits)
  show ?case
  proof (cases "length received' = length as")
    case True
    then have "res = Inr received'" using Cons.prems(1) g by simp
    moreover have all: "fst ` set received' = set as" using complete_keys [OF keys Cons.prems(2)] True by simp
    moreover have "1 < length (r a)" if "a \<in> set as" "map_of received a = None" for a
      using got [OF that(1)] that all by (auto simp: map_of_eq_None_iff)
    ultimately show ?thesis using rr by (auto split: option.splits)
  next
    case False
    then have "shares_loop su as rounds received' = Some res" using Cons.prems(1) g by simp
    note ih = Cons.IH [OF this Cons.prems(2) keys]
    have "(case map_of received' a of Some x \<Rightarrow> Some x | None \<Rightarrow> Option.bind (first_answer rounds a) (Gunzip su))
        = (case map_of received a of Some x \<Rightarrow> Some x | None \<Rightarrow> Option.bind (first_answer (r # rounds) a) (Gunzip su))"
      if "a \<in> set as" for a
      using rr that by (auto split: option.splits if_splits)
    then show ?thesis using ih got by (auto intro!: filter_cong)
  qed
qed

lemma check_pri_senders:
  "fst ` set (check_pri su n sender pubV pris nv) =
     fst ` set nv \<union> {a. a = sender \<and> (\<exists>v. (n, v) \<in> set pris \<and> MulBase su v \<noteq> pubV)}"
  by (induction su n sender pubV pris nv rule: check_pri.induct) (auto simp: AList.dom_update)

lemma check_pub_senders:
  "fst ` set (check_pub su n sender pris pubs nv) = fst ` set nv
     \<union> {a. a = sender \<and> (\<exists>ps pubV v. pris = Some ps \<and> (n, pubV) \<in> set pubs \<and> (n, v) \<in> set ps \<and> MulBase su v \<noteq> pubV)}"
  by (induction su n sender pris pubs nv rule: check_pub.induct)
    (auto simp: check_pri_senders split: option.splits)

lemma verify_senders_senders:
  "fst ` set (verify_senders su n pubs pris nv) = fst ` set nv
     \<union> {a. \<exists>qs ps pubV v. (a, qs) \<in> set pubs \<and> map_of pris a = Some ps
            \<and> (n, pubV) \<in> set qs \<and> (n, v) \<in> set ps \<and> MulBase su v \<noteq> pubV}"
  by (induction su n pubs pris nv rule: verify_senders.induct) (auto simp: check_pub_senders)

text \<open>What the key generation relies on in the curve library: multiplication of the base point is
  additive, and the sum of two polynomials takes the sum of their values.\<close>

definition suite_laws :: "('o, 'sc, 'pt :: comm_monoid_add, 'poly) suite \<Rightarrow> bool" where
  "suite_laws su \<longleftrightarrow> MulBase su (ScZero su) = 0
     \<and> (\<forall>a b. MulBase su (ScAdd su a b) = MulBase su a + MulBase su b)
     \<and> (\<forall>p q. \<exists>r. PolyAdd su p q = Some r \<and> (\<forall>i. PolyEval su r i = PolyEval su p i + PolyEval su q i))"

text \<open>One sender's shares as an honest sender makes them: the public ones lie on a polynomial the
  library recovers, and there is one private share for this node, on the same polynomial.\<close>

definition honest_shares ::
  "('o, 'sc, 'pt, 'poly) suite \<Rightarrow> ('o, 'sc, 'poly) BLS \<Rightarrow> (int \<times> 'pt) list \<times> (int \<times> 'sc) list \<Rightarrow> bool" where
  "honest_shares su b = (\<lambda>(ps, qs). \<exists>poly v. recover_poly su b ps = Some poly
     \<and> filter (\<lambda>q. fst q = bls_NodeIndex b) qs = [(bls_NodeIndex b, v)]
     \<and> PolyEval su poly (bls_NodeIndex b) = MulBase su v)"

definition share_point :: "('o, 'sc, 'pt :: comm_monoid_add, 'poly) suite \<Rightarrow> int \<Rightarrow> (int \<times> 'sc) list \<Rightarrow> 'pt" where
  "share_point su i qs = sum_list (map (MulBase su \<circ> snd) (filter (\<lambda>q. fst q = i) qs))"

lemma group_share_point:
  assumes "suite_laws su"
  shows "MulBase su (group_share su i pris) = sum_list (map (share_point su i) pris)"
proof -
  have fold: "MulBase su (foldl (\<lambda>acc (j, v). if j = i then ScAdd su acc v else acc) acc qs)
      = MulBase su acc + share_point su i qs" for acc qs
    using assms by (induction qs arbitrary: acc) (auto simp: share_point_def suite_laws_def add.assoc)
  have "share_point su i (concat pris) = sum_list (map (share_point su i) pris)"
    by (induction pris) (auto simp: share_point_def)
  then show ?thesis using assms by (simp add: group_share_def fold suite_laws_def)
qed

lemma add_polys_point:
  assumes "suite_laws su" "\<forall>s\<in>set ss. honest_shares su b s"
  shows "\<exists>p. add_polys su b poly (map fst ss) = Some p \<and> PolyEval su p (bls_NodeIndex b)
    = PolyEval su poly (bls_NodeIndex b) + sum_list (map (share_point su (bls_NodeIndex b) \<circ> snd) ss)"
  using assms(2)
proof (induction ss arbitrary: poly)
  case (Cons s ss)
  obtain q v where q: "recover_poly su b (fst s) = Some q" "PolyEval su q (bls_NodeIndex b) = MulBase su v"
    "filter (\<lambda>q. fst q = bls_NodeIndex b) (snd s) = [(bls_NodeIndex b, v)]"
    using Cons.prems by (auto simp: honest_shares_def)
  obtain r where r: "PolyAdd su poly q = Some r" "\<And>i. PolyEval su r i = PolyEval su poly i + PolyEval su q i"
    using assms(1) unfolding suite_laws_def by blast
  have "share_point su (bls_NodeIndex b) (snd s) = PolyEval su q (bls_NodeIndex b)"
    using q by (simp add: share_point_def)
  then show ?case using Cons.IH [of r] Cons.prems q r by (auto simp: add.assoc)
qed simp

lemma honest_vote:
  assumes "suite_laws su" "ss \<noteq> []" "\<forall>s\<in>set ss. honest_shares su b s" "mset pris = mset (map snd ss)"
  shows "\<exists>d'. vote_config su version b (map fst ss) pris d = Some (VssConfigVote, d')"
proof (cases ss)
  case (Cons s rest)
  obtain q v where q: "recover_poly su b (fst s) = Some q" "PolyEval su q (bls_NodeIndex b) = MulBase su v"
    "filter (\<lambda>q. fst q = bls_NodeIndex b) (snd s) = [(bls_NodeIndex b, v)]"
    using assms(3) Cons by (auto simp: honest_shares_def)
  obtain p where p: "add_polys su b q (map fst rest) = Some p" "PolyEval su p (bls_NodeIndex b)
      = PolyEval su q (bls_NodeIndex b) + sum_list (map (share_point su (bls_NodeIndex b) \<circ> snd) rest)"
    using add_polys_point [OF assms(1), of rest b q] assms(3) Cons by auto
  have "sum_list (map (share_point su (bls_NodeIndex b)) pris)
      = sum_list (map (share_point su (bls_NodeIndex b) \<circ> snd) ss)"
    using assms(4) by (metis map_map mset_map sum_mset_sum_list)
  then have "MulBase su (group_share su (bls_NodeIndex b) pris) = PolyEval su p (bls_NodeIndex b)"
    using q p Cons by (simp add: group_share_point [OF assms(1)] share_point_def)
  then show ?thesis using q p Cons by (simp add: vote_config_def Let_def)
qed (use assms(2) in simp)

text \<open>Two nodes over the integers, with constant polynomials: a sender's shares are the number in the
  first byte it uploads.\<close>

definition sample_suite :: "(unit, int, int, int) suite" where
  "sample_suite = \<lparr>MulBase = (\<lambda>x. 2 * x), ScAdd = (+), ScZero = 0, ScMarshal = (\<lambda>x. [word_of_int x]),
     ScUnmarshal = (\<lambda>b. uint (hd b)), PtNew = 0, PtUnmarshal = (\<lambda>b. uint (hd b)),
     RecoverPubPoly = (\<lambda>ps t n. case List.map_filter id ps of [] \<Rightarrow> None | (i, v) # _ \<Rightarrow> Some v),
     PolyAdd = (\<lambda>p q. Some (p + q)), PolyEval = (\<lambda>p i. p), BlsVerify = (\<lambda>p h s. s = word_of_int p # h),
     VerifyED25519 = (\<lambda>k h s. (s = k @ h, False)), GenerateRandomNumber = (\<lambda>b h sigs. Some h),
     GetPrivateShares = (\<lambda>b n. []), GetPublicShares = (\<lambda>b n. []),
     UnmarshalPublicShares = (\<lambda>raw key. ([(0, 2 * uint (hd raw)), (1, 2 * uint (hd raw))], raw, key)),
     UnmarshalPrivateShares = (\<lambda>raw i key. ([(i, uint (hd raw))], raw, key)),
     MarshalPublicShares = (\<lambda>ps. []), MarshalPrivateShares = (\<lambda>ps ks. []),
     JsonPublic = (\<lambda>b. []), JsonPrivate = (\<lambda>b. []), Gunzip = Some, Gzip = id\<rparr>"

definition sample_vss_env :: "int \<Rightarrow> (address \<Rightarrow> bytes) \<Rightarrow> (unit, int, int) vss_env" where
  "sample_vss_env version pris = \<lparr>e_configVersion = Some version, e_activeMembers = Some [1, 2],
     e_nodesIndexs = Some [0, 1],
     e_uploadRounds = [\<lparr>ur_lastNodeChange = Some 1, ur_threshold = Some 1, ur_lastUpload = (\<lambda>a. Some 1)\<rparr>],
     e_threshold = Some 1, e_nodeIndex = Some 0, e_nodeCount = Some 2,
     e_nodesPubkey = Some [replicate 32 7, replicate 32 8],
     e_NewBLS = (\<lambda>t l i n. \<lparr>bls_Threshold = t, bls_N = int (length l), bls_TotalN = n, bls_NodeIndex = i,
        bls_GroupPublicPoly = None, bls_GroupPrivateShare = None, bls_own = ()\<rparr>),
     e_uploadBefore = (\<lambda>a. Some 1), e_publicRounds = [\<lambda>a. [], \<lambda>a. [ucast a + 2, 0]],
     e_privateRounds = [pris], e_uploadAfter = (\<lambda>a. Some 1), e_nodesIndexsReveal = Some [0, 1],
     e_lastUpload = Some 0, e_lastNodeChange = Some 0\<rparr>"

definition sample_voted :: "(unit, int, int) DKG" where
  "sample_voted = the (RunVssStateMachine sample_suite (sample_vss_env 1 (\<lambda>a. [ucast a + 2, 0])) (Some 1) True
     (NewDKG 1 None 0))"

definition sample_installed :: "(unit, int, int) DKG" where
  "sample_installed = the (RunVssStateMachine sample_suite (sample_vss_env 1 (\<lambda>a. [])) (Some 1) True sample_voted)"

lemma sample_run_vss:
  "RunVssStateMachine sample_suite (sample_vss_env 1 (\<lambda>a. [ucast a + 2, 0])) (Some 1) True (NewDKG 1 None 0)
     = Some sample_voted"
  "RunVssStateMachine sample_suite (sample_vss_env 1 (\<lambda>a. [])) (Some 1) True sample_voted = Some sample_installed"
  by code_simp+

lemma sample_installed_reachable:
  "(vss_step sample_suite)\<^sup>*\<^sup>* ([], NewDKG 1 None 0) ([], sample_installed)"
proof (rule rtranclp.rtrancl_into_rtrancl)
  show "(vss_step sample_suite)\<^sup>*\<^sup>* ([], NewDKG 1 None 0) ([], sample_voted)"
    by (rule r_into_rtranclp) (rule vss_step.state_loop [OF sample_run_vss(1)])
  show "vss_step sample_suite ([], sample_voted) ([], sample_installed)"
    by (rule vss_step.state_loop [OF sample_run_vss(2)])
qed

text \<open>(C1) However its loops interleave, a node only ever signs with, votes for or keeps a key share that
  fits the group's public key, and it keeps at most a hundred past keys.\<close>

theorem vss_keys_fit:
  assumes "(vss_step su)\<^sup>*\<^sup>* ([], NewDKG vssid members t) (m, d)"
  shows "(\<forall>bls\<in>set_option (d_Bls d) \<union> set (d_prevbls d). config_ok su bls) \<and> length (d_prevbls d) \<le> 100
    \<and> (\<forall>v. Vote v \<in> set (d_calls d) \<longrightarrow> (\<exists>bls. map_of (d_vssSettings d) v = Some bls \<and> config_ok su bls))"
proof -
  have "vss_inv su (m, d)" using vss_machine.inv_reachable [OF _ assms] by blast
  then show ?thesis by (fastforce simp: vss_inv_def ran_def)
qed

theorem vss_keys_fit_witness:
  "map_option (config_ok sample_suite) (d_Bls sample_installed) = Some True \<and> Vote 1 \<in> set (d_calls sample_installed)"
proof -
  have some: "d_Bls sample_installed \<noteq> None" "Vote 1 \<in> set (d_calls sample_installed)" by code_simp+
  moreover have "\<forall>bls\<in>set_option (d_Bls sample_installed). config_ok sample_suite bls"
    using vss_keys_fit [OF sample_installed_reachable] by blast
  ultimately show ?thesis by auto
qed

lemma ValidateBLSSig_reachable:
  assumes "(vss_step su)\<^sup>*\<^sup>* ([], NewDKG vssid members t) (m, d)" "1 \<le> blockNumber"
  shows "ValidateBLSSig su d toSign blsSig False blockNumber = Some (case d_Bls d of None \<Rightarrow> False
    | Some bls \<Rightarrow> \<exists>b\<in>set (bls # d_prevbls d). \<exists>poly. bls_GroupPublicPoly b = Some poly \<and> BlsVerify su poly toSign blsSig)"
proof -
  have inv: "vss_inv su (m, d)" using vss_machine.inv_reachable [OF _ assms(1)] by blast
  show ?thesis
  proof (cases "d_Bls d")
    case (Some bls)
    then have "config_ok su bls" "\<forall>b\<in>set (d_prevbls d). config_ok su b" "d_vssEnabled d"
      using inv by (auto simp: vss_inv_def)
    with Some assms(2) show ?thesis
      by (auto simp: ValidateBLSSig_def ShouldSkipVSS_def IsVSSReady_def verify_under_def verify_previous_exact
          config_ok_def split: option.splits)
  qed (use inv assms(2) in \<open>simp add: vss_inv_def ValidateBLSSig_def ShouldSkipVSS_def IsVSSReady_def\<close>)
qed



text \<open>(C23) The version in use never goes down.  A node changes its key only to one it has itself checked
  and voted for, under a version it has seen before, that is newer than its own and that the
  contract calls ready; the key it used becomes the first of the past ones.\<close>

theorem config_switch:
  assumes "RunVssStateMachine su env configVersion ready d = Some d'"
  shows "d_currentConfigVersion d \<le> d_currentConfigVersion d'
    \<and> (d_Bls d' \<noteq> d_Bls d \<longrightarrow> ready \<and> map_option sint (read_uint64 configVersion) = Some (d_currentConfigVersion d')
        \<and> d_currentConfigVersion d < d_currentConfigVersion d'
        \<and> map_of (d_vssSeenConfigs d) (d_currentConfigVersion d') = Some True
        \<and> d_Bls d' = map_of (d_vssSettings d) (d_currentConfigVersion d')
        \<and> (\<forall>b. d_Bls d = Some b \<longrightarrow> hd (d_prevbls d') = b))"
proof -
  obtain z where z: "read_uint64 configVersion = Some z"
    using assms by (auto simp: RunVssStateMachine_def split: Option.bind_splits)
  show ?thesis
  proof (cases "map_of (d_vssSeenConfigs d) (sint z) = Some True")
    case True
    then have "d' = (if ready then setVssConfig (sint z) d else d)"
      using assms z by (simp add: RunVssStateMachine_def)
    then show ?thesis using True z
      by (auto simp: setVssConfig_def Let_def split: option.splits if_splits)
  next
    case False
    then obtain r d1 where u: "UpdateVSSConfig su env d = Some (r, d1)"
      "d_Bls d' = d_Bls d1" "d_currentConfigVersion d' = d_currentConfigVersion d1"
      using assms z by (auto simp: RunVssStateMachine_def split: Option.bind_splits if_splits)
    then show ?thesis using UpdateVSSConfig_outcome [OF u(1)] by (auto simp: update_outcome_def same_config_def)
  qed
qed

theorem config_switch_witness:
  "d_Bls sample_installed = map_of (d_vssSettings sample_voted) 1 \<and> d_currentConfigVersion sample_installed = 1"
proof -
  have "d_Bls sample_installed \<noteq> d_Bls sample_voted" "map_option sint (read_uint64 (Some 1)) = Some 1" by code_simp+
  with config_switch [OF sample_run_vss(2)] show ?thesis by auto
qed

text \<open>The shares of the active nodes are all there when \<open>GetVSSShares\<close> succeeds, each as the first
  look that found any saw it; when the time is up it names exactly the nodes no look found any for.\<close>

lemma GetVSSShares_exact:
  assumes "GetVSSShares su rounds active = Some res" "distinct active"
  shows "(\<forall>m. res = Inr m \<longrightarrow> fst ` set m = set active
       \<and> (\<forall>a\<in>set active. map_of m a = Option.bind (first_answer rounds a) (Gunzip su)))
    \<and> (\<forall>missing. res = Inl missing \<longrightarrow> missing = filter (\<lambda>a. first_answer rounds a = None) active)"
  using shares_loop_exact [of su active rounds "[]" res] assms by (simp add: GetVSSShares_def)

lemma GetVSSShares_exact_witness:
  "[4] = filter (\<lambda>a. first_answer [\<lambda>a. if a = 3 then [1, 2] else [0]] a = None) [3, 4]"
proof -
  have "GetVSSShares sample_suite [\<lambda>a. if a = 3 then [1, 2] else [0]] [3, 4] = Some (Inl [4])"
    by (simp add: GetVSSShares_def sample_suite_def)
  with GetVSSShares_exact [of sample_suite "[\<lambda>a. if a = 3 then [1, 2] else [0]]" "[3, 4]" "Inl [4]"] show ?thesis
    by simp
qed

text \<open>\<open>verifyShares\<close> reports exactly the senders one of whose private shares for this node does not
  fit one of their public shares for it.\<close>

lemma verifyShares_exact:
  "fst ` set (verifyShares su sciBls pubs pris) =
     {a. \<exists>qs ps pubV v. (a, qs) \<in> set pubs \<and> map_of pris a = Some ps \<and> (bls_NodeIndex sciBls, pubV) \<in> set qs
        \<and> (bls_NodeIndex sciBls, v) \<in> set ps \<and> MulBase su v \<noteq> pubV}"
  by (simp add: verifyShares_def verify_senders_senders)

text \<open>(C11) When every sender is honest the check of the combined share cannot fail: in whatever order the
  private shares arrive, the node votes for the configuration and stores it.\<close>

theorem honest_shares_vote:
  assumes "suite_laws su" "ss \<noteq> []" "\<forall>s\<in>set ss. honest_shares su b s" "mset pris = mset (map snd ss)"
  shows "\<exists>bls d'. vote_config su version b (map fst ss) pris d = Some (VssConfigVote, d')
    \<and> d_calls d' = d_calls d @ [Vote version] \<and> map_of (d_vssSettings d') version = Some bls \<and> config_ok su bls"
proof -
  obtain d' where d': "vote_config su version b (map fst ss) pris d = Some (VssConfigVote, d')"
    using honest_vote [OF assms] by blast
  from vote_config_outcome [OF this] show ?thesis using d' by (auto simp: update_outcome_def alist_simps)
qed

theorem honest_shares_vote_witness:
  "\<exists>bls d'. vote_config sample_suite 1
     \<lparr>bls_Threshold = 1, bls_N = 2, bls_TotalN = 2, bls_NodeIndex = 0, bls_GroupPublicPoly = None,
      bls_GroupPrivateShare = None, bls_own = ()\<rparr> [[(0, 6), (- 1, 0)], [(0, 8)]] [[(0, 4)], [(0, 3), (1, 3)]]
     (NewDKG 1 None 0) = Some (VssConfigVote, d')
   \<and> d_calls d' = [Vote 1] \<and> map_of (d_vssSettings d') 1 = Some bls \<and> config_ok sample_suite bls"
proof -
  let ?b = "\<lparr>bls_Threshold = 1, bls_N = 2, bls_TotalN = 2, bls_NodeIndex = 0, bls_GroupPublicPoly = None,
      bls_GroupPrivateShare = None, bls_own = ()\<rparr> :: (unit, int, int) BLS"
  let ?ss = "[([(0, 6), (- 1, 0)], [(0, 3), (1, 3)]), ([(0, 8)], [(0, 4)])] :: ((int \<times> int) list \<times> (int \<times> int) list) list"
  have "suite_laws sample_suite" by (simp add: suite_laws_def sample_suite_def)
  moreover have "\<forall>s\<in>set ?ss. honest_shares sample_suite ?b s"
    by (simp add: honest_shares_def recover_poly_def sample_suite_def List.map_filter_def)
  moreover have "mset [[(0, 4)], [(0, 3), (1, 3)]] = mset (map snd ?ss)" by simp
  ultimately show ?thesis
    using honest_shares_vote [of sample_suite ?ss ?b "[[(0, 4)], [(0, 3), (1, 3)]]" 1 "NewDKG 1 None 0"]
    by (simp add: NewDKG_def)
qed

text \<open>(C38) A version the node has skipped because other nodes had not uploaded in time is marked as
  seen without a vote, and from then on nothing the contract says about that version changes the
  node's state any more: it is never checked again.\<close>

theorem omitted_version_is_dropped:
  assumes "UpdateVSSConfig su env d = Some (VssConfigOmit, d1)" "map_option sint (read_uint64 configVersion) = Some v"
    "map_of (d_vssSeenConfigs d) v \<noteq> Some True" "map_of (d_vssSettings d) v = None"
    "RunVssStateMachine su env configVersion ready d = Some d'"
  shows "d_calls d' = d_calls d \<and> RunVssStateMachine su env' configVersion ready' d' = Some d'"
proof -
  have o: "d_calls d1 = d_calls d" "d_vssSettings d1 = d_vssSettings d"
    using UpdateVSSConfig_outcome [OF assms(1)] by (auto simp: update_outcome_def)
  have "d' = d1\<lparr>d_vssSeenConfigs := AList.update v True (d_vssSeenConfigs d1)\<rparr>"
    using assms by (auto simp: RunVssStateMachine_def)
  then show ?thesis using o assms(2,4) by (auto simp: RunVssStateMachine_def setVssConfig_def alist_simps)
qed

definition sample_slow_env :: "(unit, int, int) vss_env" where
  "sample_slow_env = (sample_vss_env 1 (\<lambda>a. []))\<lparr>e_uploadRounds :=
     [\<lparr>ur_lastNodeChange = Some 1, ur_threshold = Some 2, ur_lastUpload = (\<lambda>a. Some (if a = 1 then 1 else 0))\<rparr>]\<rparr>"

theorem omitted_version_is_dropped_witness:
  "RunVssStateMachine sample_suite (sample_vss_env 1 (\<lambda>a. [ucast a + 2, 0])) (Some 1) True
     (the (RunVssStateMachine sample_suite sample_slow_env (Some 1) True (NewDKG 1 None 0)))
   = Some (the (RunVssStateMachine sample_suite sample_slow_env (Some 1) True (NewDKG 1 None 0)))"
proof -
  let ?d = "NewDKG 1 None 0 :: (unit, int, int) DKG"
  have "map_option fst (UpdateVSSConfig sample_suite sample_slow_env ?d) = Some VssConfigOmit" by code_simp
  then obtain d1 where "UpdateVSSConfig sample_suite sample_slow_env ?d = Some (VssConfigOmit, d1)" by auto
  moreover have "map_option sint (read_uint64 (Some 1)) = Some 1" by code_simp
  moreover have "RunVssStateMachine sample_suite sample_slow_env (Some 1) True ?d
      = Some (the (RunVssStateMachine sample_suite sample_slow_env (Some 1) True ?d))" by code_simp
  ultimately show ?thesis
    using omitted_version_is_dropped [of sample_suite sample_slow_env ?d d1 "Some 1" 1 True] by (simp add: NewDKG_def)
qed

end
