(* ===== verification/Pos.thy ===== *)
theory Pos
  imports Ethash Vss
begin

text \<open>
  \<open>consensus/pos/consensus.go\<close> and \<open>sealer.go\<close>: the proof-of-stake engine, whose header rules
  rest on the signatures of the key generation.  The engine embeds the same key generation
  state as the service (\<open>consensus/pos/vss.go\<close> repeats \<open>dkg/dkg.go\<close>), so the theory of the key
  generation serves for it.  Decoding the extra data of a header is \<open>MoacLib\<close>'s, an argument
  that gives the fields by name.
\<close>

section \<open>The signed message\<close>

text \<open>\<open>fmt.Sprintf\<close> with the verbs the code uses, as bytes of the text: \<open>%x\<close> of bytes, \<open>%d\<close>.\<close>

definition hex_digit :: "8 word \<Rightarrow> 8 word" where
  "hex_digit n = (if n < 10 then 48 + n else 87 + n)"

definition fmt_hex :: "bytes \<Rightarrow> bytes" where
  "fmt_hex bs = concat (map (\<lambda>b. [hex_digit (b div 16), hex_digit (b mod 16)]) bs)"

fun fmt_nat :: "nat \<Rightarrow> bytes" where
  "fmt_nat n = (if n < 10 then [48 + of_nat n] else fmt_nat (n div 10) @ [48 + of_nat (n mod 10)])"

declare fmt_nat.simps [simp del]

definition fmt_int :: "int \<Rightarrow> bytes" where
  "fmt_int i = (if i < 0 then 45 # fmt_nat (nat (- i)) else fmt_nat (nat i))"

definition toSign :: "bytes \<Rightarrow> address \<Rightarrow> int \<Rightarrow> bytes \<Rightarrow> bytes" where
  "toSign parentHash coinbase number epoch =
     fmt_hex parentHash @ 44 # fmt_hex (address_bytes coinbase) @ 44 # fmt_int number @ 44 # epoch"

section \<open>The engine\<close>

text \<open>The fields of a header's extra data; a field that is absent is the empty slice.\<close>

record extra_fields =
  BLSSigField :: bytes
  EpochField :: bytes
  ParentHashField :: bytes
  ProposerSig :: bytes

definition IsVSSEnabled :: "address \<Rightarrow> bool" where
  "IsVSSEnabled vssBaseAddr \<longleftrightarrow> vssBaseAddr \<noteq> 0"

definition pos_calcBlockReward :: "int \<Rightarrow> int" where
  "pos_calcBlockReward num =
     (if num \<le> 12500000 then 2000000000000000000
      else if num \<le> 25000000 then 1000000000000000000
      else if num \<le> 37500000 then 500000000000000000
      else if num \<le> 50000000 then 250000000000000000
      else if num \<le> 62500000 then 125000000000000000
      else 100000000000000000)"

definition pos_VerifyUncles :: "block \<Rightarrow> engine_error option" where
  "pos_VerifyUncles block = (if 0 < length (b_uncles block) then Some ErrUnclesNotAllowed else None)"

definition pos_VerifySeal :: "header \<Rightarrow> engine_error option" where
  "pos_VerifySeal header = None"

text \<open>The check of the signatures in the extra data.\<close>

definition verify_extra ::
  "('o, 'sc, 'pt, 'poly) suite \<Rightarrow> ('o, 'sc, 'poly) DKG \<Rightarrow> (bytes \<Rightarrow> extra_fields option) \<Rightarrow> header \<Rightarrow> bool
     \<Rightarrow> engine_error option go" where
  "verify_extra su d ExtraData header syncBlock =
     (case ExtraData (h_extra header) of
        None \<Rightarrow> Some (Some ErrHeaderExtraData)
      | Some x \<Rightarrow>
          let number = big_Int64 (h_number header);
              message = toSign (ParentHashField x) (h_coinbase header) number (EpochField x)
          in do {
            validated \<leftarrow> ValidateBLSSig su d message (BLSSigField x) syncBlock number;
            if \<not> validated then Some (Some ErrBlsSig)
            else if \<not> ValidateProposerSig su d (ProposerSig x) (h_coinbase header) (BLSSigField x) syncBlock number
            then Some (Some ErrProposerSig)
            else Some None })"

definition pos_verifyHeader ::
  "('o, 'sc, 'pt, 'poly) suite \<Rightarrow> ('o, 'sc, 'poly) DKG \<Rightarrow> (bytes \<Rightarrow> extra_fields option) \<Rightarrow> nat \<Rightarrow> address \<Rightarrow> bool
     \<Rightarrow> header \<Rightarrow> header \<Rightarrow> bool \<Rightarrow> engine_error option go" where
  "pos_verifyHeader su d ExtraData maxExtra vssBaseAddr syncBlock header parent seal =
     (if length (h_extra header) > maxExtra then Some (Some ErrExtraTooLong)
      else if h_number header - h_number parent \<noteq> 1 then Some (Some ErrInvalidNumber)
      else if h_time header \<le> h_time parent then Some (Some ErrZeroBlockTime)
      else if seal \<and> pos_VerifySeal header \<noteq> None then Some (pos_VerifySeal header)
      else if IsVSSEnabled vssBaseAddr then verify_extra su d ExtraData header syncBlock
      else Some None)"

definition pos_VerifyHeader ::
  "('o, 'sc, 'pt, 'poly) suite \<Rightarrow> ('o, 'sc, 'poly) DKG \<Rightarrow> (bytes \<Rightarrow> extra_fields option) \<Rightarrow> nat \<Rightarrow> address \<Rightarrow> bool
     \<Rightarrow> get_header \<Rightarrow> header \<Rightarrow> bool \<Rightarrow> engine_error option go" where
  "pos_VerifyHeader su d ExtraData maxExtra vssBaseAddr syncBlock GetHeader header seal =
     (let number = big_Uint64 (h_number header) in
      if GetHeader (h_hash header) number \<noteq> None then Some None
      else case GetHeader (h_parentHash header) (number - 1) of
          None \<Rightarrow> Some (Some ErrUnknownAncestor)
        | Some parent \<Rightarrow> pos_verifyHeader su d ExtraData maxExtra vssBaseAddr syncBlock header parent seal)"

definition pos_CalcDifficulty :: int where
  "pos_CalcDifficulty = 1000"

definition pos_Prepare :: "get_header \<Rightarrow> header \<Rightarrow> engine_error + header" where
  "pos_Prepare GetHeader header =
     (case GetHeader (h_parentHash header) (big_Uint64 (h_number header) - 1) of
        None \<Rightarrow> Inl ErrUnknownAncestor
      | Some parent \<Rightarrow> Inr (header\<lparr>h_difficulty := pos_CalcDifficulty\<rparr>))"

fun pos_reward_uncles :: "'s statedb \<Rightarrow> int \<Rightarrow> header \<Rightarrow> header list \<Rightarrow> 's \<times> int \<Rightarrow> 's \<times> int" where
  "pos_reward_uncles db blockReward header [] acc = acc"
| "pos_reward_uncles db blockReward header (uncle # uncles) acc =
     pos_reward_uncles db blockReward header uncles
       (AddBalance db (fst acc) (h_coinbase uncle) ((h_number uncle + 8 - h_number header) * blockReward div 8),
        snd acc + blockReward div 32)"

definition pos_AccumulateRewards :: "'s statedb \<Rightarrow> 's \<Rightarrow> header \<Rightarrow> header list \<Rightarrow> 's" where
  "pos_AccumulateRewards db s header uncles =
     (let blockReward = pos_calcBlockReward (h_number header);
          (s', reward) = pos_reward_uncles db blockReward header uncles (s, blockReward)
      in AddBalance db s' (h_coinbase header) reward)"

definition pos_Finalize ::
  "'s statedb \<Rightarrow> ('s \<Rightarrow> hash) \<Rightarrow> header \<Rightarrow> 's \<Rightarrow> tx list \<Rightarrow> header list \<Rightarrow> block \<times> 's" where
  "pos_Finalize db root header s txs uncles =
     (let s' = pos_AccumulateRewards db s header uncles
      in (\<lparr>b_header = header\<lparr>h_root := root s'\<rparr>, b_txs = txs, b_uncles = uncles\<rparr>, s'))"

definition pos_Seal :: "block \<Rightarrow> block" where
  "pos_Seal block = block"

section \<open>The signed message determines its parts\<close>

lemma split_at_unique:
  "c \<notin> set xs \<Longrightarrow> c \<notin> set xs' \<Longrightarrow> xs @ c # ys = xs' @ c # ys' \<longleftrightarrow> xs = xs' \<and> ys = ys'"
proof (induction xs arbitrary: xs')
  case Nil
  then show ?case by (cases xs') auto
next
  case (Cons x xs)
  then show ?case by (cases xs') auto
qed

lemma hex_digit_uint: "n < 16 \<Longrightarrow> uint (hex_digit n) = (if uint n < 10 then 48 + uint n else 87 + uint n)"
  by (auto simp: hex_digit_def word_less_def uint_word_ariths)

lemma hex_digit_inj: "a < 16 \<Longrightarrow> b < 16 \<Longrightarrow> hex_digit a = hex_digit b \<longleftrightarrow> a = b"
  using hex_digit_uint [of a] hex_digit_uint [of b] by (auto simp: word_uint_eq_iff split: if_splits)

lemma hex_digit_no_comma:
  assumes "n < 16"
  shows "hex_digit n \<noteq> 44"
proof
  assume "hex_digit n = 44"
  then have "uint (hex_digit n) = 44" by simp
  then have "48 + uint n = 44 \<or> 87 + uint n = 44" using hex_digit_uint [OF assms] by metis
  moreover have "0 \<le> uint n" by simp
  ultimately show False by linarith
qed

lemma nibbles_small: "b div 16 < (16 :: 8 word)" "b mod 16 < (16 :: 8 word)"
  using uint_lt2p [of b] by (auto simp: word_less_def uint_div uint_mod)

lemma nibbles_inj: "b div 16 = c div 16 \<and> b mod 16 = c mod 16 \<longleftrightarrow> b = (c :: 8 word)"
  by (metis div_mult_mod_eq)

lemma fmt_hex_inj: "fmt_hex bs = fmt_hex cs \<longleftrightarrow> bs = cs"
proof (induction bs arbitrary: cs)
  case Nil
  then show ?case by (cases cs) (auto simp: fmt_hex_def)
next
  case (Cons b bs)
  then show ?case using nibbles_inj [of b]
    by (cases cs) (auto simp: fmt_hex_def hex_digit_inj nibbles_small)
qed

lemma fmt_hex_no_comma: "44 \<notin> set (fmt_hex bs)"
  using hex_digit_no_comma nibbles_small by (fastforce simp: fmt_hex_def)

text \<open>Reading the decimal digits back.\<close>

definition parse_digits :: "bytes \<Rightarrow> nat" where
  "parse_digits ds = foldl (\<lambda>a d. a * 10 + (unat d - 48)) 0 ds"

lemma digit_unat: "n < 10 \<Longrightarrow> unat (48 + of_nat n :: 8 word) = 48 + n"
  by (simp add: unat_word_ariths unat_of_nat)

lemma parse_fmt_nat: "parse_digits (fmt_nat n) = n"
  by (induction n rule: fmt_nat.induct) (subst fmt_nat.simps, auto simp: parse_digits_def digit_unat)

lemma fmt_nat_digits: "d \<in> set (fmt_nat n) \<Longrightarrow> 48 \<le> unat d"
proof (induction n rule: fmt_nat.induct)
  case (1 n)
  then show ?case by (subst (asm) (2) fmt_nat.simps) (auto simp: digit_unat split: if_splits)
qed

lemma fmt_nat_nonempty: "fmt_nat n \<noteq> []"
  by (subst fmt_nat.simps) simp

lemma fmt_int_inj: "fmt_int i = fmt_int j \<longleftrightarrow> i = j"
proof -
  have "fmt_nat n \<noteq> 45 # xs" for n xs using fmt_nat_digits [of 45 n] by force
  moreover have "fmt_nat m = fmt_nat n \<longleftrightarrow> m = n" for m n by (metis parse_fmt_nat)
  ultimately show ?thesis by (auto simp: fmt_int_def dest: sym)
qed

lemma fmt_int_no_comma: "44 \<notin> set (fmt_int i)"
proof -
  have "44 \<notin> set (fmt_nat n)" for n using fmt_nat_digits [of 44 n] by auto
  then show ?thesis by (simp add: fmt_int_def)
qed

text \<open>(C35) The message the nodes sign determines the parent hash, the proposer, the block number and the
  epoch it was made from.\<close>

theorem toSign_injective:
  "toSign p c n e = toSign p' c' n' e' \<longleftrightarrow> p = p' \<and> c = c' \<and> n = n' \<and> e = e'"
  by (simp add: toSign_def split_at_unique fmt_hex_no_comma fmt_int_no_comma fmt_hex_inj fmt_int_inj address_bytes_inj)

section \<open>Header rules\<close>

definition pos_accepts ::
  "('o, 'sc, 'pt, 'poly) suite \<Rightarrow> ('o, 'sc, 'poly) DKG \<Rightarrow> (bytes \<Rightarrow> extra_fields option) \<Rightarrow> nat \<Rightarrow> address \<Rightarrow> bool
     \<Rightarrow> header \<Rightarrow> header \<Rightarrow> bool \<Rightarrow> engine_error option" where
  "pos_accepts su d ExtraData maxExtra vssBaseAddr syncBlock header parent seal =
     (case pos_verifyHeader su d ExtraData maxExtra vssBaseAddr syncBlock header parent seal of
        None \<Rightarrow> Some ErrBlsSig | Some verdict \<Rightarrow> verdict)"

interpretation pos_rule: header_rule "pos_accepts su d ExtraData maxExtra vssBaseAddr syncBlock"
  for su :: "('o, 'sc, 'pt, 'poly) suite" and d ExtraData maxExtra vssBaseAddr syncBlock
  by unfold_locales (auto simp: pos_accepts_def pos_verifyHeader_def split: if_splits)


text \<open>A batch of headers that verifies, of which none was known before, is a chain under this engine
  as well.\<close>

theorem pos_batch_chain:
  assumes "\<forall>i<length headers. verifyHeaderWorker gh
      (pos_accepts su d ExtraData maxExtra vssBaseAddr syncBlock) headers seals i = None"
    "\<forall>h\<in>set headers. gh (h_hash h) (big_Uint64 (h_number h)) = None" "i < length headers"
  shows "h_number (headers ! i) = h_number (headers ! 0) + int i
    \<and> (\<forall>j<i. h_time (headers ! j) < h_time (headers ! i))
    \<and> (0 < i \<longrightarrow> h_parentHash (headers ! i) = h_hash (headers ! (i - 1)))"
  using assms by (rule pos_rule.batch_chain)

lemma pos_reward_uncles_same:
  "pos_reward_uncles db r h us (s, reward) = reward_uncles db r h us s reward"
  by (induction us arbitrary: s reward) (simp_all add: uncle_reward_def)

text \<open>Both engines pay the same rewards: the proof-of-stake copy of the reward code has not drifted
  from the proof-of-work one.\<close>

lemma pos_rewards_same: "pos_AccumulateRewards = AccumulateRewards"
proof -
  have "pos_calcBlockReward = calcBlockReward" by (simp add: fun_eq_iff pos_calcBlockReward_def calcBlockReward_def)
  then show ?thesis by (simp add: fun_eq_iff pos_AccumulateRewards_def AccumulateRewards_def pos_reward_uncles_same)
qed

text \<open>A chain of two headers under the sample key; the message is signed by prefixing the key.\<close>

definition sample_extra :: "header \<Rightarrow> extra_fields" where
  "sample_extra h = (let s = 14 # toSign [1] (h_coinbase h) (h_number h) [7] in
     \<lparr>BLSSigField = s, EpochField = [7], ParentHashField = [1], ProposerSig = replicate 32 7 @ s\<rparr>)"

definition pos_child :: header where
  "pos_child = sample_header\<lparr>h_hash := 11, h_parentHash := 10, h_number := 5, h_time := 100, h_coinbase := 1, h_extra := []\<rparr>"

definition pos_grandchild :: header where
  "pos_grandchild = pos_child\<lparr>h_hash := 12, h_parentHash := 11, h_number := 6, h_time := 101\<rparr>"


theorem pos_batch_chain_witness:
  "h_time pos_child < h_time pos_grandchild \<and> h_parentHash pos_grandchild = h_hash pos_child"
proof -
  let ?gh = "\<lambda>h n. if h = (10 :: hash) \<and> n = (4 :: u64) then Some (pos_child\<lparr>h_number := 4, h_time := 90\<rparr>) else None"
  let ?hs = "[pos_child, pos_grandchild]"
  let ?ex = "\<lambda>e. Some (sample_extra pos_child)"
  have "\<forall>i<length ?hs. verifyHeaderWorker ?gh (pos_accepts sample_suite sample_installed ?ex 32 1 True) ?hs
      [True, True] i = None" by code_simp
  moreover have "\<forall>h\<in>set ?hs. ?gh (h_hash h) (big_Uint64 (h_number h)) = None" by code_simp
  moreover have "1 < length ?hs" by simp
  ultimately have "h_number (?hs ! 1) = h_number (?hs ! 0) + int 1
    \<and> (\<forall>j<1. h_time (?hs ! j) < h_time (?hs ! 1))
    \<and> (0 < (1 :: nat) \<longrightarrow> h_parentHash (?hs ! 1) = h_hash (?hs ! (1 - 1)))"
    by (rule pos_batch_chain)
  then show ?thesis by simp
qed

end
