(* ===== verification/Vss_Loops.thy ===== *)
theory Vss_Loops
  imports Vss
begin

text \<open>
  The loops of \<open>dkg/dkg.go\<close> and of its copy \<open>consensus/pos/vss.go\<close> around the handlers of the key
  generation: the slashing of nodes that were slow or sent wrong shares, and the loop that
  announces new blocks to the others over channels of ten places.  The announcing loop is a
  step relation, in which a send to a full channel is not possible.
\<close>

section \<open>Revealed shares\<close>

record RevealedShare =
  rs_PubShare :: bytes
  rs_PubSig :: bytes
  rs_PriShare :: bytes
  rs_PriSig :: bytes
  rs_Revealed :: bytes
  rs_Violator :: address
  rs_Whistleblower :: address

datatype slash_action = SlashReveal | CounterSlashReveal | NoSlashAction

text \<open>The loop over the private shares ends at the first one of the whistleblower's index: with the
  verdict if the revealed share does not fit, with the next public share if it does.\<close>

fun slash_pris ::
  "('o, 'sc, 'pt, 'poly) suite \<Rightarrow> int \<Rightarrow> bytes \<Rightarrow> int \<times> bytes \<Rightarrow> (int \<times> bytes) list \<Rightarrow> bool" where
  "slash_pris su index revealed pub [] = False"
| "slash_pris su index revealed pub (pri # pris) =
     (if fst pub = index \<and> fst pri = index
      then MulBase su (ScUnmarshal su revealed) \<noteq> PtUnmarshal su (snd pub)
      else slash_pris su index revealed pub pris)"

fun slash_pubs ::
  "('o, 'sc, 'pt, 'poly) suite \<Rightarrow> int \<Rightarrow> bytes \<Rightarrow> (int \<times> bytes) list \<Rightarrow> (int \<times> bytes) list \<Rightarrow> bool" where
  "slash_pubs su index revealed [] pris = False"
| "slash_pubs su index revealed (pub # pubs) pris =
     (if slash_pris su index revealed pub pris then True else slash_pubs su index revealed pubs pris)"

definition verifyRevealedShare ::
  "('o, 'sc, 'pt, 'poly) suite \<Rightarrow> address list option \<Rightarrow> int list option \<Rightarrow> RevealedShare \<Rightarrow> ('o, 'sc, 'poly) DKG
     \<Rightarrow> slash_action go" where
  "verifyRevealedShare su members indexs rs d =
     (if d_Bls d = None then Some NoSlashAction
      else case map_of (d_nodesPubkey d) (rs_Violator rs) of
          None \<Rightarrow> Some NoSlashAction
        | Some pubkey \<Rightarrow>
            let (verifiedPub, errPub) = VerifyED25519 su pubkey (rs_PubShare rs) (rs_PubSig rs);
                (verifiedPri, errPri) = VerifyED25519 su pubkey (rs_PriShare rs) (rs_PriSig rs)
            in if \<not> verifiedPub \<or> \<not> verifiedPri \<or> errPub \<or> errPri then Some CounterSlashReveal
               else do {
                 indexes \<leftarrow> GetVSSNodesIndexs (case members of None \<Rightarrow> [] | Some l \<Rightarrow> l) indexs;
                 let index = (case map_of indexes (rs_Whistleblower rs) of None \<Rightarrow> 0 | Some i \<Rightarrow> i);
                 Some (if slash_pubs su index (rs_Revealed rs) (JsonPublic su (rs_PubShare rs)) (JsonPrivate su (rs_PriShare rs))
                       then SlashReveal else NoSlashAction) })"

section \<open>The slashing loop\<close>

text \<open>One message on \<open>SlowNodeChan\<close>: what is read for one node, and the reports; the distance in
  blocks is computed on \<open>uint64\<close>.\<close>

record slow_read =
  sr_lastUpload :: "int option"
  sr_lastNodeChange :: "int option"
  sr_lastNodeChangeBlock :: "int option"
  sr_threshold :: "int option"
  sr_blockNumber :: u64

fun slow_nodes :: "(address \<Rightarrow> slow_read) \<Rightarrow> address list \<Rightarrow> vss_call list go" where
  "slow_nodes reads [] = Some []"
| "slow_nodes reads (addr # rest) = do {
     lastConfigUpload \<leftarrow> read_uint64 (sr_lastUpload (reads addr));
     lastNodeChange \<leftarrow> read_uint64 (sr_lastNodeChange (reads addr));
     lastNodeChangeBlock \<leftarrow> read_uint64 (sr_lastNodeChangeBlock (reads addr));
     threshold \<leftarrow> read_uint64 (sr_threshold (reads addr));
     calls \<leftarrow> slow_nodes reads rest;
     Some ((if lastConfigUpload < lastNodeChange \<and> threshold < sr_blockNumber (reads addr) - lastNodeChangeBlock
            then [ReportSlowNode addr] else []) @ calls) }"

text \<open>One message on \<open>RevealedShareChan\<close>.  \<open>verdict\<close> is what looking at one revealed share gives: a
  panic, a failed read, or an action.  The loop may not end: \<open>None\<close> of the outer option.\<close>

definition mark_slashed :: "slash_action option \<Rightarrow> u64 \<Rightarrow> (u64 \<times> bool) list \<Rightarrow> (u64 \<times> bool) list" where
  "mark_slashed action index slashed =
     (if action = Some SlashReveal \<or> action = Some CounterSlashReveal then AList.update index True slashed else slashed)"

partial_function (option) reveal_loop ::
  "(u64 \<Rightarrow> slash_action option go) \<Rightarrow> u64 \<Rightarrow> u64 \<Rightarrow> (u64 \<times> bool) list \<Rightarrow> (u64 \<times> bool) list go option" where
  "reveal_loop verdict lastIx index slashed =
     (if index \<le> lastIx then
        if map_of slashed index = Some True then reveal_loop verdict lastIx (index + 1) slashed
        else case verdict index of
            None \<Rightarrow> Some None
          | Some action \<Rightarrow> reveal_loop verdict lastIx (index + 1) (mark_slashed action index slashed)
      else Some (Some slashed))"

definition revealed_message ::
  "(u64 \<Rightarrow> slash_action option go) \<Rightarrow> int option \<Rightarrow> int option \<Rightarrow> (u64 \<times> bool) list \<Rightarrow> (u64 \<times> bool) list go option" where
  "revealed_message verdict lastSlashVoted revealIndex slashed =
     (case (read_uint64 lastSlashVoted, read_uint64 revealIndex) of
        (Some lastVoted, Some index) \<Rightarrow>
          if lastVoted < index - 1 then reveal_loop verdict (index - 1) lastVoted slashed else Some (Some slashed)
      | _ \<Rightarrow> Some None)"

lemma slash_pris_iff:
  "slash_pris su index revealed pub pris \<longleftrightarrow> fst pub = index \<and> (\<exists>q. (index, q) \<in> set pris)
     \<and> MulBase su (ScUnmarshal su revealed) \<noteq> PtUnmarshal su (snd pub)"
  by (induction pris) auto

lemma slash_pubs_iff:
  "slash_pubs su index revealed pubs pris \<longleftrightarrow> (\<exists>p q. (index, p) \<in> set pubs \<and> (index, q) \<in> set pris
     \<and> MulBase su (ScUnmarshal su revealed) \<noteq> PtUnmarshal su p)"
  by (induction pubs) (auto simp: slash_pris_iff)

text \<open>A node is to be slashed exactly when it signed both share lists and one of its public shares
  for the whistleblower's index does not fit the share revealed; the whistleblower is, exactly
  when a signature does not hold.\<close>

lemma verifyRevealedShare_exact:
  fixes su :: "('o, 'sc, 'pt, 'poly) suite" and d :: "('o, 'sc, 'poly) DKG"
  assumes "d_Bls d \<noteq> None" "map_of (d_nodesPubkey d) (rs_Violator rs) = Some pubkey"
    "GetVSSNodesIndexs (case members of None \<Rightarrow> [] | Some l \<Rightarrow> l) indexs = Some indexes"
    "map_of indexes (rs_Whistleblower rs) = Some index"
  defines "sigsOk \<equiv> VerifyED25519 su pubkey (rs_PubShare rs) (rs_PubSig rs) = (True, False)
      \<and> VerifyED25519 su pubkey (rs_PriShare rs) (rs_PriSig rs) = (True, False)"
  shows "verifyRevealedShare su members indexs rs d = Some
    (if \<not> sigsOk then CounterSlashReveal
     else if \<exists>p q. (index, p) \<in> set (JsonPublic su (rs_PubShare rs)) \<and> (index, q) \<in> set (JsonPrivate su (rs_PriShare rs))
            \<and> MulBase su (ScUnmarshal su (rs_Revealed rs)) \<noteq> PtUnmarshal su p
     then SlashReveal else NoSlashAction)"
  using assms by (auto simp: verifyRevealedShare_def slash_pubs_iff split: prod.splits)

definition sample_revealed :: RevealedShare where
  "sample_revealed = \<lparr>rs_PubShare = [1], rs_PubSig = replicate 32 7 @ [2], rs_PriShare = [1], rs_PriSig = [],
     rs_Revealed = [3], rs_Violator = 1, rs_Whistleblower = 2\<rparr>"

lemma verifyRevealedShare_exact_witness:
  "verifyRevealedShare sample_suite (Some [1, 2]) (Some [0, 1]) sample_revealed sample_installed = Some CounterSlashReveal"
proof -
  have "d_Bls sample_installed \<noteq> None"
    "map_of (d_nodesPubkey sample_installed) (rs_Violator sample_revealed) = Some (replicate 32 7)"
    "GetVSSNodesIndexs (case Some [1, 2] of None \<Rightarrow> [] | Some l \<Rightarrow> l) (Some [0, 1]) = Some [(1, 0), (2, 1)]"
    "map_of [(1, 0), (2, 1)] (rs_Whistleblower sample_revealed) = Some (1 :: int)"
    by code_simp+
  note exact = verifyRevealedShare_exact [OF this, of sample_suite]
  have "VerifyED25519 sample_suite (replicate 32 7) (rs_PubShare sample_revealed) (rs_PubSig sample_revealed)
      \<noteq> (True, False)" by code_simp
  with exact show ?thesis by simp
qed

text \<open>Every turn below the last index brings the loop closer to its end.\<close>

lemma reveal_loop_ends:
  assumes "lastIx < - 1" "\<forall>i. verdict i \<noteq> None"
  shows "\<exists>s. reveal_loop verdict lastIx index slashed = Some (Some s)"
proof (induction "unat (lastIx + 1 - index)" arbitrary: index slashed rule: less_induct)
  case less
  show ?case
  proof (cases "index \<le> lastIx")
    case True
    have "1 + lastIx \<noteq> 0" using assms(1) by (auto simp: add_eq_0_iff)
    then have "lastIx < lastIx + 1" by (simp add: word_less_nat_alt unatSuc add.commute)
    then have nz: "lastIx + 1 - index \<noteq> 0" using True by auto
    moreover have "lastIx + 1 - (index + 1) = (lastIx + 1 - index) - 1" by simp
    ultimately have "unat (lastIx + 1 - (index + 1)) < unat (lastIx + 1 - index)"
      by (metis diff_less unat_minus_one unat_gt_0 zero_less_one)
    then have ih: "\<exists>s. reveal_loop verdict lastIx (index + 1) x = Some (Some s)" for x by (rule less)
    obtain action where "verdict index = Some action" using assms(2) by auto
    then show ?thesis using True ih by (subst reveal_loop.simps) simp
  qed (subst reveal_loop.simps, simp)
qed

lemma reveal_loop_last:
  assumes "reveal_loop verdict lastIx index slashed = Some res" "\<forall>i. verdict i \<noteq> None"
  shows "lastIx \<noteq> - 1"
proof -
  have "(\<forall>i. verdict i \<noteq> None) \<longrightarrow> lastIx \<noteq> - 1"
    using assms(1)
  proof (rule reveal_loop.raw_induct [where P = "\<lambda>v l i s r. (\<forall>i. v i \<noteq> None) \<longrightarrow> l \<noteq> - 1", rotated])
    fix f v l i s r
    assume ih: "\<And>v l i s r. f v l i s = Some r \<Longrightarrow> (\<forall>i. v i \<noteq> None) \<longrightarrow> l \<noteq> - 1"
      and body: "(if i \<le> l then if map_of s i = Some True then f v l (i + 1) s
         else case v i of None \<Rightarrow> Some None | Some action \<Rightarrow> f v l (i + 1) (mark_slashed action i s)
       else Some (Some s)) = Some r"
    show "(\<forall>i. v i \<noteq> None) \<longrightarrow> l \<noteq> - 1"
      using body ih by (cases "v i") (auto split: if_splits dest: spec [of _ i])
  qed
  with assms(2) show ?thesis by blast
qed

text \<open>(C39) The slashing loop ends for every reveal index but zero.  For zero the last index wraps around
  to the largest number, and the loop runs for ever.\<close>

theorem reveal_loop_terminates:
  fixes lastVoted revealIndex :: u64
  assumes "\<forall>i. verdict i \<noteq> None"
  shows "(revealed_message verdict (Some (uint lastVoted)) (Some (uint revealIndex)) slashed = None) \<longleftrightarrow>
    revealIndex = 0 \<and> lastVoted \<noteq> - 1"
proof -
  have r: "read_uint64 (Some (uint w)) = Some w" for w :: u64 by (simp add: read_uint64_def big_Uint64_def)
  show ?thesis
  proof (cases "revealIndex = 0")
    case True
    have "reveal_loop verdict (- 1) lastVoted slashed = None"
      using reveal_loop_last [of verdict "- 1" lastVoted slashed] assms by (cases "reveal_loop verdict (- 1) lastVoted slashed") auto
    then show ?thesis using True
      by (auto simp: revealed_message_def r r [of 0, simplified] word_order.not_eq_extremum)
  next
    case False
    then have "revealIndex - 1 \<noteq> - 1" by simp
    then have "revealIndex - 1 < - 1" unfolding word_order.not_eq_extremum .
    then show ?thesis using reveal_loop_ends [of "revealIndex - 1" verdict lastVoted slashed] assms False
      by (auto simp: revealed_message_def r)
  qed
qed

theorem reveal_loop_terminates_witness:
  "revealed_message (\<lambda>i. Some None) (Some (uint (0 :: u64))) (Some (uint (0 :: u64))) [] = None"
  using reveal_loop_terminates [of "\<lambda>i. Some None" 0 0 "[]"] by simp

section \<open>Announcing new blocks\<close>

datatype vss_chan = SlowNodeChan | RevealedShareChan | UploadVSSConfigChan | VssStateChan

text \<open>\<open>NewVnodeBlockLoop\<close> sends a new block number to these channels, in this order.\<close>

definition dkg_sends :: "vss_chan list" where
  "dkg_sends = [UploadVSSConfigChan, VssStateChan]"

definition pos_sends :: "vss_chan list" where
  "pos_sends = [SlowNodeChan, RevealedShareChan, UploadVSSConfigChan, VssStateChan]"

record block_loop =
  bl_lastBlock :: u64
  bl_current :: u64
  bl_pending :: "vss_chan list"
  bl_chan :: "vss_chan \<Rightarrow> u64 list"
  bl_handled :: "u64 list"

definition block_loop_start :: block_loop where
  "block_loop_start = \<lparr>bl_lastBlock = 0, bl_current = 0, bl_pending = [], bl_chan = (\<lambda>c. []), bl_handled = []\<rparr>"

text \<open>A tick that finds a new block, one send of it, and a message taken by one of the two loops that
  \<open>New\<close> starts; \<open>VssSlashingLoop\<close> is not started.  \<open>bl_handled\<close> records what the state loop took.\<close>

inductive block_loop_step :: "vss_chan list \<Rightarrow> block_loop \<Rightarrow> block_loop \<Rightarrow> bool" for sends where
  tick: "bl_pending l = [] \<Longrightarrow> bl_lastBlock l < current
    \<Longrightarrow> block_loop_step sends l (l\<lparr>bl_pending := sends, bl_current := current\<rparr>)"
| send: "bl_pending l = c # rest \<Longrightarrow> length (bl_chan l c) < 10
    \<Longrightarrow> block_loop_step sends l (l\<lparr>bl_pending := rest, bl_chan := (bl_chan l)(c := bl_chan l c @ [bl_current l]),
          bl_lastBlock := if rest = [] then bl_current l else bl_lastBlock l\<rparr>)"
| take_upload: "bl_chan l UploadVSSConfigChan = b # bs
    \<Longrightarrow> block_loop_step sends l (l\<lparr>bl_chan := (bl_chan l)(UploadVSSConfigChan := bs)\<rparr>)"
| take_state: "bl_chan l VssStateChan = b # bs
    \<Longrightarrow> block_loop_step sends l (l\<lparr>bl_chan := (bl_chan l)(VssStateChan := bs), bl_handled := bl_handled l @ [b]\<rparr>)"

definition announced :: "block_loop \<Rightarrow> u64 list" where
  "announced l = bl_handled l @ bl_chan l VssStateChan"

definition block_inv :: "vss_chan list \<Rightarrow> block_loop \<Rightarrow> bool" where
  "block_inv sends l \<longleftrightarrow> (\<exists>pre. sends = pre @ bl_pending l) \<and> sorted_wrt (<) (announced l)
     \<and> (\<forall>b\<in>set (announced l). b \<le> bl_lastBlock l) \<and> (bl_pending l \<noteq> [] \<longrightarrow> bl_lastBlock l < bl_current l)
     \<and> (\<forall>c. length (bl_chan l c) \<le> 10)"

lemma block_inv_start: "block_inv sends block_loop_start"
  by (simp add: block_inv_def block_loop_start_def announced_def)

lemma sends_last:
  "sends \<in> {dkg_sends, pos_sends} \<Longrightarrow> sends = pre @ c # rest \<Longrightarrow> rest = [] \<longleftrightarrow> c = VssStateChan"
  by (auto simp: dkg_sends_def pos_sends_def Cons_eq_append_conv append_eq_Cons_conv)

lemma block_inv_step:
  assumes "block_inv sends l" "sends \<in> {dkg_sends, pos_sends}" "block_loop_step sends l l'"
  shows "block_inv sends l'"
  using assms(3)
proof cases
  case (send c rest)
  obtain pre where pre: "sends = pre @ c # rest" using assms(1) send(2) by (auto simp: block_inv_def)
  have rest: "rest = [] \<longleftrightarrow> c = VssStateChan" by (rule sends_last [OF assms(2) pre])
  have "sends = (pre @ [c]) @ rest" using pre by simp
  then have "\<exists>pre. sends = pre @ rest" by blast
  then show ?thesis using send assms(1) rest
    by (cases "c = VssStateChan")
      (auto simp: block_inv_def announced_def sorted_wrt_append intro: order.trans less_imp_le dest: le_less_trans)
next
  case (take_upload b bs)
  then have "length bs \<le> 10" using assms(1) by (auto simp: block_inv_def dest: spec [of _ UploadVSSConfigChan])
  then show ?thesis using take_upload assms(1) by (auto simp: block_inv_def announced_def)
next
  case (take_state b bs)
  then have "length bs \<le> 10" using assms(1) by (auto simp: block_inv_def dest: spec [of _ VssStateChan])
  then show ?thesis using take_state assms(1) by (auto simp: block_inv_def announced_def)
qed (use assms(1) in \<open>auto simp: block_inv_def announced_def\<close>)

interpretation block_machine: invariant_machine "\<lambda>l. l = block_loop_start"
  "\<lambda>l l'. sends \<in> {dkg_sends, pos_sends} \<and> block_loop_step sends l l'" "block_inv sends" for sends
  by unfold_locales (auto simp: block_inv_start intro: block_inv_step)

lemma block_reachable:
  assumes "(block_loop_step sends)\<^sup>*\<^sup>* block_loop_start l" "sends \<in> {dkg_sends, pos_sends}"
  shows "block_inv sends l"
proof -
  have "(\<lambda>l l'. sends \<in> {dkg_sends, pos_sends} \<and> block_loop_step sends l l')\<^sup>*\<^sup>* block_loop_start l"
    using assms(1) by (rule rtranclp_mono [THEN predicate2D, rotated]) (use assms(2) in blast)
  then show ?thesis by (rule block_machine.inv_reachable [rotated]) simp
qed

text \<open>(C36) The loop of the key generation service never blocks for good: with a block to announce, it can
  send it or one of the two loops can take a message.  The state loop takes the numbers of new
  blocks in strictly growing order.\<close>

theorem dkg_block_loop_live:
  assumes "(block_loop_step dkg_sends)\<^sup>*\<^sup>* block_loop_start l"
  shows "sorted_wrt (<) (bl_handled l) \<and> (bl_pending l \<noteq> [] \<longrightarrow> (\<exists>l'. block_loop_step dkg_sends l l'))"
proof -
  have inv: "block_inv dkg_sends l" using block_reachable [OF assms] by simp
  have "\<exists>l'. block_loop_step dkg_sends l l'" if "bl_pending l = c # rest" for c rest
  proof (cases "length (bl_chan l c) < 10")
    case False
    then obtain b bs where "bl_chan l c = b # bs" by (cases "bl_chan l c") auto
    moreover have "c \<in> set dkg_sends" using inv that unfolding block_inv_def by (metis in_set_conv_decomp)
    ultimately show ?thesis by (auto simp: dkg_sends_def intro: block_loop_step.take_upload block_loop_step.take_state)
  qed (use that in \<open>blast intro: block_loop_step.send\<close>)
  then show ?thesis using inv by (auto simp: block_inv_def announced_def sorted_wrt_append neq_Nil_conv)
qed

text \<open>The state after the block five has been announced and handled by the state loop.\<close>

definition after_one_block :: "vss_chan list \<Rightarrow> block_loop" where
  "after_one_block sends = \<lparr>bl_lastBlock = 5, bl_current = 5, bl_pending = [],
     bl_chan = (\<lambda>c. if c \<in> set sends - {VssStateChan} then [5] else []), bl_handled = [5]\<rparr>"

lemma send_all:
  assumes "bl_pending l = cs @ [c]" "distinct (cs @ [c])" "\<forall>c\<in>set (cs @ [c]). bl_chan l c = []"
  shows "(block_loop_step sends)\<^sup>*\<^sup>* l (l\<lparr>bl_pending := [],
     bl_chan := (\<lambda>x. if x \<in> set (cs @ [c]) then [bl_current l] else bl_chan l x),
     bl_lastBlock := bl_current l\<rparr>)"
  using assms
proof (induction cs arbitrary: l)
  case Nil
  have "(bl_chan l)(c := [bl_current l]) = (\<lambda>x. if x \<in> set ([] @ [c]) then [bl_current l] else bl_chan l x)" by auto
  then show ?case using block_loop_step.send [of l c "[]" sends] Nil by (intro r_into_rtranclp) simp
next
  case (Cons a cs)
  let ?l = "l\<lparr>bl_pending := cs @ [c], bl_chan := (bl_chan l)(a := [bl_current l])\<rparr>"
  have "block_loop_step sends l ?l" using block_loop_step.send [of l a "cs @ [c]" sends] Cons.prems by simp
  moreover have "(block_loop_step sends)\<^sup>*\<^sup>* ?l (?l\<lparr>bl_pending := [],
     bl_chan := (\<lambda>x. if x \<in> set (cs @ [c]) then [bl_current ?l] else bl_chan ?l x),
     bl_lastBlock := bl_current ?l\<rparr>)"
    by (rule Cons.IH) (use Cons.prems in auto)
  moreover have "(\<lambda>x. if x \<in> set (cs @ [c]) then [bl_current ?l] else bl_chan ?l x)
      = (\<lambda>x. if x \<in> set ((a # cs) @ [c]) then [bl_current l] else bl_chan l x)" by auto
  ultimately show ?case using converse_rtranclp_into_rtranclp by fastforce
qed

lemma after_one_block_reachable:
  assumes "sends = cs @ [VssStateChan]" "distinct sends"
  shows "(block_loop_step sends)\<^sup>*\<^sup>* block_loop_start (after_one_block sends)"
proof -
  let ?l = "block_loop_start\<lparr>bl_pending := sends, bl_current := 5\<rparr>"
  let ?l' = "?l\<lparr>bl_pending := [],
    bl_chan := (\<lambda>x. if x \<in> set (cs @ [VssStateChan]) then [bl_current ?l] else bl_chan ?l x),
    bl_lastBlock := bl_current ?l\<rparr>"
  have tick: "block_loop_step sends block_loop_start ?l"
    by (rule block_loop_step.tick) (simp_all add: block_loop_start_def)
  have send: "(block_loop_step sends)\<^sup>*\<^sup>* ?l ?l'"
    by (rule send_all) (use assms in \<open>simp_all add: block_loop_start_def\<close>)
  have "bl_chan (after_one_block sends) = (bl_chan ?l')(VssStateChan := [])"
    using assms by (auto simp: after_one_block_def block_loop_start_def)
  then have "?l'\<lparr>bl_chan := (bl_chan ?l')(VssStateChan := []), bl_handled := bl_handled ?l' @ [5]\<rparr> = after_one_block sends"
    by (simp add: after_one_block_def block_loop_start_def)
  moreover have "block_loop_step sends ?l' (?l'\<lparr>bl_chan := (bl_chan ?l')(VssStateChan := []), bl_handled := bl_handled ?l' @ [5]\<rparr>)"
    by (rule block_loop_step.take_state) (simp add: block_loop_start_def)
  ultimately have "block_loop_step sends ?l' (after_one_block sends)" by simp
  from rtranclp.rtrancl_into_rtrancl [OF send this] show ?thesis
    by (rule converse_rtranclp_into_rtranclp [where r = "block_loop_step sends", OF tick])
qed

theorem dkg_block_loop_live_witness:
  "\<exists>l'. block_loop_step dkg_sends ((after_one_block dkg_sends)\<lparr>bl_pending := dkg_sends, bl_current := 6\<rparr>) l'"
proof -
  let ?l = "(after_one_block dkg_sends)\<lparr>bl_pending := dkg_sends, bl_current := 6\<rparr>"
  have "(block_loop_step dkg_sends)\<^sup>*\<^sup>* block_loop_start (after_one_block dkg_sends)"
    by (rule after_one_block_reachable [of _ "[UploadVSSConfigChan]"]) (simp_all add: dkg_sends_def)
  moreover have "block_loop_step dkg_sends (after_one_block dkg_sends) ?l"
    by (rule block_loop_step.tick) (simp_all add: after_one_block_def)
  ultimately have "(block_loop_step dkg_sends)\<^sup>*\<^sup>* block_loop_start ?l" by (rule rtranclp.rtrancl_into_rtrancl)
  from dkg_block_loop_live [OF this] show ?thesis by (simp add: dkg_sends_def)
qed

text \<open>Nobody takes from \<open>SlowNodeChan\<close>, so it holds one number for every block announced.\<close>

definition slow_inv :: "block_loop \<Rightarrow> bool" where
  "slow_inv l \<longleftrightarrow> (\<exists>pre. pos_sends = pre @ bl_pending l) \<and> length (bl_chan l SlowNodeChan) \<le> 10
     \<and> length (bl_chan l SlowNodeChan) = length (announced l)
         + (if bl_pending l \<noteq> [] \<and> SlowNodeChan \<notin> set (bl_pending l) then 1 else 0)"

lemma slow_inv_step:
  assumes "slow_inv l" "block_loop_step pos_sends l l'"
  shows "slow_inv l'"
  using assms(2)
proof cases
  case (send c rest)
  obtain pre where pre: "pos_sends = pre @ c # rest" using assms(1) send(2) by (auto simp: slow_inv_def)
  then have "pos_sends = (pre @ [c]) @ rest" by simp
  then have "\<exists>pre. pos_sends = pre @ rest" by blast
  moreover have "(c = SlowNodeChan \<and> rest \<noteq> [] \<or> c \<noteq> SlowNodeChan \<and> (rest = [] \<longleftrightarrow> c = VssStateChan)) \<and> SlowNodeChan \<notin> set rest"
    using pre by (auto simp: pos_sends_def Cons_eq_append_conv)
  ultimately show ?thesis using send assms(1) by (auto simp: slow_inv_def announced_def split: if_splits)
qed (use assms(1) in \<open>auto simp: slow_inv_def announced_def pos_sends_def split: if_splits\<close>)

lemma slow_inv_start: "slow_inv block_loop_start"
  by (simp add: slow_inv_def block_loop_start_def announced_def)

interpretation slow_machine: invariant_machine "\<lambda>l. l = block_loop_start" "block_loop_step pos_sends" slow_inv
  by unfold_locales (auto simp: slow_inv_start intro: slow_inv_step)

text \<open>(C37) In the proof-of-stake copy the loop also sends to two channels nobody reads.  It stops for good
  when the first is full: the key generation never handles more than ten blocks.\<close>

theorem pos_block_loop_stalls:
  assumes "(block_loop_step pos_sends)\<^sup>*\<^sup>* block_loop_start l"
  shows "length (bl_handled l) \<le> 10"
  using slow_machine.inv_reachable [OF refl assms] by (auto simp: slow_inv_def announced_def split: if_splits)

theorem pos_block_loop_stalls_witness:
  "length (bl_handled (after_one_block pos_sends)) \<le> 10 \<and> bl_handled (after_one_block pos_sends) = [5]"
proof -
  have "(block_loop_step pos_sends)\<^sup>*\<^sup>* block_loop_start (after_one_block pos_sends)"
    by (rule after_one_block_reachable [of _ "[SlowNodeChan, RevealedShareChan, UploadVSSConfigChan]"])
      (simp_all add: pos_sends_def)
  from pos_block_loop_stalls [OF this] show ?thesis by (simp add: after_one_block_def)
qed

end
