(* ===== verification/Clique_Snapshot.thy ===== *)
theory Clique_Snapshot
  imports Engine
begin

text \<open>
  \<open>consensus/clique/snapshot.go\<close>: the votes by which the signers of a proof-of-authority chain admit
  and remove each other.  A snapshot is a record; its set of signers is a list without
  duplicates, its maps are association lists.  Recovering the signer of a header from its
  signature is an argument, as the curve is not part of the repository.
\<close>

datatype clique_error =
    errUnknownBlock | errInvalidCheckpointBeneficiary | errInvalidVote | errInvalidCheckpointVote
  | errMissingVanity | errMissingSignature | errExtraSigners | errInvalidCheckpointSigners
  | errInvalidMixDigest | errInvalidUncleHash | errInvalidDifficulty | errInvalidTimestamp
  | errInvalidVotingChain | errUnauthorized | errUnclesNotAllowed | errRecover | errStore
  | errEngine engine_error

record CliqueConfig =
  cfg_Period :: u64
  cfg_Epoch :: u64

section \<open>Snapshots\<close>

record Vote =
  v_Signer :: address
  v_Block :: u64
  v_Address :: address
  v_Authorize :: bool

record Tally =
  t_Authorize :: bool
  t_Votes :: int

record Snapshot =
  s_Number :: u64
  s_Hash :: hash
  s_Signers :: "address list"
  s_Recents :: "(u64 \<times> address) list"
  s_Votes :: "Vote list"
  s_Tally :: "(address \<times> Tally) list"

definition newSnapshot :: "u64 \<Rightarrow> hash \<Rightarrow> address list \<Rightarrow> Snapshot" where
  "newSnapshot number h signers =
     \<lparr>s_Number = number, s_Hash = h, s_Signers = foldl (\<lambda>m a. List.insert a m) [] signers,
      s_Recents = [], s_Votes = [], s_Tally = []\<rparr>"

definition validVote :: "Snapshot \<Rightarrow> address \<Rightarrow> bool \<Rightarrow> bool" where
  "validVote s addr authorize =
     (let signer = (addr \<in> set (s_Signers s)) in (signer \<and> \<not> authorize) \<or> (\<not> signer \<and> authorize))"

definition cast_vote :: "Snapshot \<Rightarrow> address \<Rightarrow> bool \<Rightarrow> Snapshot \<times> bool" where
  "cast_vote s addr authorize =
     (if \<not> validVote s addr authorize then (s, False)
      else case map_of (s_Tally s) addr of
          Some old \<Rightarrow> (s\<lparr>s_Tally := AList.update addr (old\<lparr>t_Votes := t_Votes old + 1\<rparr>) (s_Tally s)\<rparr>, True)
        | None \<Rightarrow> (s\<lparr>s_Tally := AList.update addr \<lparr>t_Authorize = authorize, t_Votes = 1\<rparr> (s_Tally s)\<rparr>, True))"

definition uncast :: "Snapshot \<Rightarrow> address \<Rightarrow> bool \<Rightarrow> Snapshot \<times> bool" where
  "uncast s addr authorize =
     (case map_of (s_Tally s) addr of
        None \<Rightarrow> (s, False)
      | Some tally \<Rightarrow>
          if t_Authorize tally \<noteq> authorize then (s, False)
          else if t_Votes tally > 1
          then (s\<lparr>s_Tally := AList.update addr (tally\<lparr>t_Votes := t_Votes tally - 1\<rparr>) (s_Tally s)\<rparr>, True)
          else (s\<lparr>s_Tally := AList.delete addr (s_Tally s)\<rparr>, True))"

section \<open>Applying headers\<close>

text \<open>The steps of one turn of the loop in \<open>apply\<close>, in its order.\<close>

definition signer_limit :: "Snapshot \<Rightarrow> u64" where
  "signer_limit s = of_nat (length (s_Signers s) div 2 + 1)"

definition forget_recent :: "u64 \<Rightarrow> Snapshot \<Rightarrow> Snapshot" where
  "forget_recent number s =
     (if number \<ge> signer_limit s then s\<lparr>s_Recents := AList.delete (number - signer_limit s) (s_Recents s)\<rparr> else s)"

text \<open>Drop the first vote of the signer on the address, from the list and from the tally.\<close>

fun split_vote :: "(Vote \<Rightarrow> bool) \<Rightarrow> Vote list \<Rightarrow> (Vote \<times> Vote list) option" where
  "split_vote P [] = None"
| "split_vote P (v # vs) =
     (if P v then Some (v, vs) else map_option (\<lambda>(w, ws). (w, v # ws)) (split_vote P vs))"

definition discard_previous :: "address \<Rightarrow> address \<Rightarrow> Snapshot \<Rightarrow> Snapshot" where
  "discard_previous signer addr s =
     (case split_vote (\<lambda>v. v_Signer v = signer \<and> v_Address v = addr) (s_Votes s) of
        None \<Rightarrow> s
      | Some (v, vs) \<Rightarrow> (fst (uncast s (v_Address v) (v_Authorize v)))\<lparr>s_Votes := vs\<rparr>)"

text \<open>The loop that drops every vote the removed signer has cast, and the one that drops every vote
  on the changed account.\<close>

fun discard_cast_by :: "address \<Rightarrow> Vote list \<Rightarrow> Snapshot \<Rightarrow> Snapshot" where
  "discard_cast_by a [] s = s\<lparr>s_Votes := []\<rparr>"
| "discard_cast_by a (v # vs) s =
     (if v_Signer v = a then discard_cast_by a vs (fst (uncast s (v_Address v) (v_Authorize v)))
      else let s' = discard_cast_by a vs s in s'\<lparr>s_Votes := v # s_Votes s'\<rparr>)"

definition discard_votes_on :: "address \<Rightarrow> Snapshot \<Rightarrow> Snapshot" where
  "discard_votes_on a s = s\<lparr>s_Votes := filter (\<lambda>v. v_Address v \<noteq> a) (s_Votes s)\<rparr>"

definition pass_vote :: "u64 \<Rightarrow> address \<Rightarrow> Snapshot \<Rightarrow> Snapshot" where
  "pass_vote number addr s =
     (case map_of (s_Tally s) addr of
        None \<Rightarrow> s
      | Some tally \<Rightarrow>
          if t_Votes tally > int (length (s_Signers s) div 2) then
            let s = (if t_Authorize tally then s\<lparr>s_Signers := List.insert addr (s_Signers s)\<rparr>
                     else let s = forget_recent number (s\<lparr>s_Signers := removeAll addr (s_Signers s)\<rparr>)
                          in discard_cast_by addr (s_Votes s) s);
                s = discard_votes_on addr s
            in s\<lparr>s_Tally := AList.delete addr (s_Tally s)\<rparr>
          else s)"

text \<open>The nonces that vote for and against.\<close>

definition vote_of_nonce :: "bytes \<Rightarrow> bool option" where
  "vote_of_nonce nonce =
     (if nonce = replicate 8 0xff then Some True else if nonce = replicate 8 0 then Some False else None)"

definition apply_header ::
  "(header \<Rightarrow> clique_error + address) \<Rightarrow> u64 \<Rightarrow> header \<Rightarrow> Snapshot \<Rightarrow> clique_error + Snapshot" where
  "apply_header ecrecover epoch header s0 =
     (let number = big_Uint64 (h_number header);
          s1 = (if number mod epoch = 0 then s0\<lparr>s_Votes := [], s_Tally := []\<rparr> else s0);
          s2 = forget_recent number s1
      in case ecrecover header of
          Inl err \<Rightarrow> Inl err
        | Inr signer \<Rightarrow>
            if signer \<notin> set (s_Signers s2) then Inl errUnauthorized
            else if signer \<in> snd ` set (s_Recents s2) then Inl errUnauthorized
            else
              let s3 = s2\<lparr>s_Recents := AList.update number signer (s_Recents s2)\<rparr>;
                  s4 = discard_previous signer (h_coinbase header) s3
              in case vote_of_nonce (h_nonce header) of
                  None \<Rightarrow> Inl errInvalidVote
                | Some authorize \<Rightarrow>
                    let (s5, counted) = cast_vote s4 (h_coinbase header) authorize;
                        s6 = (if counted then s5\<lparr>s_Votes := s_Votes s5 @
                                [\<lparr>v_Signer = signer, v_Block = number, v_Address = h_coinbase header, v_Authorize = authorize\<rparr>]\<rparr>
                              else s5)
                    in Inr (pass_vote number (h_coinbase header) s6))"

fun apply_headers ::
  "(header \<Rightarrow> clique_error + address) \<Rightarrow> u64 \<Rightarrow> header list \<Rightarrow> Snapshot \<Rightarrow> clique_error + Snapshot" where
  "apply_headers ecrecover epoch [] s = Inr s"
| "apply_headers ecrecover epoch (h # hs) s =
     (case apply_header ecrecover epoch h s of Inl err \<Rightarrow> Inl err | Inr s' \<Rightarrow> apply_headers ecrecover epoch hs s')"

fun voting_chain :: "header list \<Rightarrow> bool" where
  "voting_chain (h # h' # hs) \<longleftrightarrow> big_Uint64 (h_number h') = big_Uint64 (h_number h) + 1 \<and> voting_chain (h' # hs)"
| "voting_chain _ \<longleftrightarrow> True"

definition snapshot_apply ::
  "(header \<Rightarrow> clique_error + address) \<Rightarrow> u64 \<Rightarrow> Snapshot \<Rightarrow> header list \<Rightarrow> clique_error + Snapshot" where
  "snapshot_apply ecrecover epoch s headers =
     (if headers = [] then Inr s
      else if \<not> voting_chain headers then Inl errInvalidVotingChain
      else if big_Uint64 (h_number (hd headers)) \<noteq> s_Number s + 1 then Inl errInvalidVotingChain
      else case apply_headers ecrecover epoch headers s of
          Inl err \<Rightarrow> Inl err
        | Inr snap \<Rightarrow> Inr (snap\<lparr>s_Number := s_Number snap + of_nat (length headers), s_Hash := h_hash (last headers)\<rparr>))"

section \<open>Whose turn it is\<close>

text \<open>The exchange sort of \<open>signers\<close>: the inner loop brings the least of the rest to the front.\<close>

fun bring_least :: "'a :: linorder \<Rightarrow> 'a list \<Rightarrow> 'a \<times> 'a list" where
  "bring_least x [] = (x, [])"
| "bring_least x (y # ys) =
     (if x > y then let (m, zs) = bring_least y ys in (m, x # zs) else let (m, zs) = bring_least x ys in (m, y # zs))"

lemma bring_least_length [simp]: "length (snd (bring_least x ys)) = length ys"
  by (induction ys arbitrary: x) (simp_all add: Let_def case_prod_unfold)

function exchange_sort :: "'a :: linorder list \<Rightarrow> 'a list" where
  "exchange_sort [] = []"
| "exchange_sort (x # xs) = (let (m, ys) = bring_least x xs in m # exchange_sort ys)"
  by pat_completeness auto
termination by (relation "measure length") (auto, metis bring_least_length snd_conv lessI)

definition signers_list :: "Snapshot \<Rightarrow> address list" where
  "signers_list s = exchange_sort (s_Signers s)"

definition inturn :: "Snapshot \<Rightarrow> u64 \<Rightarrow> address \<Rightarrow> bool go" where
  "inturn s number signer =
     (let signers = signers_list s; offset = length (takeWhile (\<lambda>a. a \<noteq> signer) signers)
      in if signers = [] then None else Some (number mod of_nat (length signers) = of_nat offset))"

section \<open>The votes and their tally\<close>

text \<open>
  The abstract account of the voting: the tally is not state of its own but is counted from the
  list of votes.  A snapshot is well formed when the votes are by signers, one for each signer and
  account, each for the change that is possible, and the tally is that count.
\<close>

definition votes_on :: "Snapshot \<Rightarrow> address \<Rightarrow> Vote list" where
  "votes_on s a = filter (\<lambda>v. v_Address v = a) (s_Votes s)"

definition count_tally :: "bool \<Rightarrow> nat \<Rightarrow> Tally option" where
  "count_tally authorize n = (if n = 0 then None else Some \<lparr>t_Authorize = authorize, t_Votes = int n\<rparr>)"

definition snapshot_ok :: "Snapshot \<Rightarrow> bool" where
  "snapshot_ok s \<longleftrightarrow> distinct (s_Signers s)
     \<and> (\<forall>v\<in>set (s_Votes s). v_Signer v \<in> set (s_Signers s) \<and> v_Authorize v = (v_Address v \<notin> set (s_Signers s)))
     \<and> distinct (map (\<lambda>v. (v_Signer v, v_Address v)) (s_Votes s))
     \<and> (\<forall>a. map_of (s_Tally s) a = count_tally (a \<notin> set (s_Signers s)) (length (votes_on s a)))
     \<and> distinct (map snd (s_Recents s)) \<and> go_ok (s_Recents s)"

lemma count_tally_simps [simp]:
  "count_tally b 0 = None" "count_tally b (Suc n) = Some \<lparr>t_Authorize = b, t_Votes = int (Suc n)\<rparr>"
  by (simp_all add: count_tally_def)

text \<open>The tally part alone, with a list of votes that need not be the snapshot's.\<close>

definition tally_counts :: "Snapshot \<Rightarrow> (address \<Rightarrow> bool) \<Rightarrow> Vote list \<Rightarrow> bool" where
  "tally_counts s auth vs \<longleftrightarrow> (\<forall>a. map_of (s_Tally s) a = count_tally (auth a) (length (filter (\<lambda>v. v_Address v = a) vs)))"

lemma uncast_frame [simp]:
  "s_Signers (fst (uncast s a b)) = s_Signers s" "s_Recents (fst (uncast s a b)) = s_Recents s"
  "s_Votes (fst (uncast s a b)) = s_Votes s" "s_Number (fst (uncast s a b)) = s_Number s"
  by (simp_all add: uncast_def split: option.splits)

lemma uncast_counts:
  assumes "tally_counts s auth vs" "mset vs = add_mset v (mset vs')" "v_Authorize v = auth (v_Address v)"
  shows "tally_counts (fst (uncast s (v_Address v) (v_Authorize v))) auth vs'"
proof -
  have len: "length (filter (\<lambda>w. v_Address w = a) vs)
      = (if v_Address v = a then 1 else 0) + length (filter (\<lambda>w. v_Address w = a) vs')" for a
  proof -
    have "size (filter_mset (\<lambda>w. v_Address w = a) (mset vs)) = size (filter_mset (\<lambda>w. v_Address w = a) (add_mset v (mset vs')))"
      using assms(2) by simp
    then show ?thesis by (simp add: mset_filter [symmetric] del: mset_filter)
  qed
  have t: "map_of (s_Tally s) a = count_tally (auth a) (length (filter (\<lambda>w. v_Address w = a) vs))" for a
    using assms(1) by (simp add: tally_counts_def)
  show ?thesis
  proof (cases "length (filter (\<lambda>w. v_Address w = v_Address v) vs')")
    case 0
    then have "map_of (s_Tally s) (v_Address v) = Some \<lparr>t_Authorize = v_Authorize v, t_Votes = 1\<rparr>"
      using t [of "v_Address v"] len [of "v_Address v"] assms(3) by simp
    then show ?thesis using t len 0 by (auto simp: uncast_def tally_counts_def alist_simps)
  next
    case (Suc n)
    then have "map_of (s_Tally s) (v_Address v) = Some \<lparr>t_Authorize = v_Authorize v, t_Votes = int n + 2\<rparr>"
      using t [of "v_Address v"] len [of "v_Address v"] assms(3) by simp
    then show ?thesis using t len Suc assms(3) by (auto simp: uncast_def tally_counts_def alist_simps)
  qed
qed

lemma split_vote_Some:
  "split_vote P vs = Some (v, ws) \<Longrightarrow> P v \<and> mset vs = add_mset v (mset ws)
     \<and> (\<exists>pre suf. vs = pre @ v # suf \<and> ws = pre @ suf)"
proof (induction vs arbitrary: ws)
  case (Cons x vs)
  show ?case
  proof (cases "P x")
    case True
    then have "v = x" "ws = vs" using Cons.prems by simp_all
    then show ?thesis using True by (auto intro: exI [of _ "[]"])
  next
    case False
    then obtain us where us: "split_vote P vs = Some (v, us)" "ws = x # us" using Cons.prems by auto
    from Cons.IH [OF us(1)] obtain pre suf where "P v" "mset vs = add_mset v (mset us)" "vs = pre @ v # suf" "us = pre @ suf"
      by blast
    then have "x # vs = (x # pre) @ v # suf" "ws = (x # pre) @ suf" using us by simp_all
    then show ?thesis using \<open>P v\<close> by (auto intro: exI [of _ "x # pre"])
  qed
qed simp

lemma split_vote_None: "split_vote P vs = None \<Longrightarrow> \<forall>v\<in>set vs. \<not> P v"
  by (induction vs) (auto split: if_splits)

text \<open>The parts of well-formedness that a step keeps or changes separately.\<close>

definition votes_ok :: "address list \<Rightarrow> Vote list \<Rightarrow> bool" where
  "votes_ok signers vs \<longleftrightarrow> distinct (map (\<lambda>v. (v_Signer v, v_Address v)) vs)
     \<and> (\<forall>v\<in>set vs. v_Signer v \<in> set signers \<and> v_Authorize v = (v_Address v \<notin> set signers))"

definition recents_ok :: "(u64 \<times> address) list \<Rightarrow> bool" where
  "recents_ok rs \<longleftrightarrow> distinct (map snd rs) \<and> go_ok rs"

lemma snapshot_ok_parts:
  "snapshot_ok s \<longleftrightarrow> distinct (s_Signers s) \<and> votes_ok (s_Signers s) (s_Votes s)
     \<and> tally_counts s (\<lambda>a. a \<notin> set (s_Signers s)) (s_Votes s) \<and> recents_ok (s_Recents s)"
  by (auto simp: snapshot_ok_def votes_ok_def tally_counts_def votes_on_def recents_ok_def)

lemma distinct_snd_update:
  "distinct (map snd m) \<Longrightarrow> v \<notin> snd ` set m \<Longrightarrow> distinct (map snd (AList.update k v m))"
proof (induction m)
  case (Cons p m)
  have "snd ` set (AList.update k v m) \<subseteq> insert v (snd ` set m)" by (induction m) auto
  then show ?case using Cons by (cases p) auto
qed simp

lemma recents_ok_update: "recents_ok rs \<Longrightarrow> v \<notin> snd ` set rs \<Longrightarrow> recents_ok (AList.update k v rs)"
  by (simp add: recents_ok_def distinct_snd_update)

lemma recents_ok_delete: "recents_ok rs \<Longrightarrow> recents_ok (AList.delete k rs)"
  by (auto simp: recents_ok_def AList.delete_eq distinct_map inj_on_filter_key_eq intro: inj_on_subset)

lemma forget_recent_frame [simp]:
  "s_Signers (forget_recent n s) = s_Signers s" "s_Votes (forget_recent n s) = s_Votes s"
  "s_Tally (forget_recent n s) = s_Tally s" "recents_ok (s_Recents s) \<Longrightarrow> recents_ok (s_Recents (forget_recent n s))"
  by (simp_all add: forget_recent_def recents_ok_delete)

lemma tally_counts_frame [simp]:
  "tally_counts (s\<lparr>s_Votes := x\<rparr>) auth vs = tally_counts s auth vs"
  "tally_counts (s\<lparr>s_Recents := y\<rparr>) auth vs = tally_counts s auth vs"
  "tally_counts (s\<lparr>s_Signers := z\<rparr>) auth vs = tally_counts s auth vs"
  "tally_counts (forget_recent n s) auth vs = tally_counts s auth vs"
  by (simp_all add: tally_counts_def)

lemma discard_previous_ok:
  assumes "snapshot_ok s"
  shows "snapshot_ok (discard_previous signer a s)" "s_Signers (discard_previous signer a s) = s_Signers s"
    "\<forall>v\<in>set (s_Votes (discard_previous signer a s)). \<not> (v_Signer v = signer \<and> v_Address v = a)"
proof -
  note ok = assms [unfolded snapshot_ok_parts]
  have "snapshot_ok (discard_previous signer a s) \<and> s_Signers (discard_previous signer a s) = s_Signers s
    \<and> (\<forall>v\<in>set (s_Votes (discard_previous signer a s)). \<not> (v_Signer v = signer \<and> v_Address v = a))"
  proof (cases "split_vote (\<lambda>v. v_Signer v = signer \<and> v_Address v = a) (s_Votes s)")
    case None
    then show ?thesis using assms split_vote_None [OF None] by (simp add: discard_previous_def)
  next
    case (Some p)
    obtain v ws where p: "p = (v, ws)" by force
    obtain pre suf where sp: "v_Signer v = signer" "v_Address v = a" "mset (s_Votes s) = add_mset v (mset ws)"
      "s_Votes s = pre @ v # suf" "ws = pre @ suf" using split_vote_Some [OF Some [unfolded p]] by blast
    have "v_Authorize v = (v_Address v \<notin> set (s_Signers s))" using ok sp(4) by (simp add: votes_ok_def)
    then have "tally_counts (fst (uncast s (v_Address v) (v_Authorize v))) (\<lambda>a. a \<notin> set (s_Signers s)) ws"
      using uncast_counts [of s "\<lambda>a. a \<notin> set (s_Signers s)", OF _ sp(3)] ok by blast
    moreover have "votes_ok (s_Signers s) ws" using ok sp(4,5) by (auto simp: votes_ok_def)
    moreover have "(signer, a) \<notin> (\<lambda>v. (v_Signer v, v_Address v)) ` set ws"
      using ok sp by (auto simp: votes_ok_def)
    then have "\<forall>w\<in>set ws. \<not> (v_Signer w = signer \<and> v_Address w = a)" by force
    ultimately show ?thesis using Some p ok
      by (simp add: discard_previous_def snapshot_ok_parts)
  qed
  then show "snapshot_ok (discard_previous signer a s)" "s_Signers (discard_previous signer a s) = s_Signers s"
    "\<forall>v\<in>set (s_Votes (discard_previous signer a s)). \<not> (v_Signer v = signer \<and> v_Address v = a)" by auto
qed

lemma cast_vote_ok:
  assumes "snapshot_ok s" "signer \<in> set (s_Signers s)"
    "\<forall>v\<in>set (s_Votes s). \<not> (v_Signer v = signer \<and> v_Address v = a)" "cast_vote s a authorize = (s', counted)"
  shows "snapshot_ok (if counted then s'\<lparr>s_Votes := s_Votes s' @
      [\<lparr>v_Signer = signer, v_Block = n, v_Address = a, v_Authorize = authorize\<rparr>]\<rparr> else s') \<and> s_Signers s' = s_Signers s"
proof (cases "validVote s a authorize")
  case True
  note ok = assms(1) [unfolded snapshot_ok_parts]
  let ?v = "\<lparr>v_Signer = signer, v_Block = n, v_Address = a, v_Authorize = authorize\<rparr>"
  have auth: "authorize = (a \<notin> set (s_Signers s))" using True by (auto simp: validVote_def)
  have t: "map_of (s_Tally s) b = count_tally (b \<notin> set (s_Signers s)) (length (filter (\<lambda>v. v_Address v = b) (s_Votes s)))"
    for b using ok by (simp add: tally_counts_def)
  have s': "counted" "s_Votes s' = s_Votes s" "s_Signers s' = s_Signers s" "s_Recents s' = s_Recents s"
    using True assms(4) by (auto simp: cast_vote_def split: option.splits)
  have "map_of (s_Tally s') = (map_of (s_Tally s))(a \<mapsto> \<lparr>t_Authorize = authorize,
      t_Votes = int (Suc (length (filter (\<lambda>v. v_Address v = a) (s_Votes s))))\<rparr>)"
    using True assms(4) t [of a] auth
    by (cases "length (filter (\<lambda>v. v_Address v = a) (s_Votes s))") (auto simp: cast_vote_def alist_simps)
  then have "tally_counts s' (\<lambda>a. a \<notin> set (s_Signers s)) (s_Votes s @ [?v])"
    using t auth unfolding tally_counts_def by simp
  moreover have "votes_ok (s_Signers s) (s_Votes s @ [?v])" using ok assms(2,3) auth by (auto simp: votes_ok_def)
  ultimately show ?thesis using s' ok by (simp add: snapshot_ok_parts)
next
  case False
  then show ?thesis using assms(1,4) by (simp add: cast_vote_def)
qed

lemma discard_cast_by_frame [simp]:
  "s_Signers (discard_cast_by a vs s) = s_Signers s" "s_Recents (discard_cast_by a vs s) = s_Recents s"
  "s_Votes (discard_cast_by a vs s) = filter (\<lambda>v. v_Signer v \<noteq> a) vs"
  by (induction a vs s rule: discard_cast_by.induct) (simp_all add: Let_def)

lemma discard_cast_by_counts:
  assumes "tally_counts s auth (pre @ vs)" "\<forall>v\<in>set vs. v_Authorize v = auth (v_Address v)"
  shows "tally_counts (discard_cast_by a vs s) auth (pre @ filter (\<lambda>v. v_Signer v \<noteq> a) vs)"
  using assms
proof (induction vs arbitrary: s pre)
  case (Cons v vs)
  show ?case
  proof (cases "v_Signer v = a")
    case True
    have "tally_counts (fst (uncast s (v_Address v) (v_Authorize v))) auth (pre @ vs)"
      by (rule uncast_counts [OF Cons.prems(1)]) (use Cons.prems(2) in auto)
    then show ?thesis using Cons.IH Cons.prems(2) True by simp
  next
    case False
    then show ?thesis using Cons.IH [of s "pre @ [v]"] Cons.prems by (simp add: Let_def)
  qed
qed simp

lemma settle_account:
  assumes "tally_counts s auth vs" "\<And>b. b \<noteq> a \<Longrightarrow> auth' b = auth b"
  shows "tally_counts (s\<lparr>s_Tally := AList.delete a (s_Tally s)\<rparr>) auth' (filter (\<lambda>v. v_Address v \<noteq> a) vs)"
proof -
  have "filter (\<lambda>v. v_Address v = b) (filter (\<lambda>v. v_Address v \<noteq> a) vs)
      = (if b = a then [] else filter (\<lambda>v. v_Address v = b) vs)" for b
    by (auto simp: filter_empty_conv intro!: filter_cong)
  then show ?thesis using assms by (simp add: tally_counts_def alist_simps del: filter_filter)
qed

lemma pass_vote_ok:
  assumes "snapshot_ok s"
  shows "snapshot_ok (pass_vote n a s)"
proof (cases "map_of (s_Tally s) a")
  case (Some tally)
  note ok = assms [unfolded snapshot_ok_parts]
  have auth: "t_Authorize tally = (a \<notin> set (s_Signers s))"
    using Some ok by (auto simp: tally_counts_def count_tally_def split: if_splits)
  have votes: "\<forall>v\<in>set (s_Votes s). v_Authorize v = (v_Address v \<notin> set (s_Signers s))" using ok by (simp add: votes_ok_def)
  show ?thesis
  proof (cases "t_Votes tally > int (length (s_Signers s) div 2)")
    case True
    show ?thesis
    proof (cases "t_Authorize tally")
      case add: True
      let ?s = "(discard_votes_on a (s\<lparr>s_Signers := List.insert a (s_Signers s)\<rparr>))"
      have "tally_counts (?s\<lparr>s_Tally := AList.delete a (s_Tally ?s)\<rparr>) (\<lambda>b. b \<notin> set (List.insert a (s_Signers s)))
          (filter (\<lambda>v. v_Address v \<noteq> a) (s_Votes s))"
        by (rule settle_account [where auth = "\<lambda>b. b \<notin> set (s_Signers s)"]) (use ok in \<open>auto simp: discard_votes_on_def\<close>)
      then show ?thesis using True add Some ok
        by (auto simp: pass_vote_def Let_def snapshot_ok_parts discard_votes_on_def votes_ok_def distinct_map_filter)
    next
      case drop: False
      let ?r = "forget_recent n (s\<lparr>s_Signers := removeAll a (s_Signers s)\<rparr>)"
      let ?s = "discard_votes_on a (discard_cast_by a (s_Votes s) ?r)"
      have "tally_counts (discard_cast_by a (s_Votes s) ?r) (\<lambda>b. b \<notin> set (s_Signers s))
          (filter (\<lambda>v. v_Signer v \<noteq> a) (s_Votes s))"
        using discard_cast_by_counts [of ?r "\<lambda>b. b \<notin> set (s_Signers s)" "[]" "s_Votes s" a] ok votes by simp
      then have "tally_counts (?s\<lparr>s_Tally := AList.delete a (s_Tally ?s)\<rparr>) (\<lambda>b. b \<notin> set (removeAll a (s_Signers s)))
          (filter (\<lambda>v. v_Address v \<noteq> a) (filter (\<lambda>v. v_Signer v \<noteq> a) (s_Votes s)))"
        by (intro settle_account [where auth = "\<lambda>b. b \<notin> set (s_Signers s)"]) (auto simp: discard_votes_on_def)
      then show ?thesis using True drop Some ok
        by (auto simp: pass_vote_def Let_def snapshot_ok_parts discard_votes_on_def votes_ok_def distinct_map_filter
            distinct_removeAll)
    qed
  qed (use assms Some in \<open>simp add: pass_vote_def\<close>)
qed (use assms in \<open>simp add: pass_vote_def\<close>)

text \<open>A header that is applied, taken apart.\<close>

lemma apply_header_Inr:
  assumes "apply_header ec epoch h s0 = Inr s'"
  obtains signer authorize s2 s4 s5 counted where
    "s2 = forget_recent (big_Uint64 (h_number h))
       (if big_Uint64 (h_number h) mod epoch = 0 then s0\<lparr>s_Votes := [], s_Tally := []\<rparr> else s0)"
    "ec h = Inr signer" "signer \<in> set (s_Signers s2)" "signer \<notin> snd ` set (s_Recents s2)"
    "s4 = discard_previous signer (h_coinbase h)
       (s2\<lparr>s_Recents := AList.update (big_Uint64 (h_number h)) signer (s_Recents s2)\<rparr>)"
    "vote_of_nonce (h_nonce h) = Some authorize" "cast_vote s4 (h_coinbase h) authorize = (s5, counted)"
    "s' = pass_vote (big_Uint64 (h_number h)) (h_coinbase h) (if counted then s5\<lparr>s_Votes := s_Votes s5 @
       [\<lparr>v_Signer = signer, v_Block = big_Uint64 (h_number h), v_Address = h_coinbase h, v_Authorize = authorize\<rparr>]\<rparr> else s5)"
  using assms by (auto simp: apply_header_def Let_def split: sum.splits if_splits option.splits prod.splits)

lemma pass_vote_signers:
  "set (s_Signers (pass_vote n a s)) = (case map_of (s_Tally s) a of
     Some t \<Rightarrow> if t_Votes t > int (length (s_Signers s) div 2)
       then if t_Authorize t then insert a (set (s_Signers s)) else set (s_Signers s) - {a} else set (s_Signers s)
   | None \<Rightarrow> set (s_Signers s))"
  by (auto simp: pass_vote_def Let_def discard_votes_on_def split: option.splits)

text \<open>In a well-formed snapshot the votes on an account are by as many different signers.\<close>

lemma voters_card:
  assumes "snapshot_ok s"
  shows "card (v_Signer ` set (votes_on s a)) = length (votes_on s a)"
    "v_Signer ` set (votes_on s a) \<subseteq> set (s_Signers s)"
proof -
  have "inj_on v_Signer (set (votes_on s a))" and d: "distinct (votes_on s a)"
    using assms by (auto simp: snapshot_ok_def votes_on_def distinct_map inj_on_def)
  then show "card (v_Signer ` set (votes_on s a)) = length (votes_on s a)"
    by (simp add: card_image distinct_card)
  show "v_Signer ` set (votes_on s a) \<subseteq> set (s_Signers s)"
    using assms by (auto simp: snapshot_ok_def votes_on_def)
qed

lemma discard_previous_votes: "set (s_Votes (discard_previous signer a s)) \<subseteq> set (s_Votes s)"
  by (auto simp: discard_previous_def split: option.splits dest!: split_vote_Some)

lemma apply_header_ok:
  assumes "snapshot_ok s" "apply_header ec epoch h s = Inr s'"
  shows "snapshot_ok s' \<and> (\<exists>signer. ec h = Inr signer \<and> signer \<in> set (s_Signers s)
    \<and> (set (s_Signers s') \<noteq> set (s_Signers s) \<longrightarrow>
        (\<exists>voters\<subseteq>set (s_Signers s). length (s_Signers s) < 2 * card voters
          \<and> (\<forall>a\<in>voters. a = signer \<or> (\<exists>v\<in>set (s_Votes s). v_Signer v = a \<and> v_Address v = h_coinbase h))
          \<and> set (s_Signers s') = (if h_coinbase h \<in> set (s_Signers s) then set (s_Signers s) - {h_coinbase h}
               else insert (h_coinbase h) (set (s_Signers s))))))"
  using assms(2)
proof (cases rule: apply_header_Inr)
  case (1 signer authorize s2 s4 s5 counted)
  let ?a = "h_coinbase h" and ?n = "big_Uint64 (h_number h)"
  let ?s3 = "s2\<lparr>s_Recents := AList.update ?n signer (s_Recents s2)\<rparr>"
  define s6 where "s6 = (if counted then s5\<lparr>s_Votes := s_Votes s5 @
      [\<lparr>v_Signer = signer, v_Block = ?n, v_Address = ?a, v_Authorize = authorize\<rparr>]\<rparr> else s5)"
  have s2: "s_Signers s2 = s_Signers s" "set (s_Votes s2) \<subseteq> set (s_Votes s)" using 1(1) by auto
  have "snapshot_ok s2" using assms(1) 1(1) by (auto simp: snapshot_ok_parts votes_ok_def tally_counts_def)
  then have s3: "snapshot_ok ?s3" using 1(4) by (simp add: snapshot_ok_parts recents_ok_update)
  note s4 = discard_previous_ok [OF s3, of signer ?a, folded 1(5)]
  have s6: "snapshot_ok s6" "s_Signers s6 = s_Signers s"
    using cast_vote_ok [OF s4(1) _ s4(3) 1(7), of ?n] s4(2) 1(3) s2 by (auto simp: s6_def)
  have votes: "v_Signer v = signer \<or> v \<in> set (s_Votes s)" if "v \<in> set (s_Votes s6)" for v
    using that discard_previous_votes [of signer ?a ?s3] s2(2) 1(5,7)
    by (auto simp: s6_def cast_vote_def split: if_splits option.splits)
  have maj: "\<exists>voters\<subseteq>set (s_Signers s). length (s_Signers s) < 2 * card voters
      \<and> (\<forall>a\<in>voters. a = signer \<or> (\<exists>v\<in>set (s_Votes s). v_Signer v = a \<and> v_Address v = ?a))
      \<and> set (s_Signers s') = (if ?a \<in> set (s_Signers s) then set (s_Signers s) - {?a} else insert ?a (set (s_Signers s)))"
    if ch: "set (s_Signers s') \<noteq> set (s_Signers s)"
  proof -
    obtain t where t: "map_of (s_Tally s6) ?a = Some t" "t_Votes t > int (length (s_Signers s) div 2)"
      using ch s6(2) unfolding 1(8) s6_def [symmetric] pass_vote_signers by (auto split: option.splits if_splits)
    have tc: "t_Authorize t = (?a \<notin> set (s_Signers s))" "t_Votes t = int (length (votes_on s6 ?a))"
      using t(1) s6 by (auto simp: snapshot_ok_def count_tally_def split: if_splits)
    have "length (s_Signers s) < 2 * card (v_Signer ` set (votes_on s6 ?a))"
      using voters_card(1) [OF s6(1), of ?a] t(2) tc(2) by linarith
    moreover have "\<forall>a\<in>v_Signer ` set (votes_on s6 ?a). a = signer \<or> (\<exists>v\<in>set (s_Votes s). v_Signer v = a \<and> v_Address v = ?a)"
      using votes by (auto simp: votes_on_def)
    moreover have "set (s_Signers s') = (if ?a \<in> set (s_Signers s) then set (s_Signers s) - {?a} else insert ?a (set (s_Signers s)))"
      using t tc s6(2) unfolding 1(8) s6_def [symmetric] pass_vote_signers by simp
    moreover have "v_Signer ` set (votes_on s6 ?a) \<subseteq> set (s_Signers s)" using voters_card(2) [OF s6(1)] s6(2) by simp
    ultimately show ?thesis by blast
  qed
  then show ?thesis using 1(2,3) s2(1) pass_vote_ok [OF s6(1), of ?n ?a] 1(8) by (auto simp: s6_def)
qed

section \<open>Applying headers in portions\<close>

text \<open>The number and hash of a snapshot play no part in applying a header, and are kept.\<close>

definition at_block :: "u64 \<Rightarrow> hash \<Rightarrow> Snapshot \<Rightarrow> Snapshot" where
  "at_block n x s = s\<lparr>s_Number := n, s_Hash := x\<rparr>"

lemma at_block_sel [simp]:
  "s_Signers (at_block n x s) = s_Signers s" "s_Recents (at_block n x s) = s_Recents s"
  "s_Votes (at_block n x s) = s_Votes s" "s_Tally (at_block n x s) = s_Tally s"
  "s_Number (at_block n x s) = n" "s_Hash (at_block n x s) = x"
  by (simp_all add: at_block_def)

lemma at_block_upd [simp]:
  "(at_block n x s)\<lparr>s_Votes := vs\<rparr> = at_block n x (s\<lparr>s_Votes := vs\<rparr>)"
  "(at_block n x s)\<lparr>s_Tally := ts\<rparr> = at_block n x (s\<lparr>s_Tally := ts\<rparr>)"
  "(at_block n x s)\<lparr>s_Recents := rs\<rparr> = at_block n x (s\<lparr>s_Recents := rs\<rparr>)"
  "(at_block n x s)\<lparr>s_Signers := ss\<rparr> = at_block n x (s\<lparr>s_Signers := ss\<rparr>)"
  "at_block n x (at_block m y s) = at_block n x s"
  by (simp_all add: at_block_def)

lemma at_block_helpers [simp]:
  "signer_limit (at_block n x s) = signer_limit s"
  "validVote (at_block n x s) a b = validVote s a b"
  "forget_recent k (at_block n x s) = at_block n x (forget_recent k s)"
  "uncast (at_block n x s) a b = map_prod (at_block n x) id (uncast s a b)"
  "cast_vote (at_block n x s) a b = map_prod (at_block n x) id (cast_vote s a b)"
  "discard_votes_on a (at_block n x s) = at_block n x (discard_votes_on a s)"
  by (simp_all add: signer_limit_def validVote_def forget_recent_def uncast_def cast_vote_def discard_votes_on_def
      split: option.splits)

lemma at_block_discard [simp]:
  "discard_cast_by a vs (at_block n x s) = at_block n x (discard_cast_by a vs s)"
  "discard_previous g a (at_block n x s) = at_block n x (discard_previous g a s)"
  by (induction a vs s rule: discard_cast_by.induct) (simp_all add: Let_def discard_previous_def split: option.splits)

lemma at_block_pass [simp]: "pass_vote k a (at_block n x s) = at_block n x (pass_vote k a s)"
  by (simp add: pass_vote_def Let_def split: option.splits)

lemma at_block_apply:
  "apply_header ec epoch h (at_block n x s) = map_sum id (at_block n x) (apply_header ec epoch h s)"
  by (auto simp: apply_header_def Let_def split: sum.splits option.splits prod.splits)

lemma at_block_applies:
  "apply_headers ec epoch hs (at_block n x s) = map_sum id (at_block n x) (apply_headers ec epoch hs s)"
  by (induction hs arbitrary: s) (auto simp: at_block_apply split: sum.splits)

lemma at_block_self: "at_block (s_Number s) (s_Hash s) s = s"
  by (simp add: at_block_def)

lemma apply_headers_number:
  assumes "apply_headers ec epoch hs s = Inr s'"
  shows "s_Number s' = s_Number s" "s_Hash s' = s_Hash s"
proof -
  have "map_sum id (at_block (s_Number s) (s_Hash s)) (apply_headers ec epoch hs s) = apply_headers ec epoch hs s"
    using at_block_applies [of ec epoch hs "s_Number s" "s_Hash s" s] by (simp add: at_block_self)
  then have "at_block (s_Number s) (s_Hash s) s' = s'" using assms by simp
  then show "s_Number s' = s_Number s" "s_Hash s' = s_Hash s" by (metis at_block_sel(5), metis at_block_sel(6))
qed

lemma apply_headers_append:
  "apply_headers ec epoch (xs @ ys) s =
     (case apply_headers ec epoch xs s of Inl err \<Rightarrow> Inl err | Inr s' \<Rightarrow> apply_headers ec epoch ys s')"
  by (induction xs arbitrary: s) (auto split: sum.splits)

lemma snapshot_apply_at:
  "snapshot_apply ec epoch s headers =
     (if headers = [] then Inr s
      else if \<not> voting_chain headers \<or> big_Uint64 (h_number (hd headers)) \<noteq> s_Number s + 1 then Inl errInvalidVotingChain
      else map_sum id (at_block (s_Number s + of_nat (length headers)) (h_hash (last headers))) (apply_headers ec epoch headers s))"
  by (auto simp: snapshot_apply_def at_block_def apply_headers_number split: sum.splits)

lemma voting_chain_append:
  "xs \<noteq> [] \<Longrightarrow> ys \<noteq> [] \<Longrightarrow> voting_chain (xs @ ys) \<longleftrightarrow> voting_chain xs \<and> voting_chain ys
     \<and> big_Uint64 (h_number (hd ys)) = big_Uint64 (h_number (last xs)) + 1"
proof (induction xs)
  case (Cons x xs)
  then show ?case by (cases xs; cases ys) auto
qed simp

lemma voting_chain_last:
  "voting_chain (h # hs) \<Longrightarrow> big_Uint64 (h_number (last (h # hs))) = big_Uint64 (h_number h) + of_nat (length hs)"
  by (induction hs arbitrary: h) (auto simp: add.assoc)

text \<open>Applying a run of headers in two portions is the same as applying it at once, errors included.\<close>

lemma snapshot_apply_append:
  assumes "voting_chain (xs @ ys)" "xs \<noteq> []" "big_Uint64 (h_number (hd xs)) = s_Number s + 1"
  shows "snapshot_apply ec epoch s (xs @ ys) =
    (case snapshot_apply ec epoch s xs of Inl err \<Rightarrow> Inl err | Inr s' \<Rightarrow> snapshot_apply ec epoch s' ys)"
proof (cases "ys = []")
  case False
  obtain h hs where xs: "xs = h # hs" using assms(2) by (cases xs) auto
  have c: "voting_chain xs" "voting_chain ys" "big_Uint64 (h_number (hd ys)) = big_Uint64 (h_number (last xs)) + 1"
    using assms(1) voting_chain_append [OF assms(2) False] by auto
  have "big_Uint64 (h_number (hd ys)) = s_Number s + of_nat (length xs) + 1"
    using c(3) voting_chain_last [of h hs] c(1) xs assms(3) by (simp add: ac_simps)
  then show ?thesis using assms c False
    by (cases "apply_headers ec epoch xs s")
      (auto simp: snapshot_apply_at apply_headers_append at_block_applies sum.map_comp ac_simps
        fun_eq_iff comp_def intro!: sum.map_cong)
qed (use assms in \<open>auto simp: snapshot_apply_def split: sum.splits\<close>)

section \<open>Turns\<close>

lemma unat_u64_of_nat: "n < 2 ^ 64 \<Longrightarrow> unat (of_nat n :: u64) = n"
  by (simp add: unat_of_nat take_bit_nat_eq_self)

lemma bring_least_props:
  "bring_least x ys = (m, zs) \<Longrightarrow> mset (m # zs) = mset (x # ys) \<and> (\<forall>z\<in>set zs. m \<le> z)"
proof (induction x ys arbitrary: m zs rule: bring_least.induct)
  case (2 x y ys)
  obtain m' zs' where b: "bring_least (if x > y then y else x) ys = (m', zs')" by force
  then have "m = m'" "zs = (if x > y then x else y) # zs'" using "2.prems" by (auto simp: Let_def split: if_splits)
  moreover have "mset (m' # zs') = mset ((if x > y then y else x) # ys) \<and> (\<forall>z\<in>set zs'. m' \<le> z)"
    using "2.IH" b by (auto split: if_splits)
  moreover have "m' \<le> (if x > y then y else x)" using calculation(3) by (metis insert_iff list.set(2) order_refl set_mset_mset)
  ultimately show ?case by (auto split: if_splits)
qed simp

lemma exchange_sort_mset [simp]: "mset (exchange_sort xs) = mset xs"
proof (induction xs rule: exchange_sort.induct)
  case (2 x xs)
  obtain m ys where "bring_least x xs = (m, ys)" by force
  then show ?case using 2 bring_least_props [of x xs m ys] by auto
qed simp

lemma exchange_sort_set [simp]: "set (exchange_sort xs) = set xs"
  by (metis exchange_sort_mset set_mset_mset)

lemma exchange_sort_sorted: "sorted (exchange_sort xs)"
proof (induction xs rule: exchange_sort.induct)
  case (2 x xs)
  obtain m ys where "bring_least x xs = (m, ys)" by force
  then show ?case using 2 bring_least_props [of x xs m ys] by auto
qed simp

lemma exchange_sort_sort: "exchange_sort xs = sort xs"
  by (rule properties_for_sort [symmetric]) (simp_all add: exchange_sort_sorted)

text \<open>The exchange sort of the signer list is sorting, and at every block number exactly one of the
  signers is in turn.\<close>

lemma one_signer_in_turn:
  assumes "snapshot_ok s" "s_Signers s \<noteq> []" "length (s_Signers s) < 2 ^ 64"
  shows "signers_list s = sort (s_Signers s) \<and> (\<exists>!a. a \<in> set (s_Signers s) \<and> inturn s number a = Some True)"
proof -
  let ?l = "signers_list s"
  have l: "?l = sort (s_Signers s)" "distinct ?l" "set ?l = set (s_Signers s)" "length ?l = length (s_Signers s)"
    using assms(1) by (simp_all add: signers_list_def exchange_sort_sort snapshot_ok_def)
  define k where "k = unat (number mod of_nat (length ?l))"
  have len: "unat (of_nat (length ?l) :: u64) = length ?l" using assms(3) l(4) by (simp add: unat_u64_of_nat)
  have k: "k < length ?l" using len assms(2) l(4) by (simp add: k_def unat_mod mod_less_divisor)
  have off: "inturn s number (?l ! i) = Some True \<longleftrightarrow> i = k" if "i < length ?l" for i
  proof -
    have "length (takeWhile (\<lambda>a. a \<noteq> ?l ! i) ?l) = i"
      using takeWhile_hit [of "?l ! i" ?l] that l(2) by (auto simp: nth_eq_iff_index_eq)
    then have "inturn s number (?l ! i) = Some (number mod of_nat (length ?l) = of_nat i)"
      using that by (auto simp: inturn_def Let_def)
    moreover have "unat (of_nat i :: u64) = i" using that assms(3) l(4) by (simp add: unat_u64_of_nat)
    ultimately show ?thesis by (auto simp: k_def word_unat_eq_iff)
  qed
  have "\<exists>!a. a \<in> set ?l \<and> inturn s number a = Some True"
  proof (rule ex1I [of _ "?l ! k"])
    show "?l ! k \<in> set ?l \<and> inturn s number (?l ! k) = Some True" using k off by simp
    show "a = ?l ! k" if "a \<in> set ?l \<and> inturn s number a = Some True" for a
      using that off by (metis in_set_conv_nth)
  qed
  then show ?thesis using l by simp
qed

lemma one_signer_in_turn_witness:
  "\<exists>!a. a \<in> set [9, 4 :: address] \<and> inturn (newSnapshot 0 0 [9, 4]) 7 a = Some True"
proof -
  have "snapshot_ok (newSnapshot 0 0 [9, 4])"
    by (auto simp: snapshot_ok_def newSnapshot_def votes_on_def List.insert_def)
  moreover have s: "s_Signers (newSnapshot 0 0 [9, 4]) = [4, 9]" by (simp add: newSnapshot_def List.insert_def)
  ultimately show ?thesis using one_signer_in_turn [of "newSnapshot 0 0 [9, 4]" 7] by (auto simp: insert_commute)
qed

text \<open>(C5) Applying a header to a well-formed snapshot keeps the tally equal to the count of the votes,
  one for each signer and account; the header's signer is authorised, and the set of signers
  changes only by the account voted on, and only when more than half of the signers want it.\<close>

theorem clique_majority:
  assumes "snapshot_ok s" "apply_header ec epoch h s = Inr s'"
  shows "snapshot_ok s' \<and> (\<exists>signer. ec h = Inr signer \<and> signer \<in> set (s_Signers s)
    \<and> (set (s_Signers s') \<noteq> set (s_Signers s) \<longrightarrow>
        (\<exists>voters\<subseteq>set (s_Signers s). length (s_Signers s) < 2 * card voters
          \<and> (\<forall>a\<in>voters. a = signer \<or> (\<exists>v\<in>set (s_Votes s). v_Signer v = a \<and> v_Address v = h_coinbase h))
          \<and> set (s_Signers s') = (if h_coinbase h \<in> set (s_Signers s) then set (s_Signers s) - {h_coinbase h}
               else insert (h_coinbase h) (set (s_Signers s))))))"
  using assms by (rule apply_header_ok)

definition sample_vote :: header where
  "sample_vote = \<lparr>h_hash = 1, h_parentHash = 0, h_uncleHash = 0, h_coinbase = 9, h_root = 0, h_txHash = 0,
     h_receiptHash = 0, h_bloom = 0, h_difficulty = 2, h_number = 1, h_gasLimit = 0, h_gasUsed = 0, h_time = 15,
     h_extra = replicate 97 0, h_mixDigest = 0, h_nonce = replicate 8 0xff\<rparr>"

theorem clique_majority_witness:
  "snapshot_ok (projr (apply_header (\<lambda>h. Inr 4) 30000 sample_vote (newSnapshot 0 0 [4])))
    \<and> set (s_Signers (projr (apply_header (\<lambda>h. Inr 4) 30000 sample_vote (newSnapshot 0 0 [4])))) = {4, 9}"
proof -
  let ?s = "newSnapshot 0 0 [4]" and ?r = "apply_header (\<lambda>h. Inr 4) 30000 sample_vote (newSnapshot 0 0 [4])"
  have ok: "snapshot_ok ?s" by (auto simp: snapshot_ok_def newSnapshot_def votes_on_def List.insert_def)
  have r: "?r = Inr (projr ?r)" by code_simp
  moreover have "set (s_Signers (projr ?r)) = {4, 9}" by code_simp
  ultimately show ?thesis using clique_majority [OF ok r] by blast
qed

end
