(* ===== verification/Clique.thy ===== *)
theory Clique
  imports Clique_Snapshot State_Processor "HOL-Library.Monad_Syntax"
begin

text \<open>
  \<open>consensus/clique/clique.go\<close>: the proof-of-authority engine on top of the voting snapshots.  The
  caches of snapshots, in memory and on disk, are explicit state; an entry may be missing at any
  time, as the memory cache evicts.  The chain is given by its header lookup and its genesis
  header, the recovery of a header's signer and the hash of an empty uncle list are arguments.
\<close>

section \<open>Configuration and caches\<close>

definition NewClique :: "CliqueConfig \<Rightarrow> CliqueConfig" where
  "NewClique config =
     (let conf = (if cfg_Epoch config = 0 then config\<lparr>cfg_Epoch := 30000\<rparr> else config)
      in if cfg_Period conf = 0 then conf\<lparr>cfg_Period := 15\<rparr> else conf)"

record caches =
  c_recents :: "(hash \<times> Snapshot) list"
  c_db :: "(hash \<times> Snapshot) list"

text \<open>What the engine uses of its surroundings; \<open>ce_put\<close> tells whether the disk takes a snapshot.\<close>

record clique_env =
  ce_config :: CliqueConfig
  ce_GetHeader :: get_header
  ce_genesis :: header
  ce_recover :: "header \<Rightarrow> address option"
  ce_uncleHash :: hash
  ce_now :: int
  ce_put :: "hash \<Rightarrow> bool"

definition ecrecover :: "clique_env \<Rightarrow> header \<Rightarrow> clique_error + address" where
  "ecrecover env header =
     (if length (h_extra header) < 65 then Inl errMissingSignature
      else case ce_recover env header of None \<Rightarrow> Inl errRecover | Some signer \<Rightarrow> Inr signer)"

section \<open>Standalone checks\<close>

definition verify_basic :: "clique_env \<Rightarrow> header \<Rightarrow> clique_error option" where
  "verify_basic env header =
     (let number = big_Uint64 (h_number header);
          checkpoint = (number mod cfg_Epoch (ce_config env) = 0);
          signersBytes = int (length (h_extra header)) - 32 - 65
      in if h_time header > ce_now env then Some (errEngine ErrFutureBlock)
         else if checkpoint \<and> h_coinbase header \<noteq> 0 then Some errInvalidCheckpointBeneficiary
         else if vote_of_nonce (h_nonce header) = None then Some errInvalidVote
         else if checkpoint \<and> vote_of_nonce (h_nonce header) \<noteq> Some False then Some errInvalidCheckpointVote
         else if length (h_extra header) < 32 then Some errMissingVanity
         else if length (h_extra header) < 32 + 65 then Some errMissingSignature
         else if \<not> checkpoint \<and> signersBytes \<noteq> 0 then Some errExtraSigners
         else if checkpoint \<and> signersBytes mod 20 \<noteq> 0 then Some errInvalidCheckpointSigners
         else if h_mixDigest header \<noteq> 0 then Some errInvalidMixDigest
         else if h_uncleHash header \<noteq> ce_uncleHash env then Some errInvalidUncleHash
         else if 0 < number \<and> h_difficulty header \<noteq> 2 \<and> h_difficulty header \<noteq> 1 then Some errInvalidDifficulty
         else None)"

section \<open>Snapshots of the chain\<close>

text \<open>The signers in the extra data of the genesis header: twenty bytes each between the vanity and the
  seal, read with the highest byte first.\<close>

definition address_of_bytes :: "bytes \<Rightarrow> address" where
  "address_of_bytes bs = foldl (\<lambda>a b. a * 256 + ucast b) 0 bs"

definition genesis_signers :: "bytes \<Rightarrow> address list" where
  "genesis_signers extra =
     map (\<lambda>i. address_of_bytes (take 20 (drop (32 + i * 20) extra))) [0..<(length extra - 32 - 65) div 20]"

definition genesis_snapshot :: "clique_env \<Rightarrow> clique_error + Snapshot" where
  "genesis_snapshot env =
     (case verify_basic env (ce_genesis env) of
        Some err \<Rightarrow> Inl err
      | None \<Rightarrow> Inr (newSnapshot 0 (h_hash (ce_genesis env)) (genesis_signers (h_extra (ce_genesis env)))))"

text \<open>The loop of \<open>snapshot\<close>: walk back to a snapshot that is cached, gathering the headers newest first.
  The genesis header has number zero, for which \<open>VerifyHeader\<close> is the standalone checks.\<close>

function find_base ::
  "clique_env \<Rightarrow> caches \<Rightarrow> u64 \<Rightarrow> hash \<Rightarrow> header list \<Rightarrow> header list \<Rightarrow> clique_error + (Snapshot \<times> header list \<times> caches)" where
  "find_base env c number h parents headers =
     (case map_of (c_recents c) h of
        Some s \<Rightarrow> Inr (s, headers, c)
      | None \<Rightarrow>
          case (if number mod 1024 = 0 then map_of (c_db c) h else None) of
            Some s \<Rightarrow> Inr (s, headers, c)
          | None \<Rightarrow>
              if number = 0 then
                case genesis_snapshot env of
                  Inl err \<Rightarrow> Inl err
                | Inr s \<Rightarrow> if ce_put env (s_Hash s) then Inr (s, headers, c\<lparr>c_db := AList.update (s_Hash s) s (c_db c)\<rparr>)
                          else Inl errStore
              else if parents \<noteq> [] then
                let header = last parents in
                if h_hash header \<noteq> h \<or> big_Uint64 (h_number header) \<noteq> number then Inl (errEngine ErrUnknownAncestor)
                else find_base env c (number - 1) (h_parentHash header) (butlast parents) (headers @ [header])
              else case ce_GetHeader env h number of
                  None \<Rightarrow> Inl (errEngine ErrUnknownAncestor)
                | Some header \<Rightarrow> find_base env c (number - 1) (h_parentHash header) parents (headers @ [header]))"
  by pat_completeness auto
termination
  by (relation "measure (\<lambda>(env, c, number, h, parents, headers). unat number)")
    (auto simp: unat_minus_one unat_gt_0)

declare find_base.simps [simp del]

definition snapshot ::
  "clique_env \<Rightarrow> caches \<Rightarrow> u64 \<Rightarrow> hash \<Rightarrow> header list \<Rightarrow> clique_error + (Snapshot \<times> caches)" where
  "snapshot env c number h parents =
     (case find_base env c number h parents [] of
        Inl err \<Rightarrow> Inl err
      | Inr (base, headers, c) \<Rightarrow>
          case snapshot_apply (ecrecover env) (cfg_Epoch (ce_config env)) base (rev headers) of
            Inl err \<Rightarrow> Inl err
          | Inr snap \<Rightarrow>
              let c = c\<lparr>c_recents := AList.update (s_Hash snap) snap (c_recents c)\<rparr> in
              if s_Number snap mod 1024 = 0 \<and> headers \<noteq> [] then
                if ce_put env (s_Hash snap) then Inr (snap, c\<lparr>c_db := AList.update (s_Hash snap) snap (c_db c)\<rparr>)
                else Inl errStore
              else Inr (snap, c))"

section \<open>Seals and headers\<close>

text \<open>\<open>verifySeal\<close>; \<open>number - limit\<close> is computed on \<open>uint64\<close>.\<close>

definition check_seal :: "clique_env \<Rightarrow> Snapshot \<Rightarrow> header \<Rightarrow> clique_error option go" where
  "check_seal env snap header =
     (let number = big_Uint64 (h_number header) in
      case ecrecover env header of
        Inl err \<Rightarrow> Some (Some err)
      | Inr signer \<Rightarrow>
          if signer \<notin> set (s_Signers snap) then Some (Some errUnauthorized)
          else if \<exists>(seen, recent)\<in>set (s_Recents snap). recent = signer \<and> seen > number - signer_limit snap
          then Some (Some errUnauthorized)
          else map_option (\<lambda>turn.
            if turn \<and> h_difficulty header \<noteq> 2 then Some errInvalidDifficulty
            else if \<not> turn \<and> h_difficulty header \<noteq> 1 then Some errInvalidDifficulty
            else None) (inturn snap number signer))"

definition verifySeal ::
  "clique_env \<Rightarrow> caches \<Rightarrow> header \<Rightarrow> header list \<Rightarrow> clique_error option go" where
  "verifySeal env c header parents =
     (let number = big_Uint64 (h_number header) in
      if number = 0 then Some (Some errUnknownBlock)
      else case snapshot env c (number - 1) (h_parentHash header) parents of
          Inl err \<Rightarrow> Some (Some err)
        | Inr (snap, c) \<Rightarrow> check_seal env snap header)"

definition verifyCascadingFields ::
  "clique_env \<Rightarrow> caches \<Rightarrow> header \<Rightarrow> header list \<Rightarrow> clique_error option go" where
  "verifyCascadingFields env c header parents =
     (let number = big_Uint64 (h_number header) in
      if number = 0 then Some None
      else case (if parents \<noteq> [] then Some (last parents) else ce_GetHeader env (h_parentHash header) (number - 1)) of
          None \<Rightarrow> Some (Some (errEngine ErrUnknownAncestor))
        | Some parent \<Rightarrow>
            if big_Uint64 (h_number parent) \<noteq> number - 1 \<or> h_hash parent \<noteq> h_parentHash header
            then Some (Some (errEngine ErrUnknownAncestor))
            else if big_Uint64 (h_time parent) + cfg_Period (ce_config env) > big_Uint64 (h_time header)
            then Some (Some errInvalidTimestamp)
            else case snapshot env c (number - 1) (h_parentHash header) parents of
                Inl err \<Rightarrow> Some (Some err)
              | Inr (snap, c) \<Rightarrow>
                  if number mod cfg_Epoch (ce_config env) = 0
                     \<and> take (length (h_extra header) - 65 - 32) (drop 32 (h_extra header))
                       \<noteq> concat (map address_bytes (signers_list snap))
                  then Some (Some errInvalidCheckpointSigners)
                  else verifySeal env c header parents)"

definition clique_verifyHeader ::
  "clique_env \<Rightarrow> caches \<Rightarrow> header \<Rightarrow> header list \<Rightarrow> clique_error option go" where
  "clique_verifyHeader env c header parents =
     (case verify_basic env header of
        Some err \<Rightarrow> Some (Some err)
      | None \<Rightarrow> verifyCascadingFields env c header parents)"

definition clique_VerifyUncles :: "block \<Rightarrow> clique_error option" where
  "clique_VerifyUncles block = (if 0 < length (b_uncles block) then Some errUnclesNotAllowed else None)"

text \<open>The test of \<open>Seal\<close> whether the signer must wait for others.\<close>

definition must_wait :: "Snapshot \<Rightarrow> u64 \<Rightarrow> address \<Rightarrow> bool" where
  "must_wait snap number signer \<longleftrightarrow>
     (\<exists>(seen, recent)\<in>set (s_Recents snap). recent = signer
        \<and> (number < signer_limit snap \<or> seen > number - signer_limit snap))"

section \<open>Preparing a header\<close>

text \<open>\<open>Prepare\<close> and \<open>Finalize\<close>; \<open>pick\<close> is the random choice among the proposals that make sense.\<close>

definition sensible_proposals :: "Snapshot \<Rightarrow> (address \<times> bool) list \<Rightarrow> address list" where
  "sensible_proposals snap proposals = map fst (filter (\<lambda>(a, authorize). validVote snap a authorize) proposals)"

definition clique_Prepare ::
  "clique_env \<Rightarrow> caches \<Rightarrow> (address \<times> bool) list \<Rightarrow> address \<Rightarrow> (nat \<Rightarrow> nat) \<Rightarrow> header \<Rightarrow> (clique_error + header) go" where
  "clique_Prepare env c proposals self pick header0 =
     (let header = header0\<lparr>h_coinbase := 0, h_nonce := replicate 8 0\<rparr>;
          number = big_Uint64 (h_number header);
          checkpoint = (number mod cfg_Epoch (ce_config env) = 0)
      in case snapshot env c (number - 1) (h_parentHash header) [] of
          Inl err \<Rightarrow> Some (Inl err)
        | Inr (snap, c) \<Rightarrow>
            let addresses = sensible_proposals snap proposals;
                chosen = addresses ! pick (length addresses);
                header = (if \<not> checkpoint \<and> addresses \<noteq> [] then header\<lparr>h_coinbase := chosen,
                    h_nonce := if map_of proposals chosen = Some True then replicate 8 0xff else replicate 8 0\<rparr>
                  else header)
            in do {
              turn \<leftarrow> inturn snap number self;
              let vanity = take 32 (h_extra header @ replicate (32 - length (h_extra header)) 0);
              let signers = (if checkpoint then concat (map address_bytes (signers_list snap)) else []);
              let header = header\<lparr>h_difficulty := if turn then 2 else 1,
                h_extra := vanity @ signers @ replicate 65 0, h_mixDigest := 0\<rparr>;
              case ce_GetHeader env (h_parentHash header) (number - 1) of
                None \<Rightarrow> Some (Inl (errEngine ErrUnknownAncestor))
              | Some parent \<Rightarrow>
                  let t = h_time parent + uint (cfg_Period (ce_config env)) in
                  Some (Inr (header\<lparr>h_time := if big_Int64 t < ce_now env then ce_now env else t\<rparr>)) })"

definition clique_Finalize :: "hash \<Rightarrow> ('s \<Rightarrow> hash) \<Rightarrow> header \<Rightarrow> 's \<Rightarrow> tx list \<Rightarrow> block" where
  "clique_Finalize uncleHash root header s txs =
     \<lparr>b_header = header\<lparr>h_root := root s, h_uncleHash := uncleHash\<rparr>, b_txs = txs, b_uncles = []\<rparr>"

section \<open>What \<open>snapshot\<close> computes\<close>

text \<open>The specification: the snapshot of a block is that of its parent with its header applied, starting
  from the genesis block; there are no caches.\<close>

function spec_snapshot :: "clique_env \<Rightarrow> u64 \<Rightarrow> hash \<Rightarrow> clique_error + Snapshot" where
  "spec_snapshot env number h =
     (if number = 0 then genesis_snapshot env
      else case ce_GetHeader env h number of
          None \<Rightarrow> Inl (errEngine ErrUnknownAncestor)
        | Some header \<Rightarrow>
            case spec_snapshot env (number - 1) (h_parentHash header) of
              Inl err \<Rightarrow> Inl err
            | Inr s \<Rightarrow> snapshot_apply (ecrecover env) (cfg_Epoch (ce_config env)) s [header])"
  by pat_completeness auto
termination
  by (relation "measure (\<lambda>(env, number, h). unat number)") (auto simp: unat_minus_one unat_gt_0)

declare spec_snapshot.simps [simp del]

lemma spec_snapshot_0 [simp]: "spec_snapshot env 0 h = genesis_snapshot env"
  by (simp add: spec_snapshot.simps)

lemma find_base_0:
  "find_base env c 0 h parents headers =
     (case map_of (c_recents c) h of
        Some s \<Rightarrow> Inr (s, headers, c)
      | None \<Rightarrow> (case map_of (c_db c) h of
          Some s \<Rightarrow> Inr (s, headers, c)
        | None \<Rightarrow> (case genesis_snapshot env of
            Inl err \<Rightarrow> Inl err
          | Inr s \<Rightarrow> if ce_put env (s_Hash s) then Inr (s, headers, c\<lparr>c_db := AList.update (s_Hash s) s (c_db c)\<rparr>)
                    else Inl errStore)))"
  by (subst find_base.simps) simp

text \<open>The blocks of the chain, by number and hash.\<close>

definition known :: "clique_env \<Rightarrow> u64 \<Rightarrow> hash \<Rightarrow> bool" where
  "known env number h \<longleftrightarrow>
     (if number = 0 then h = h_hash (ce_genesis env) else ce_GetHeader env h number \<noteq> None)"

text \<open>What the engine relies on in the chain and the disk: a header is found under its own hash and
  number, its parent is known as well, a hash has one number, and snapshots are written.\<close>

definition chain_laws :: "clique_env \<Rightarrow> bool" where
  "chain_laws env \<longleftrightarrow>
     (\<forall>h n hd. ce_GetHeader env h n = Some hd \<longrightarrow> h_hash hd = h \<and> big_Uint64 (h_number hd) = n
        \<and> (n \<noteq> 0 \<longrightarrow> known env (n - 1) (h_parentHash hd)))
     \<and> (\<forall>h n m. known env n h \<and> known env m h \<longrightarrow> n = m) \<and> (\<forall>h. ce_put env h)"

text \<open>A cached snapshot is the specified one of the block it is cached under.\<close>

definition caches_ok :: "clique_env \<Rightarrow> caches \<Rightarrow> bool" where
  "caches_ok env c \<longleftrightarrow> (\<forall>h s number. (map_of (c_recents c) h = Some s \<or> map_of (c_db c) h = Some s)
     \<and> known env number h \<longrightarrow> spec_snapshot env number h = Inr s)"

lemma spec_snapshot_number:
  "spec_snapshot env number h = Inr s \<Longrightarrow> s_Number s = number"
proof (induction "unat number" arbitrary: number h s rule: less_induct)
  case less
  show ?case
  proof (cases "number = 0")
    case True
    then show ?thesis using less.prems
      by (auto simp: genesis_snapshot_def newSnapshot_def split: option.splits)
  next
    case False
    then obtain hd s0 where s0: "spec_snapshot env (number - 1) (h_parentHash hd) = Inr s0"
      "snapshot_apply (ecrecover env) (cfg_Epoch (ce_config env)) s0 [hd] = Inr s"
      using less.prems by (auto simp: spec_snapshot.simps [of env number] split: option.splits sum.splits)
    have "unat (number - 1) < unat number" using False by (simp add: unat_minus_one unat_gt_0)
    then have "s_Number s0 = number - 1" using less.hyps s0(1) by blast
    then show ?thesis using s0(2)
      by (cases "apply_headers (ecrecover env) (cfg_Epoch (ce_config env)) [hd] s0")
        (auto simp: snapshot_apply_at split: if_splits)
  qed
qed

lemma spec_snapshot_hash:
  assumes "chain_laws env" "known env number h" "spec_snapshot env number h = Inr s"
  shows "s_Hash s = h"
proof (cases "number = 0")
  case True
  then show ?thesis using assms
    by (auto simp: genesis_snapshot_def newSnapshot_def known_def split: option.splits)
next
  case False
  then obtain hd where hd: "ce_GetHeader env h number = Some hd" using assms(2) by (auto simp: known_def)
  then have "h_hash hd = h" using assms(1) by (simp add: chain_laws_def)
  then show ?thesis using assms(3) False hd
    by (auto simp: spec_snapshot.simps [of env number] snapshot_apply_def split: sum.splits if_splits)
qed

lemma caches_ok_add:
  assumes "chain_laws env" "caches_ok env c" "known env number h" "spec_snapshot env number h = Inr s"
  shows "caches_ok env (c\<lparr>c_recents := AList.update h s (c_recents c)\<rparr>)"
    "caches_ok env (c\<lparr>c_db := AList.update h s (c_db c)\<rparr>)"
proof -
  have "spec_snapshot env m h = Inr s" if "known env m h" for m
    using that assms(1,3,4) unfolding chain_laws_def by blast
  then show "caches_ok env (c\<lparr>c_recents := AList.update h s (c_recents c)\<rparr>)"
    "caches_ok env (c\<lparr>c_db := AList.update h s (c_db c)\<rparr>)"
    using assms(2) unfolding caches_ok_def by (fastforce simp: alist_simps split: if_splits)+
qed

text \<open>The walk back: whatever base it finds, applying the gathered headers to it gives what applying
  them to the specified snapshot of the block it set out from gives.\<close>

definition replay :: "clique_env \<Rightarrow> header list \<Rightarrow> clique_error + Snapshot \<Rightarrow> clique_error + Snapshot" where
  "replay env hs r = (case r of Inl err \<Rightarrow> Inl err
     | Inr s \<Rightarrow> snapshot_apply (ecrecover env) (cfg_Epoch (ce_config env)) s hs)"

lemma replay_cons:
  assumes "voting_chain (x # hs)" "\<And>s. r = Inr s \<Longrightarrow> big_Uint64 (h_number x) = s_Number s + 1"
  shows "replay env (x # hs) r = replay env hs (replay env [x] r)"
  using assms snapshot_apply_append [of "[x]" hs _ "ecrecover env" "cfg_Epoch (ce_config env)"]
  by (auto simp: replay_def split: sum.splits)

lemma find_base_replay:
  assumes "chain_laws env" "caches_ok env c" "known env number h" "voting_chain (rev headers)"
    "headers \<noteq> [] \<Longrightarrow> big_Uint64 (h_number (last headers)) = number + 1"
  shows "(case find_base env c number h [] headers of
       Inl err \<Rightarrow> replay env (rev headers) (spec_snapshot env number h) = Inl err
     | Inr (base, hs, c') \<Rightarrow> caches_ok env c'
         \<and> replay env (rev hs) (Inr base) = replay env (rev headers) (spec_snapshot env number h)
         \<and> (hs = [] \<longrightarrow> headers = []))"
  using assms(3-5)
proof (induction "unat number" arbitrary: number h headers rule: less_induct)
  case less
  let ?cached = "case map_of (c_recents c) h of Some s \<Rightarrow> Some s
    | None \<Rightarrow> if number mod 1024 = 0 then map_of (c_db c) h else None"
  show ?case
  proof (cases ?cached)
    case (Some s)
    then have "map_of (c_recents c) h = Some s \<or> map_of (c_db c) h = Some s" by (auto split: option.splits if_splits)
    then have "spec_snapshot env number h = Inr s" using assms(2) less.prems(1) by (auto simp: caches_ok_def)
    moreover have "find_base env c number h [] headers = Inr (s, headers, c)"
      using Some by (auto simp: find_base.simps [of env c number] split: option.splits if_splits)
    ultimately show ?thesis using assms(2) by simp
  next
    case miss: None
    show ?thesis
    proof (cases "number = 0")
      case True
      have f: "find_base env c number h [] headers = (case genesis_snapshot env of Inl err \<Rightarrow> Inl err
          | Inr s \<Rightarrow> Inr (s, headers, c\<lparr>c_db := AList.update (s_Hash s) s (c_db c)\<rparr>))"
        using miss True assms(1) by (auto simp: find_base_0 chain_laws_def split: option.splits sum.splits)
      have sp: "spec_snapshot env number h = genesis_snapshot env" using True by simp
      show ?thesis
      proof (cases "genesis_snapshot env")
        case (Inr s)
        have "s_Hash s = h" using spec_snapshot_hash [OF assms(1) less.prems(1)] sp Inr by simp
        then have "caches_ok env (c\<lparr>c_db := AList.update (s_Hash s) s (c_db c)\<rparr>)"
          using caches_ok_add(2) [OF assms(1,2) less.prems(1)] sp Inr by simp
        then show ?thesis using f sp Inr by simp
      qed (simp add: f sp replay_def)
    next
      case False
      then obtain hd where hd: "ce_GetHeader env h number = Some hd" using less.prems(1) by (auto simp: known_def)
      then have law: "big_Uint64 (h_number hd) = number" "known env (number - 1) (h_parentHash hd)"
        using assms(1) False by (auto simp: chain_laws_def)
      have f: "find_base env c number h [] headers = find_base env c (number - 1) (h_parentHash hd) [] (headers @ [hd])"
        using miss False hd by (auto simp: find_base.simps [of env c number] split: option.splits if_splits)
      have con: "voting_chain (rev (headers @ [hd]))"
        using less.prems(2,3) law(1) by (cases headers rule: rev_cases) auto
      have "unat (number - 1) < unat number" using False by (simp add: unat_minus_one unat_gt_0)
      note ih = less.hyps [OF this law(2) con]
      have "replay env (rev (headers @ [hd])) (spec_snapshot env (number - 1) (h_parentHash hd))
          = replay env (rev headers) (replay env [hd] (spec_snapshot env (number - 1) (h_parentHash hd)))"
        using replay_cons [of hd "rev headers" "spec_snapshot env (number - 1) (h_parentHash hd)" env] con law(1)
        by (simp add: spec_snapshot_number)
      moreover have "replay env [hd] (spec_snapshot env (number - 1) (h_parentHash hd)) = spec_snapshot env number h"
        using False hd by (simp add: spec_snapshot.simps [of env number] replay_def)
      ultimately show ?thesis using ih law(1) unfolding f by (auto split: sum.splits prod.splits)
    qed
  qed
qed

text \<open>(C2) Whatever valid snapshots the caches hold or have lost, \<open>snapshot\<close> gives, error or not, the
  snapshot that applying every header from the genesis block on would give, and leaves the caches
  valid.\<close>

theorem snapshot_refines:
  assumes "chain_laws env" "caches_ok env c" "known env number h"
  shows "(case snapshot env c number h [] of
       Inl err \<Rightarrow> spec_snapshot env number h = Inl err
     | Inr (s, c') \<Rightarrow> spec_snapshot env number h = Inr s \<and> caches_ok env c')"
proof -
  note fb = find_base_replay [OF assms, of "[]"]
  have self: "replay env [] r = r" for r by (auto simp: replay_def snapshot_apply_def split: sum.splits)
  show ?thesis
  proof (cases "find_base env c number h [] []")
    case (Inl err)
    then show ?thesis using fb by (simp add: snapshot_def self)
  next
    case (Inr p)
    obtain base hs c1 where p: "p = (base, hs, c1)" by (cases p) auto
    have ok: "caches_ok env c1" and r: "replay env (rev hs) (Inr base) = spec_snapshot env number h"
      using fb Inr p by (simp_all add: self)
    show ?thesis
    proof (cases "spec_snapshot env number h")
      case (Inl err)
      then show ?thesis using Inr p r by (simp add: snapshot_def replay_def)
    next
      case spec: (Inr s)
      have h: "s_Hash s = h" by (rule spec_snapshot_hash [OF assms(1,3) spec])
      note add = caches_ok_add [OF assms(1) _ assms(3) spec]
      show ?thesis using Inr p r spec assms(1) h add(1) [OF ok] add(2) [OF add(1) [OF ok]]
        by (auto simp: snapshot_def replay_def chain_laws_def Let_def)
    qed
  qed
qed

text \<open>A chain of a genesis block with one signer and the block that admits another.\<close>

definition clique_genesis :: header where
  "clique_genesis = sample_vote\<lparr>h_hash := 50, h_number := 0, h_coinbase := 0, h_nonce := replicate 8 0, h_time := 0,
     h_extra := replicate 32 0 @ replicate 19 0 @ [4] @ replicate 65 0\<rparr>"

definition clique_block :: header where
  "clique_block = sample_vote\<lparr>h_hash := 51, h_parentHash := 50\<rparr>"

definition sample_clique :: clique_env where
  "sample_clique = \<lparr>ce_config = \<lparr>cfg_Period = 15, cfg_Epoch = 30000\<rparr>,
     ce_GetHeader = (\<lambda>h n. if h = 51 \<and> n = 1 then Some clique_block
                          else if h = 50 \<and> n = 0 then Some clique_genesis else None),
     ce_genesis = clique_genesis, ce_recover = (\<lambda>h. Some 4), ce_uncleHash = 0, ce_now = 1000, ce_put = (\<lambda>h. True)\<rparr>"

lemma sample_chain_laws: "chain_laws sample_clique"
proof -
  have "big_Uint64 1 = 1" "big_Uint64 0 = 0" by (simp_all add: big_Uint64_def)
  then show ?thesis
    by (auto simp: chain_laws_def known_def sample_clique_def clique_block_def clique_genesis_def sample_vote_def
        split: if_splits)
qed

theorem snapshot_refines_witness:
  "map_sum id (sort \<circ> s_Signers) (spec_snapshot sample_clique 1 51) = Inr [4, 9]"
proof -
  let ?c = "\<lparr>c_recents = [], c_db = []\<rparr>"
  have "known sample_clique 1 51" by (simp add: known_def sample_clique_def)
  moreover have "caches_ok sample_clique ?c" by (simp add: caches_ok_def)
  moreover have "map_sum id (sort \<circ> s_Signers \<circ> fst) (snapshot sample_clique ?c 1 51 []) = Inr [4, 9]" by code_simp
  ultimately show ?thesis using snapshot_refines [OF sample_chain_laws]
    by (cases "snapshot sample_clique ?c 1 51 []") fastforce+
qed

lemma early_wrap:
  assumes "number < signer_limit snap" "length (s_Signers snap) < 2 ^ 63"
  shows "number < number - signer_limit snap"
proof -
  have "unat (signer_limit snap) = length (s_Signers snap) div 2 + 1"
    using assms(2) by (simp only: signer_limit_def) (rule unat_u64_of_nat, simp)
  then have l: "uint (signer_limit snap) < 2 ^ 63"
    using assms(2) by (simp add: uint_nat)
  have n: "0 \<le> uint number" "uint number < uint (signer_limit snap)" using assms(1) by (simp_all add: word_less_def)
  then have "uint (number - signer_limit snap) = uint number - uint (signer_limit snap) + 2 ^ 64"
    by (simp add: uint_sub_if_size word_size)
  then show ?thesis using n l by (simp add: word_less_def)
qed

text \<open>(C40) Near the start of the chain the subtraction in \<open>verifySeal\<close> wraps around, so that a signer who
  has just signed is let through, whereas the same header cannot be applied to the snapshot: from
  then on the chain has no further snapshot.  The signer itself would wait.\<close>

theorem early_repeat_accepted:
  assumes "ecrecover env header = Inr signer" "signer \<in> set (s_Signers snap)"
    "(seen, signer) \<in> set (s_Recents snap)" "go_ok (s_Recents snap)"
    "number = big_Uint64 (h_number header)" "number < signer_limit snap"
    "\<forall>(seen, recent)\<in>set (s_Recents snap). seen < number"
    "length (s_Signers snap) < 2 ^ 63"
    "inturn snap number signer = Some turn" "h_difficulty header = (if turn then 2 else 1)"
  shows "check_seal env snap header = Some None \<and> must_wait snap number signer
    \<and> apply_header (ecrecover env) epoch header snap = Inl errUnauthorized"
proof -
  have "number < number - signer_limit snap" by (rule early_wrap [OF assms(6,8)])
  then have "\<not> (\<exists>(seen, recent)\<in>set (s_Recents snap). recent = signer \<and> seen > number - signer_limit snap)"
    using assms(7) by fastforce
  then have "check_seal env snap header = Some None" using assms by (auto simp: check_seal_def)
  moreover have "must_wait snap number signer" using assms(3,6) by (force simp: must_wait_def)
  moreover have "apply_header (ecrecover env) epoch header snap = Inl errUnauthorized"
    using assms(1,2,3,5,6) by (force simp: apply_header_def forget_recent_def signer_limit_def Let_def)
  ultimately show ?thesis by blast
qed

theorem early_repeat_accepted_witness:
  "check_seal sample_clique (newSnapshot 1 0 [4, 5, 6, 7]\<lparr>s_Recents := [(1, 4)]\<rparr>)
     (sample_vote\<lparr>h_number := 2, h_difficulty := 1\<rparr>) = Some None"
proof -
  let ?snap = "newSnapshot 1 0 [4, 5, 6, 7]\<lparr>s_Recents := [(1, 4)]\<rparr>" and ?h = "sample_vote\<lparr>h_number := 2, h_difficulty := 1\<rparr>"
  have "ecrecover sample_clique ?h = Inr 4" "4 \<in> set (s_Signers ?snap)" "(1, 4) \<in> set (s_Recents ?snap)"
    "go_ok (s_Recents ?snap)" "2 = big_Uint64 (h_number ?h)" "2 < signer_limit ?snap"
    "\<forall>(seen, recent)\<in>set (s_Recents ?snap). seen < 2"
    by code_simp+
  moreover have "length (s_Signers ?snap) < 2 ^ 63" by (simp add: newSnapshot_def List.insert_def)
  moreover have "inturn ?snap 2 4 = Some False" "h_difficulty ?h = (if False then 2 else 1)" by code_simp+
  ultimately show ?thesis using early_repeat_accepted [of sample_clique ?h 4 ?snap 1 2 False] by blast
qed

end
